(* ===== verification/Prelude.thy ===== *)
theory Prelude
  imports Main "HOL-Library.Word"
begin

text \<open>
  Shared vocabulary of the development: the names of Rust's integer types, the saturating
  and checked operations of the standard library that the source calls, and the generic
  facts about words, lists and options that the component theories rest on.

  An unsigned Rust integer of width \<open>w\<close> is a \<open>w word\<close>. A signed one is the same word
  read by \<^const>\<open>sint\<close>, as the two's complement cast \<open>as\<close> of Rust leaves the bits
  alone. \<open>usize\<close> and \<open>isize\<close> are 64 bits wide.
\<close>

unbundle bit_operations_syntax

type_synonym u8 = "8 word"
type_synonym u16 = "16 word"
type_synonym u32 = "32 word"
type_synonym u64 = "64 word"
type_synonym i32 = "32 word"
type_synonym i64 = "64 word"
type_synonym u128 = "128 word"
type_synonym usize = "64 word"

text \<open>\<open>std::cmp::Ordering\<close>.\<close>

datatype cmp_ordering = OrderLess | OrderEqual | OrderGreater

named_theorems sat_simps \<open>saturating operations read as integers\<close>
named_theorems field_simps_instr \<open>fields of packed instruction words\<close>

section \<open>Saturating arithmetic of the standard library\<close>

definition sat_add :: "'a::len word \<Rightarrow> 'a word \<Rightarrow> 'a word" where
  "sat_add x y = (if uint x + uint y < 2 ^ LENGTH('a) then x + y else - 1)"

definition sat_mul :: "'a::len word \<Rightarrow> 'a word \<Rightarrow> 'a word" where
  "sat_mul x y = (if uint x * uint y < 2 ^ LENGTH('a) then x * y else - 1)"

definition sat_sub :: "'a::len word \<Rightarrow> 'a word \<Rightarrow> 'a word" where
  "sat_sub x y = (if y \<le> x then x - y else 0)"

text \<open>\<open>i64::saturating_sub_unsigned\<close>: a signed minuend, an unsigned subtrahend.\<close>

definition sat_sub_unsigned :: "i64 \<Rightarrow> u64 \<Rightarrow> i64" where
  "sat_sub_unsigned r c =
     (if sint r - uint c < - (2 ^ 63) then word_of_int (- (2 ^ 63)) else r - c)"

definition i64_max :: i64 where
  "i64_max = 0x7FFFFFFFFFFFFFFF"

definition u64_max :: u64 where
  "u64_max = 0xFFFFFFFFFFFFFFFF"

text \<open>\<open>u64::div_ceil\<close>; the divisor is never zero where the source calls it.\<close>

definition div_ceil :: "u64 \<Rightarrow> u64 \<Rightarrow> u64" where
  "div_ceil x y = (if x mod y = 0 then x div y else x div y + 1)"

section \<open>What the saturating operations compute\<close>

lemma uint_minus_one: "uint (- 1 :: 'a::len word) = 2 ^ LENGTH('a) - 1"
  by (simp add: unsigned_minus_1_eq_mask mask_eq_exp_minus_1)

lemma uint_sat_add [sat_simps]:
  "uint (sat_add x y) = min (2 ^ LENGTH('a) - 1) (uint x + uint y)" for x y :: "'a::len word"
proof (cases "uint x + uint y < 2 ^ LENGTH('a)")
  case True
  then show ?thesis by (simp add: sat_add_def uint_add_lem [THEN iffD1])
next
  case False
  then show ?thesis by (simp only: sat_add_def uint_minus_one if_False)
qed

lemma uint_sat_mul [sat_simps]:
  "uint (sat_mul x y) = min (2 ^ LENGTH('a) - 1) (uint x * uint y)" for x y :: "'a::len word"
proof (cases "uint x * uint y < 2 ^ LENGTH('a)")
  case True
  then show ?thesis by (simp add: sat_mul_def uint_mult_lem [THEN iffD1])
next
  case False
  then show ?thesis by (simp only: sat_mul_def uint_minus_one if_False)
qed

lemma unat_sat_add: "unat (sat_add x y) = min (2 ^ LENGTH('a) - 1) (unat x + unat y)"
  for x y :: "'a::len word"
proof -
  have "int (unat (sat_add x y)) = int (min (2 ^ LENGTH('a) - 1) (unat x + unat y))"
    by (simp add: uint_sat_add of_nat_min of_nat_diff)
  then show ?thesis by (simp only: of_nat_eq_iff)
qed

lemma unat_sat_mul: "unat (sat_mul x y) = min (2 ^ LENGTH('a) - 1) (unat x * unat y)"
  for x y :: "'a::len word"
proof -
  have "int (unat (sat_mul x y)) = int (min (2 ^ LENGTH('a) - 1) (unat x * unat y))"
    by (simp add: uint_sat_mul of_nat_min of_nat_diff)
  then show ?thesis by (simp only: of_nat_eq_iff)
qed

lemma sint_eq_take_bit: "- (2 ^ 63) \<le> k \<Longrightarrow> k < 2 ^ 63 \<Longrightarrow> sint (word_of_int k :: i64) = k"
  by (subst signed_of_int) (simp add: signed_take_bit_int_eq_self)

lemma sint_i64_bounds: "- (2 ^ 63) \<le> sint (r :: i64)" "sint (r :: i64) < 2 ^ 63"
  using sint_greater_eq [of r] sint_less [of r] by simp_all

lemma uint_u64_bounds: "0 \<le> uint (c :: u64)" "uint (c :: u64) < 2 ^ 64"
  using uint_lt2p [of c] by simp_all

lemma unat_u64_bound: "unat (w :: u64) < 2 ^ 64"
  using unsigned_less [of w, where ?'a = nat] by simp

lemma unat_of_nat_u64: "x < 2 ^ 64 \<Longrightarrow> unat (of_nat x :: u64) = x"
  by (simp add: unat_of_nat)

lemma sint_sat_sub_unsigned [sat_simps]:
  "sint (sat_sub_unsigned r c) = max (- (2 ^ 63)) (sint r - uint c)"
proof (cases "sint r - uint c < - (2 ^ 63)")
  case True
  then show ?thesis
    by (simp add: sat_sub_unsigned_def sint_eq_take_bit)
next
  case False
  have "r - c = word_of_int (sint r - uint c)"
    by simp
  with False sint_i64_bounds(2) [of r] uint_u64_bounds(1) [of c] show ?thesis
    by (simp only: sat_sub_unsigned_def if_False)
      (subst sint_eq_take_bit, linarith, linarith, simp)
qed

lemma sint_i64_max [simp]: "sint i64_max = 2 ^ 63 - 1"
  by (simp add: i64_max_def)

text \<open>A nonnegative signed word reads the same unsigned: the cast \<open>as u64\<close>.\<close>

lemma uint_eq_sint: "0 \<le> sint (r :: i64) \<Longrightarrow> uint r = sint r"
proof -
  assume "0 \<le> sint r"
  moreover have "r = word_of_int (sint r)" by simp
  moreover have "uint (word_of_int (sint r) :: i64) = sint r mod 2 ^ 64"
    by (simp only: uint_word_of_int) (simp add: take_bit_eq_mod)
  ultimately show ?thesis
    using sint_i64_bounds(2) [of r] by simp
qed

lemma uint_div_ceil:
  assumes "y \<noteq> 0"
  shows "uint (div_ceil x y) = (if uint x mod uint y = 0 then uint x div uint y
                                else uint x div uint y + 1)"
proof (cases "x mod y = 0")
  case True
  then have "uint x mod uint y = 0"
    by (metis uint_mod uint_0_eq)
  with True show ?thesis
    by (simp add: div_ceil_def uint_div)
next
  case False
  then have nz: "uint x mod uint y \<noteq> 0"
    by (metis uint_mod uint_0_iff)
  have "uint x div uint y + 1 < 2 ^ 64"
  proof (cases "uint y = 1")
    case True
    with nz show ?thesis by simp
  next
    case False
    with assms have "2 \<le> uint y"
      using uint_u64_bounds(1) [of y] by (metis uint_0_iff le_less zless_imp_add1_zle one_add_one add_0)
    then have "uint x div uint y \<le> uint x div 2"
      by (simp add: zdiv_mono2)
    moreover have "uint x div 2 < 2 ^ 63"
      using uint_u64_bounds(2) [of x] by (simp add: div_less_iff_less_mult)
    ultimately show ?thesis by simp
  qed
  moreover have "0 \<le> uint x div uint y"
    by (simp add: pos_imp_zdiv_nonneg_iff div_int_pos_iff)
  ultimately have "uint (x div y + 1) = uint x div uint y + 1"
    by (simp add: uint_word_ariths uint_div)
  with False nz show ?thesis
    by (simp add: div_ceil_def)
qed

section \<open>Words, lists and options\<close>

lemma word_eqI_64: "(\<And>n. n < 64 \<Longrightarrow> bit x n = bit y n) \<Longrightarrow> x = y" for x y :: "64 word"
  by (rule bit_word_eqI) simp

section \<open>Results\<close>

text \<open>
  A Rust \<open>Result<T, E>\<close> is the sum \<open>'e + 't\<close>, \<^const>\<open>Inl\<close> being \<open>Err\<close>. \<open>and_then\<close> is the
  \<open>?\<close> operator, \<open>ensure\<close> the guard \<open>if !b { return Err(e) }\<close>, \<open>for_each\<close> and \<open>fold_result\<close> are
  loops whose body may return early with an error.
\<close>

definition and_then :: "'e + 'a \<Rightarrow> ('a \<Rightarrow> 'e + 'b) \<Rightarrow> 'e + 'b" where
  "and_then r f = (case r of Inl e \<Rightarrow> Inl e | Inr x \<Rightarrow> f x)"

definition ensure :: "bool \<Rightarrow> 'e \<Rightarrow> 'e + unit" where
  "ensure b e = (if b then Inr () else Inl e)"

fun for_each :: "('a \<Rightarrow> 'e + unit) \<Rightarrow> 'a list \<Rightarrow> 'e + unit" where
  "for_each f [] = Inr ()"
| "for_each f (x # xs) = and_then (f x) (\<lambda>_. for_each f xs)"

fun fold_result :: "('a \<Rightarrow> 's \<Rightarrow> 'e + 's) \<Rightarrow> 'a list \<Rightarrow> 's \<Rightarrow> 'e + 's" where
  "fold_result f [] s = Inr s"
| "fold_result f (x # xs) s = and_then (f x s) (fold_result f xs)"

named_theorems result_simps \<open>success of a composed fallible computation\<close>

lemma and_then_sum [simp]:
  "and_then (Inl e) f = Inl e" "and_then (Inr x) f = f x"
  by (simp_all add: and_then_def)

lemma and_then_ok [result_simps]:
  "and_then r f = Inr y \<longleftrightarrow> (\<exists>x. r = Inr x \<and> f x = Inr y)"
  by (cases r) simp_all

lemma and_then_assoc: "and_then (and_then r f) g = and_then r (\<lambda>x. and_then (f x) g)"
  by (cases r) simp_all

lemma ensure_ok [simp, result_simps]: "ensure b e = Inr u \<longleftrightarrow> b"
  by (simp add: ensure_def)

lemma ensure_bool [simp]: "ensure True e = Inr ()" "ensure False e = Inl e"
  by (simp_all add: ensure_def)

lemma ensure_error [simp]: "ensure b e = Inl e' \<longleftrightarrow> \<not> b \<and> e = e'"
  by (auto simp: ensure_def)

lemma for_each_ok [simp, result_simps]:
  "for_each f xs = Inr u \<longleftrightarrow> (\<forall>x \<in> set xs. f x = Inr ())"
  by (induction xs) (auto simp: and_then_ok)

lemma fold_result_append:
  "fold_result f (xs @ ys) s = and_then (fold_result f xs s) (fold_result f ys)"
  by (induction xs arbitrary: s) (auto simp: and_then_def split: sum.splits)

text \<open>An invariant of a fallible loop that the body keeps whenever it succeeds.\<close>

lemma fold_result_invariant:
  assumes "fold_result f xs s = Inr s'" and "P s"
    and "\<And>x t t'. x \<in> set xs \<Longrightarrow> P t \<Longrightarrow> f x t = Inr t' \<Longrightarrow> P t'"
  shows "P s'"
  using assms
proof (induction xs arbitrary: s)
  case (Cons x xs)
  then obtain t where "f x s = Inr t" "fold_result f xs t = Inr s'"
    by (auto simp: and_then_ok)
  with Cons show ?case by (metis list.set_intros(1,2))
qed simp

text \<open>The states a successful loop over \<open>0..n\<close> goes through.\<close>

lemma fold_result_trace:
  assumes "fold_result f [0..<n] s = Inr s'"
  shows "\<exists>ss. ss 0 = s \<and> ss n = s' \<and> (\<forall>i < n. f i (ss i) = Inr (ss (Suc i)))"
  using assms
proof (induction n arbitrary: s')
  case (Suc n)
  then obtain t where t: "fold_result f [0..<n] s = Inr t" "f n t = Inr s'"
    by (auto simp: fold_result_append result_simps)
  from Suc.IH [OF t(1)] obtain ss where
    "ss 0 = s" "ss n = t" "\<forall>i < n. f i (ss i) = Inr (ss (Suc i))" by blast
  then show ?case
    using t(2) by (intro exI [of _ "\<lambda>i. if i \<le> n then ss i else s'"]) (auto simp: less_Suc_eq)
qed auto

text \<open>Taking apart a chain of conditionals without keeping the negated conditions.\<close>

lemma if_branchE:
  assumes "(if c then x else y) = r" "c \<Longrightarrow> x = r \<Longrightarrow> P" "y = r \<Longrightarrow> P"
  shows P
  using assms by (cases c) simp_all

end
