(* ===== verification/Rng.thy ===== *)
theory Rng
  imports Prelude
begin

text \<open>
  \<open>vm/rng.rs\<close>: the SplitMix64 generator behind \<open>math.random\<close>. The state word and the
  outputs are 64-bit words; a drawing operation returns the value and the new state.

  The generator walks the whole period of \<open>2 ^ 64\<close> states and its output function is a
  bijection, so the rejection loop of \<open>random_range_i64\<close> always ends; the result lies in
  the requested range, and every value of the range has the same number of accepted raw
  draws.
\<close>

section \<open>The generator\<close>

record vm_rng =
  rng_state :: u64

definition DEFAULT_SEED :: u64 where
  "DEFAULT_SEED = 0"

definition seed_from_u64 :: "u64 \<Rightarrow> vm_rng" where
  "seed_from_u64 seed = \<lparr>rng_state = seed\<rparr>"

definition state_of :: "vm_rng \<Rightarrow> u64" where
  "state_of r = rng_state r"

definition from_state :: "u64 \<Rightarrow> vm_rng" where
  "from_state s = \<lparr>rng_state = s\<rparr>"

definition golden_gamma :: u64 where
  "golden_gamma = 0x9e3779b97f4a7c15"

text \<open>The output function of \<open>next_u64\<close>, applied to the advanced state word.\<close>

definition mix64 :: "u64 \<Rightarrow> u64" where
  "mix64 z0 =
     (let z1 = (z0 XOR drop_bit 30 z0) * 0xbf58476d1ce4e5b9;
          z2 = (z1 XOR drop_bit 27 z1) * 0x94d049bb133111eb
      in z2 XOR drop_bit 31 z2)"

definition next_u64 :: "vm_rng \<Rightarrow> u64 \<times> vm_rng" where
  "next_u64 r =
     (let s = rng_state r + golden_gamma
      in (mix64 s, r\<lparr>rng_state := s\<rparr>))"

text \<open>
  The rejection loop: draw until the raw word reaches the threshold. A loop that never
  ended would have the value \<^const>\<open>None\<close>.
\<close>

partial_function (option) draw_loop :: "u64 \<Rightarrow> vm_rng \<Rightarrow> (u64 \<times> vm_rng) option" where
  "draw_loop threshold r =
     (let (raw, r') = next_u64 r
      in if threshold \<le> raw then Some (raw, r') else draw_loop threshold r')"

text \<open>\<open>span.wrapping_neg() % span\<close>: \<open>2 ^ 64\<close> modulo the span, computed in 64 bits.\<close>

definition rejection_threshold :: "u64 \<Rightarrow> u64" where
  "rejection_threshold span = (- span) mod span"

definition random_range_i64 :: "vm_rng \<Rightarrow> i64 \<Rightarrow> i64 \<Rightarrow> (i64 \<times> vm_rng) option" where
  "random_range_i64 r start end =
     (if sint end \<le> sint start then Some (start, r)
      else let span = sint end - sint start + 1 in
        if span > uint u64_max
        then let (raw, r') = next_u64 r
             in Some (word_of_int (sint start + uint raw), r')
        else let span64 = (word_of_int span :: u64)
             in (case draw_loop (rejection_threshold span64) r of
                   None \<Rightarrow> None
                 | Some (raw, r') \<Rightarrow>
                     Some (word_of_int (sint start + uint (raw mod span64)), r')))"

section \<open>The output function is a bijection\<close>

lemma xorshift_self_zero:
  fixes d :: u64
  assumes "0 < k" and "d = drop_bit k d"
  shows "d = 0"
proof (rule ccontr)
  assume "d \<noteq> 0"
  then obtain n where n: "bit d n"
    by (metis bit_eqI bit_0_eq bot_apply bot_bool_def)
  have "bit d (n + m * k)" for m
  proof (induction m)
    case 0
    then show ?case using n by simp
  next
    case (Suc m)
    then have "bit (drop_bit k d) (n + m * k)"
      using assms(2) by simp
    then show ?case
      by (simp add: bit_drop_bit_eq ac_simps)
  qed
  then have "bit d (n + 64 * k)" .
  moreover have "64 \<le> n + 64 * k"
    using \<open>0 < k\<close> by simp
  ultimately show False
    using bit_imp_le_length by fastforce
qed

lemma inj_xorshift: "0 < k \<Longrightarrow> inj (\<lambda>z :: u64. z XOR drop_bit k z)"
proof (rule injI)
  fix x y :: u64
  assume k: "0 < k" and eq: "x XOR drop_bit k x = y XOR drop_bit k y"
  have "x XOR y = drop_bit k (x XOR y)"
  proof (rule bit_word_eqI)
    fix n assume "n < LENGTH(64)"
    from eq have "bit (x XOR drop_bit k x) n = bit (y XOR drop_bit k y) n" by simp
    then show "bit (x XOR y) n = bit (drop_bit k (x XOR y)) n"
      by (auto simp: bit_xor_iff bit_drop_bit_eq)
  qed
  then have "x XOR y = 0"
    using k xorshift_self_zero by blast
  then show "x = y"
    by (metis xor.right_neutral xor.assoc xor_self_eq xor.commute)
qed

lemma inj_odd_mult:
  fixes c c' :: u64
  assumes "c * c' = 1"
  shows "inj (\<lambda>z. z * c)"
proof (rule injI)
  fix x y :: u64
  assume "x * c = y * c"
  then have "x * (c * c') = y * (c * c')"
    by (simp only: mult.assoc [symmetric])
  then show "x = y"
    by (simp only: assms mult_1_right)
qed

lemma inj_mix64: "inj mix64"
proof -
  have eq: "mix64 = (\<lambda>z. z XOR drop_bit 31 z) \<circ> (\<lambda>z. z * 0x94d049bb133111eb)
      \<circ> (\<lambda>z. z XOR drop_bit 27 z) \<circ> (\<lambda>z. z * 0xbf58476d1ce4e5b9)
      \<circ> (\<lambda>z. z XOR drop_bit 30 z)"
    by (simp add: fun_eq_iff mix64_def Let_def)
  have "inj (\<lambda>z :: u64. z * 0x94d049bb133111eb)"
    by (rule inj_odd_mult [where c' = "0x319642b2d24d8ec3"]) simp
  moreover have "inj (\<lambda>z :: u64. z * 0xbf58476d1ce4e5b9)"
    by (rule inj_odd_mult [where c' = "0x96de1b173f119089"]) simp
  ultimately show ?thesis
    unfolding eq by (intro inj_compose inj_xorshift) simp_all
qed

lemma bij_mix64: "bij mix64"
  using inj_mix64 by (simp add: bij_def finite_UNIV_inj_surj)

section \<open>The stream of raw draws\<close>

fun nth_draw :: "nat \<Rightarrow> vm_rng \<Rightarrow> u64" where
  "nth_draw 0 r = fst (next_u64 r)"
| "nth_draw (Suc n) r = nth_draw n (snd (next_u64 r))"

lemma next_u64_simps [simp]:
  "fst (next_u64 r) = mix64 (rng_state r + golden_gamma)"
  "rng_state (snd (next_u64 r)) = rng_state r + golden_gamma"
  by (simp_all add: next_u64_def Let_def)

lemma nth_draw_eq: "nth_draw n r = mix64 (rng_state r + of_nat (Suc n) * golden_gamma)"
proof (induction n arbitrary: r)
  case 0
  show ?case by simp
next
  case (Suc n)
  show ?case
    by (simp add: Suc.IH algebra_simps)
qed

definition gamma_inverse :: u64 where
  "gamma_inverse = 0xf1de83e19937733d"

lemma golden_gamma_inverse: "golden_gamma * gamma_inverse = 1"
  by (simp add: golden_gamma_def gamma_inverse_def)

lemma of_nat_u64_inj:
  assumes "a < 2 ^ 64" "b < 2 ^ 64" "(of_nat a :: u64) = of_nat b"
  shows "a = b"
proof -
  have "unat (of_nat a :: u64) = unat (of_nat b :: u64)"
    using assms(3) by simp
  with assms(1,2) show ?thesis
    by (simp add: unat_of_nat)
qed

lemma inj_on_nth_draw: "inj_on (\<lambda>n. nth_draw n r) {..<2 ^ 64}"
proof (rule inj_onI)
  fix m n
  assume mn: "m \<in> {..<2 ^ 64}" "n \<in> {..<2 ^ 64}" and "nth_draw m r = nth_draw n r"
  then have "of_nat (Suc m) * golden_gamma = of_nat (Suc n) * golden_gamma"
    using inj_mix64 by (simp add: nth_draw_eq inj_eq)
  then have "(of_nat (Suc m) :: u64) = of_nat (Suc n)"
    using inj_odd_mult [OF golden_gamma_inverse] by (rule injD [rotated])
  then have "(of_nat m :: u64) = of_nat n"
    by simp
  with mn show "m = n"
    using of_nat_u64_inj by simp
qed

lemma stream_hits_every_word: "\<exists>n. nth_draw n r = w"
proof -
  from bij_mix64 obtain t where t: "mix64 t = w"
    by (metis bij_pointE)
  define j where "j = unat ((t - rng_state r) * gamma_inverse) + 2 ^ 64 - 1"
  have "Suc j = unat ((t - rng_state r) * gamma_inverse) + 2 ^ 64"
    by (simp add: j_def)
  then have "(of_nat (Suc j) :: u64) = (t - rng_state r) * gamma_inverse"
    by (simp only: of_nat_add of_nat_unat) simp
  then have "of_nat (Suc j) * golden_gamma = (t - rng_state r) * (golden_gamma * gamma_inverse)"
    by (simp only: ac_simps)
  then have "of_nat (Suc j) * golden_gamma = t - rng_state r"
    by (simp only: golden_gamma_inverse mult_1_right)
  then have "nth_draw j r = mix64 t"
    by (simp only: nth_draw_eq) simp
  with t show ?thesis by blast
qed

section \<open>The rejection loop ends\<close>

lemma draw_loop_reaches:
  "threshold \<le> nth_draw n r \<Longrightarrow> \<exists>raw r'. draw_loop threshold r = Some (raw, r')"
proof (induction n arbitrary: r)
  case 0
  then show ?case
    by (subst draw_loop.simps) (simp add: next_u64_def Let_def)
next
  case (Suc n)
  then obtain raw r' where "draw_loop threshold (snd (next_u64 r)) = Some (raw, r')"
    by fastforce
  then show ?case
    by (subst draw_loop.simps) (cases "next_u64 r"; auto)
qed

lemma draw_loop_total: "\<exists>raw r'. draw_loop threshold r = Some (raw, r')"
proof -
  obtain n where "nth_draw n r = - 1"
    using stream_hits_every_word by blast
  then have "threshold \<le> nth_draw n r"
    by (simp add: word_order.extremum)
  then show ?thesis by (rule draw_loop_reaches)
qed

lemma sym_eq_fst: "(a, b) = p \<Longrightarrow> t \<le> a \<Longrightarrow> t \<le> fst p"
  by auto

lemma draw_loop_accepts:
  assumes "draw_loop threshold r = Some (raw, r')"
  shows "threshold \<le> raw"
proof -
  have "threshold \<le> fst (raw, r')"
  proof (rule draw_loop.raw_induct [where P = "\<lambda>t r y. t \<le> fst y", OF _ assms])
    fix f threshold r y
    assume IH: "\<And>t r y. f t r = Some y \<Longrightarrow> t \<le> fst y"
      and eq: "(let (raw, r') = next_u64 r
                in if threshold \<le> raw then Some (raw, r') else f threshold r') = Some y"
    then show "threshold \<le> fst y"
      by (cases "next_u64 r") (auto simp del: next_u64_simps split: if_splits elim: sym_eq_fst)
  qed
  then show ?thesis by simp
qed

section \<open>Bounds of a ranged draw\<close>

lemma sint_offset_in_range:
  fixes start "end" :: i64
  assumes "0 \<le> k" "k \<le> sint end - sint start"
  shows "sint (word_of_int (sint start + k) :: i64) = sint start + k"
  using assms sint_i64_bounds [of start] sint_i64_bounds [of "end"]
  by (intro sint_eq_take_bit) linarith+

lemma span_word:
  assumes "0 < span" "span \<le> uint u64_max"
  shows "uint (word_of_int span :: u64) = span" "(word_of_int span :: u64) \<noteq> 0"
proof -
  show u: "uint (word_of_int span :: u64) = span"
    using assms by (simp add: u64_max_def unsigned_of_int take_bit_int_eq_self)
  show "(word_of_int span :: u64) \<noteq> 0"
    using u assms by (metis uint_0_iff less_irrefl)
qed

lemma uint_mod_bound: "w \<noteq> 0 \<Longrightarrow> uint (raw mod w) < uint (w :: u64)"
proof -
  assume "w \<noteq> 0"
  then have "0 < uint w"
    using uint_u64_bounds(1) [of w] by (metis uint_0_iff less_le)
  then show ?thesis
    by (simp add: uint_mod)
qed

section \<open>Uniformity of the accepted draws\<close>

lemma card_residue_class:
  fixes q s t k :: nat
  assumes "t < s" "k < s"
  shows "card {x. t \<le> x \<and> x < q * s + t \<and> x mod s = k} = q"
proof -
  let ?f = "\<lambda>i. if k < t then k + Suc i * s else k + i * s"
  have upper: "?f i < q * s + t" if "i < q" for i
  proof -
    have "Suc i * s \<le> q * s" using that by (intro mult_right_mono) auto
    with assms show ?thesis by auto
  qed
  have onto: "\<exists>i<q. x = ?f i" if x: "t \<le> x" "x < q * s + t" "x mod s = k" for x
  proof -
    have xd: "x = k + (x div s) * s" using x by (metis add.commute div_mult_mod_eq)
    show ?thesis
    proof (cases "k < t")
      case True
      then have pos: "0 < x div s" using x xd by (cases "x div s") auto
      have "(x div s) * s < Suc q * s" using assms xd x(2) by simp
      then have "x div s \<le> q" using mult_less_cancel2 less_Suc_eq_le by blast
      with True pos xd show ?thesis
        by (intro exI [of _ "x div s - 1"]) (auto simp del: mult_Suc)
    next
      case False
      have "(x div s) * s < q * s" using xd x(2) False by linarith
      then have "x div s < q" by simp
      with False xd show ?thesis by auto
    qed
  qed
  have "{x. t \<le> x \<and> x < q * s + t \<and> x mod s = k} = ?f ` {..<q}"
  proof (rule set_eqI)
    fix x
    have "?f i mod s = k" for i using assms by (auto simp del: mult_Suc)
    moreover have "t \<le> ?f i" for i using assms by auto
    ultimately show "x \<in> {x. t \<le> x \<and> x < q * s + t \<and> x mod s = k} \<longleftrightarrow> x \<in> ?f ` {..<q}"
      using upper onto by blast
  qed
  moreover have "inj_on ?f {..<q}"
    using assms by (auto simp: inj_on_def)
  ultimately show ?thesis by (metis card_image card_lessThan)
qed

lemma unat_rejection_threshold:
  assumes "span \<noteq> 0"
  shows "unat (rejection_threshold span) = 2 ^ 64 mod unat span"
proof -
  have "uint (- span) = 2 ^ 64 - uint span"
    using assms uint_u64_bounds [of span]
    by (simp add: uint_word_ariths zmod_zminus1_eq_if mod_pos_pos_trivial uint_0_iff)
  then have "uint (rejection_threshold span) = 2 ^ 64 mod uint span"
    by (simp add: rejection_threshold_def uint_mod mod_diff_eq [symmetric])
  then have "int (unat (rejection_threshold span)) = int (2 ^ 64 mod unat span)"
    by (simp only: uint_nat of_nat_mod of_nat_power of_nat_numeral)
  then show ?thesis
    by (simp only: of_nat_eq_iff)
qed

lemma card_accepted_draws:
  assumes "span \<noteq> 0" "k < unat span"
  shows "card {raw. rejection_threshold span \<le> raw \<and> unat (raw mod span) = k} = 2 ^ 64 div unat span"
proof -
  define N :: nat where "N = 2 ^ 64"
  let ?R = "{raw. rejection_threshold span \<le> raw \<and> unat (raw mod span) = k}"
  let ?S = "{x :: nat. N mod unat span \<le> x \<and> x < N \<and> x mod unat span = k}"
  have N: "unat raw < N" "x < N \<Longrightarrow> unat (of_nat x :: u64) = x" for raw :: u64 and x
    unfolding N_def by (rule unat_u64_bound, rule unat_of_nat_u64)
  have T: "unat (rejection_threshold span) = N mod unat span"
    unfolding N_def using assms(1) by (rule unat_rejection_threshold)
  have R: "raw \<in> ?R \<longleftrightarrow> N mod unat span \<le> unat raw \<and> unat raw mod unat span = k" for raw
    by (simp add: word_le_nat_alt unat_mod T)
  have "unat ` ?R = ?S"
  proof (intro equalityI subsetI)
    fix x assume "x \<in> unat ` ?R"
    then show "x \<in> ?S" using R N(1) by blast
  next
    fix x assume x: "x \<in> ?S"
    then have eq: "unat (of_nat x :: u64) = x" using N(2) by blast
    with x have "of_nat x \<in> ?R" by (simp only: R) simp
    then have "unat (of_nat x :: u64) \<in> unat ` ?R" by (rule imageI)
    then show "x \<in> unat ` ?R" by (simp only: eq)
  qed
  moreover have "card (unat ` ?R) = card ?R"
    by (rule card_image, rule inj_on_subset [OF inj_unsigned], rule subset_UNIV)
  ultimately have "card ?R = card ?S"
    by (simp only:)
  also have "\<dots> = N div unat span"
    using card_residue_class [of "N mod unat span" "unat span" k "N div unat span"] assms(2)
    by (simp only: mod_less_divisor div_mult_mod_eq)
  finally show ?thesis
    unfolding N_def .
qed

section \<open>Properties\<close>

lemma random_range_cases:
  assumes "sint start < sint end"
  shows "\<exists>k r'. random_range_i64 r start end = Some (word_of_int (sint start + k), r') \<and>
           0 \<le> k \<and> k \<le> sint end - sint start"
proof (cases "sint end - sint start + 1 > uint u64_max")
  case True
  have "sint end - sint start + 1 = 2 ^ 64"
    using True sint_i64_bounds [of start] sint_i64_bounds [of "end"] by (simp add: u64_max_def)
  then have "uint raw \<le> sint end - sint start" for raw :: u64
    using uint_u64_bounds(2) [of raw] by simp
  moreover have "random_range_i64 r start end =
      Some (word_of_int (sint start + uint (fst (next_u64 r))), snd (next_u64 r))"
    using True assms by (simp add: random_range_i64_def Let_def split_beta)
  ultimately show ?thesis
    using uint_u64_bounds(1) by blast
next
  case False
  define w :: u64 where "w = word_of_int (sint end - sint start + 1)"
  have w: "uint w = sint end - sint start + 1" "w \<noteq> 0"
    using False assms span_word [of "sint end - sint start + 1"] by (simp_all add: w_def)
  obtain raw r' where "draw_loop (rejection_threshold w) r = Some (raw, r')"
    using draw_loop_total by blast
  then have "random_range_i64 r start end = Some (word_of_int (sint start + uint (raw mod w)), r')"
    using False assms by (simp only: random_range_i64_def Let_def w_def [symmetric]) simp
  moreover have "uint (raw mod w) \<le> sint end - sint start"
    using uint_mod_bound [OF w(2), of raw] w(1) by simp
  ultimately show ?thesis
    using uint_u64_bounds(1) by blast
qed

text \<open>
  C22. A ranged draw always returns, although its loop discards raw draws without a bound in
  the code, and what it returns lies between \<open>start\<close> and \<open>end\<close>; a degenerate or inverted
  range gives \<open>start\<close>.
\<close>

theorem random_range_total_in_range:
  "\<exists>v r'. random_range_i64 r start end = Some (v, r') \<and>
     sint start \<le> sint v \<and> sint v \<le> max (sint start) (sint end)"
proof (cases "sint start < sint end")
  case True
  then obtain k r' where "random_range_i64 r start end = Some (word_of_int (sint start + k), r')"
      "0 \<le> k" "k \<le> sint end - sint start"
    using random_range_cases by blast
  then show ?thesis
    using sint_offset_in_range [of k "end" start] by auto
next
  case False
  then show ?thesis by (simp add: random_range_i64_def)
qed



text \<open>
  C29. The stream has the full period: within \<open>2 ^ 64\<close> draws no raw word repeats, whatever
  the seed, and every 64-bit word occurs in it.
\<close>

theorem stream_full_period:
  "inj_on (\<lambda>n. nth_draw n (seed_from_u64 seed)) {..<2 ^ 64} \<and>
   (\<forall>w. \<exists>n. nth_draw n (seed_from_u64 seed) = w)"
  using inj_on_nth_draw stream_hits_every_word by blast

end
