(* ===== verification/Cost_Model.thy ===== *)
theory Cost_Model
  imports Prelude
begin

text \<open>
  \<open>cost_model.rs\<close>: the registry of charges, the price list \<open>CostModel\<close> with one 32-bit
  weight per charge in discriminant order, and the two kinds of costing. The weights are a
  list of length 46, as the source's array \<open>[u32; Charge::COUNT]\<close>.
\<close>

datatype charge =
    Add | Sub | Mul | Div | Mod | Pow | Negate | NewTable | TableWrite | ArrayElement
  | Rawset
  | MathAbs | MathAcos | MathAsin | MathAtan | MathAtan2 | MathCeil | MathCos | MathDeg
  | MathExp | MathFloor | MathFmod | MathLog | MathMax | MathMin | MathModf | MathRad
  | MathRandom | MathSin | MathSqrt | MathTan
  | StringFind | StringFormat | StringGmatch | StringGsub | StringLower | StringMatch
  | StringReverse | StringSub | StringUpper
  | TableConcat | TableInsert | TableMove | TablePack | TableRemove | TableSort

text \<open>The declared discriminants, \<open>charge as u16\<close>.\<close>

fun discriminant :: "charge \<Rightarrow> nat" where
  "discriminant Add = 0"
| "discriminant Sub = 1"
| "discriminant Mul = 2"
| "discriminant Div = 3"
| "discriminant Mod = 4"
| "discriminant Pow = 5"
| "discriminant Negate = 6"
| "discriminant NewTable = 7"
| "discriminant TableWrite = 8"
| "discriminant ArrayElement = 9"
| "discriminant Rawset = 10"
| "discriminant MathAbs = 11"
| "discriminant MathAcos = 12"
| "discriminant MathAsin = 13"
| "discriminant MathAtan = 14"
| "discriminant MathAtan2 = 15"
| "discriminant MathCeil = 16"
| "discriminant MathCos = 17"
| "discriminant MathDeg = 18"
| "discriminant MathExp = 19"
| "discriminant MathFloor = 20"
| "discriminant MathFmod = 21"
| "discriminant MathLog = 22"
| "discriminant MathMax = 23"
| "discriminant MathMin = 24"
| "discriminant MathModf = 25"
| "discriminant MathRad = 26"
| "discriminant MathRandom = 27"
| "discriminant MathSin = 28"
| "discriminant MathSqrt = 29"
| "discriminant MathTan = 30"
| "discriminant StringFind = 31"
| "discriminant StringFormat = 32"
| "discriminant StringGmatch = 33"
| "discriminant StringGsub = 34"
| "discriminant StringLower = 35"
| "discriminant StringMatch = 36"
| "discriminant StringReverse = 37"
| "discriminant StringSub = 38"
| "discriminant StringUpper = 39"
| "discriminant TableConcat = 40"
| "discriminant TableInsert = 41"
| "discriminant TableMove = 42"
| "discriminant TablePack = 43"
| "discriminant TableRemove = 44"
| "discriminant TableSort = 45"

fun charge_name :: "charge \<Rightarrow> string" where
  "charge_name Add = ''+''"
| "charge_name Sub = ''-''"
| "charge_name Mul = ''*''"
| "charge_name Div = ''/''"
| "charge_name Mod = ''%''"
| "charge_name Pow = ''^''"
| "charge_name Negate = ''unary -''"
| "charge_name NewTable = ''table constructor''"
| "charge_name TableWrite = ''table write''"
| "charge_name ArrayElement = ''table constructor array element''"
| "charge_name Rawset = ''rawset''"
| "charge_name MathAbs = ''math.abs''"
| "charge_name MathAcos = ''math.acos''"
| "charge_name MathAsin = ''math.asin''"
| "charge_name MathAtan = ''math.atan''"
| "charge_name MathAtan2 = ''math.atan2''"
| "charge_name MathCeil = ''math.ceil''"
| "charge_name MathCos = ''math.cos''"
| "charge_name MathDeg = ''math.deg''"
| "charge_name MathExp = ''math.exp''"
| "charge_name MathFloor = ''math.floor''"
| "charge_name MathFmod = ''math.fmod''"
| "charge_name MathLog = ''math.log''"
| "charge_name MathMax = ''math.max''"
| "charge_name MathMin = ''math.min''"
| "charge_name MathModf = ''math.modf''"
| "charge_name MathRad = ''math.rad''"
| "charge_name MathRandom = ''math.random''"
| "charge_name MathSin = ''math.sin''"
| "charge_name MathSqrt = ''math.sqrt''"
| "charge_name MathTan = ''math.tan''"
| "charge_name StringFind = ''string.find''"
| "charge_name StringFormat = ''string.format''"
| "charge_name StringGmatch = ''string.gmatch''"
| "charge_name StringGsub = ''string.gsub''"
| "charge_name StringLower = ''string.lower''"
| "charge_name StringMatch = ''string.match''"
| "charge_name StringReverse = ''string.reverse''"
| "charge_name StringSub = ''string.sub''"
| "charge_name StringUpper = ''string.upper''"
| "charge_name TableConcat = ''table.concat''"
| "charge_name TableInsert = ''table.insert''"
| "charge_name TableMove = ''table.move''"
| "charge_name TablePack = ''table.pack''"
| "charge_name TableRemove = ''table.remove''"
| "charge_name TableSort = ''table.sort''"

definition charge_ALL :: "charge list" where
  "charge_ALL =
    [Add, Sub, Mul, Div, Mod, Pow, Negate, NewTable, TableWrite, ArrayElement, Rawset,
     MathAbs, MathAcos, MathAsin, MathAtan, MathAtan2, MathCeil, MathCos, MathDeg, MathExp,
     MathFloor, MathFmod, MathLog, MathMax, MathMin, MathModf, MathRad, MathRandom, MathSin,
     MathSqrt, MathTan, StringFind, StringFormat, StringGmatch, StringGsub, StringLower,
     StringMatch, StringReverse, StringSub, StringUpper, TableConcat, TableInsert, TableMove,
     TablePack, TableRemove, TableSort]"

definition charge_COUNT :: nat where
  "charge_COUNT = length charge_ALL"

definition charge_index :: "charge \<Rightarrow> nat" where
  "charge_index c = discriminant c"

text \<open>The build-time assertion that the discriminants are \<open>0..COUNT\<close> in order.\<close>

definition discriminants_in_order :: bool where
  "discriminants_in_order \<longleftrightarrow> list_all (\<lambda>i. discriminant (charge_ALL ! i) = i) [0..<charge_COUNT]"

section \<open>The price list\<close>

record cost_model =
  weights :: "u32 list"

definition model_DEFAULT :: cost_model where
  "model_DEFAULT = \<lparr>weights = replicate charge_COUNT 1\<rparr>"

definition model_zero :: cost_model where
  "model_zero = \<lparr>weights = replicate charge_COUNT 0\<rparr>"

definition model_weight :: "cost_model \<Rightarrow> charge \<Rightarrow> u32" where
  "model_weight m c = weights m ! charge_index c"

definition model_set :: "cost_model \<Rightarrow> charge \<Rightarrow> u32 \<Rightarrow> cost_model" where
  "model_set m c w = m\<lparr>weights := (weights m)[charge_index c := w]\<rparr>"

definition model_with :: "cost_model \<Rightarrow> charge \<Rightarrow> u32 \<Rightarrow> cost_model" where
  "model_with m c w = model_set m c w"

definition model_iter :: "cost_model \<Rightarrow> (charge \<times> u32) list" where
  "model_iter m = map (\<lambda>c. (c, model_weight m c)) charge_ALL"

definition from_weights :: "u32 list \<Rightarrow> cost_model" where
  "from_weights ws = \<lparr>weights = ws\<rparr>"

definition model_cost :: "cost_model \<Rightarrow> charge \<Rightarrow> u64 \<Rightarrow> u64" where
  "model_cost m c units = sat_mul units (ucast (model_weight m c))"

datatype costing = Metered cost_model | CostingOff

definition costing_default :: costing where
  "costing_default = Metered model_DEFAULT"

text \<open>What the array type guarantees: one weight per charge.\<close>

definition wf_model :: "cost_model \<Rightarrow> bool" where
  "wf_model m \<longleftrightarrow> length (weights m) = charge_COUNT"

section \<open>Laws of the price list\<close>

lemma charge_COUNT_eq [simp]: "charge_COUNT = 46"
  by (simp add: charge_COUNT_def charge_ALL_def)

lemma discriminant_less [simp]: "discriminant c < 46"
  by (cases c) simp_all

lemma charge_ALL_nth [simp]: "charge_ALL ! discriminant c = c"
  by (cases c) (simp_all add: charge_ALL_def)

lemma discriminant_inject [simp]: "discriminant c = discriminant d \<longleftrightarrow> c = d"
  by (metis charge_ALL_nth)

lemma set_charge_ALL [simp]: "set charge_ALL = UNIV"
proof -
  have "c \<in> set charge_ALL" for c
    by (metis charge_ALL_nth charge_COUNT_def charge_COUNT_eq discriminant_less nth_mem)
  then show ?thesis by blast
qed

instance charge :: finite
proof
  show "finite (UNIV :: charge set)" by (metis List.finite_set set_charge_ALL)
qed

lemma distinct_charge_ALL: "distinct charge_ALL"
  by (simp add: charge_ALL_def)

lemma map_discriminant_ALL: "map discriminant charge_ALL = [0..<46]"
  by (simp add: charge_ALL_def upt_rec)

lemma length_charge_ALL: "length charge_ALL = 46"
  using charge_COUNT_eq by (simp only: charge_COUNT_def)

lemma discriminant_ALL_nth:
  assumes "i < 46"
  shows "discriminant (charge_ALL ! i) = i"
proof -
  have "discriminant (charge_ALL ! i) = map discriminant charge_ALL ! i"
    using assms by (simp only: nth_map length_charge_ALL)
  also have "\<dots> = i"
    unfolding map_discriminant_ALL using assms nth_upt [of 0 i 46] by (simp only: add_0)
  finally show ?thesis .
qed

lemma wf_model_DEFAULT [simp]: "wf_model model_DEFAULT"
  and wf_model_zero [simp]: "wf_model model_zero"
  and wf_model_set [simp]: "wf_model (model_set m c w) = wf_model m"
  by (simp_all add: wf_model_def model_DEFAULT_def model_zero_def model_set_def)

lemma weight_DEFAULT [simp]: "model_weight model_DEFAULT c = 1"
  and weight_zero [simp]: "model_weight model_zero c = 0"
  by (simp_all add: model_weight_def model_DEFAULT_def model_zero_def charge_index_def)

lemma weight_set:
  "wf_model m \<Longrightarrow> model_weight (model_set m c w) d = (if d = c then w else model_weight m d)"
  by (auto simp: wf_model_def model_weight_def model_set_def charge_index_def nth_list_update)

lemma uint_ucast_u32: "uint (ucast (w :: u32) :: u64) = uint w"
  using uint_lt2p [of w] by (simp add: unsigned_ucast_eq take_bit_int_eq_self)

lemma uint_model_cost [sat_simps]:
  "uint (model_cost m c u) = min (2 ^ 64 - 1) (uint u * uint (model_weight m c))"
  by (simp add: model_cost_def uint_sat_mul uint_ucast_u32)

text \<open>The saved list of weights determines the model: the snapshot round trip.\<close>

lemma iter_from_weights:
  "wf_model m \<Longrightarrow> from_weights (map snd (model_iter m)) = m"
proof -
  assume "wf_model m"
  then have "map snd (model_iter m) = weights m"
    by (intro nth_equalityI)
      (simp_all add: model_iter_def wf_model_def model_weight_def charge_index_def
        length_charge_ALL discriminant_ALL_nth)
  then show ?thesis by (simp add: from_weights_def)
qed

end
