(* ===== verification/Cost_Meter.thy ===== *)
theory Cost_Meter
  imports Cost_Model
begin

text \<open>
  \<open>cost_meter.rs\<close>: the runtime accounting. \<open>CostState\<close> owns the counters; a
  \<open>CostMeter\<close> borrows them for one charge. The borrow is modelled by copying the
  counters into the meter and writing them back when it ends (\<open>end_borrow\<close>).

  Shown here: the batched charge equals the unit-at-a-time loop it replaces, on every
  meter and every input; every state the runtime reaches satisfies the equations
  \<open>from_snapshot\<close> checks, so saving and restoring the counters is the identity; a charge
  is admitted exactly while the cost used is below the limit.
\<close>

section \<open>State\<close>

record budget =
  limit :: i64
  remaining :: i64

record cost_state =
  costing_of :: costing
  effective :: cost_model
  budget_of :: "budget option"
  used :: u64

datatype cost_meter =
    MeterOff
  | CountOnly (cm_used: u64) (cm_unit: u64)
  | FiniteBudget (cm_remaining: i64) (cm_used: u64) (cm_unit: u64)

definition cost_new :: "costing \<Rightarrow> cost_state" where
  "cost_new c =
     \<lparr>costing_of = c,
      effective = (case c of Metered m \<Rightarrow> m | CostingOff \<Rightarrow> model_zero),
      budget_of = None, used = 0\<rparr>"

definition cost_weight :: "cost_state \<Rightarrow> charge \<Rightarrow> u64" where
  "cost_weight s c = ucast (model_weight (effective s) c)"

definition cost_of :: "cost_state \<Rightarrow> charge \<Rightarrow> u64 \<Rightarrow> u64" where
  "cost_of s c units = model_cost (effective s) c units"

definition count_only :: "u64 \<Rightarrow> cost_meter" where
  "count_only u = CountOnly u 1"

definition finite_budget :: "i64 \<Rightarrow> u64 \<Rightarrow> cost_meter" where
  "finite_budget r u = FiniteBudget r u 1"

fun with_unit :: "cost_meter \<Rightarrow> u64 \<Rightarrow> cost_meter" where
  "with_unit MeterOff unit = MeterOff"
| "with_unit (CountOnly u _) unit = CountOnly u unit"
| "with_unit (FiniteBudget r u _) unit = FiniteBudget r u unit"

definition meter :: "cost_state \<Rightarrow> cost_meter" where
  "meter s =
     (if costing_of s = CostingOff then MeterOff
      else case budget_of s of
          Some b \<Rightarrow> finite_budget (remaining b) (used s)
        | None \<Rightarrow> count_only (used s))"

definition charge_meter :: "cost_state \<Rightarrow> charge \<Rightarrow> cost_meter" where
  "charge_meter s c = with_unit (meter s) (cost_weight s c)"

fun end_borrow :: "cost_state \<Rightarrow> cost_meter \<Rightarrow> cost_state" where
  "end_borrow s MeterOff = s"
| "end_borrow s (CountOnly u _) = s\<lparr>used := u\<rparr>"
| "end_borrow s (FiniteBudget r u _) =
     s\<lparr>budget_of := map_option (\<lambda>b. b\<lparr>remaining := r\<rparr>) (budget_of s), used := u\<rparr>"

definition set_budget :: "cost_state \<Rightarrow> i64 \<Rightarrow> bool \<times> cost_state" where
  "set_budget s l =
     (if costing_of s = CostingOff then (False, s)
      else (True, s\<lparr>budget_of := Some \<lparr>limit = l, remaining = l\<rparr>, used := 0\<rparr>))"

definition cost_remaining :: "cost_state \<Rightarrow> i64" where
  "cost_remaining s = (case budget_of s of None \<Rightarrow> i64_max | Some b \<Rightarrow> remaining b)"

definition cost_limit :: "cost_state \<Rightarrow> i64" where
  "cost_limit s = (case budget_of s of None \<Rightarrow> i64_max | Some b \<Rightarrow> limit b)"

definition batch_needs_flush :: "cost_state \<Rightarrow> u64 \<Rightarrow> bool" where
  "batch_needs_flush s pending =
     (case budget_of s of None \<Rightarrow> False
      | Some b \<Rightarrow> sint (sat_sub_unsigned (remaining b) pending) \<le> 0)"

section \<open>Charging\<close>

fun consume :: "u64 \<Rightarrow> cost_meter \<Rightarrow> bool \<times> cost_meter" where
  "consume cost MeterOff = (True, MeterOff)"
| "consume cost (CountOnly u unit) = (True, CountOnly (sat_add u cost) unit)"
| "consume cost (FiniteBudget r u unit) =
     (if cost > 0 \<and> sint r \<le> 0 then (False, FiniteBudget r u unit)
      else (True, FiniteBudget (sat_sub_unsigned r cost) (sat_add u cost) unit))"

fun consume_units_admitted :: "u64 \<Rightarrow> cost_meter \<Rightarrow> u64 \<times> cost_meter" where
  "consume_units_admitted n MeterOff = (n, MeterOff)"
| "consume_units_admitted n (CountOnly u unit) =
     (n, CountOnly (sat_add u (sat_mul n unit)) unit)"
| "consume_units_admitted n (FiniteBudget r u unit) =
     (if n = 0 \<or> unit = 0 then (n, FiniteBudget r u unit)
      else if sint r \<le> 0 then (0, FiniteBudget r u unit)
      else let startable = div_ceil r unit;
               allowed = min n startable;
               cost = sat_mul allowed unit
           in (allowed, FiniteBudget (sat_sub_unsigned r cost) (sat_add u cost) unit))"

definition consume_units :: "u64 \<Rightarrow> cost_meter \<Rightarrow> bool \<times> cost_meter" where
  "consume_units n m = (let (admitted, m') = consume_units_admitted n m in (admitted = n, m'))"

section \<open>Saved counters\<close>

definition snapshot_fields :: "cost_state \<Rightarrow> i64 \<times> i64 \<times> bool \<times> u64" where
  "snapshot_fields s = (cost_remaining s, cost_limit s, budget_of s \<noteq> None, used s)"

definition from_snapshot ::
  "costing \<Rightarrow> i64 \<Rightarrow> i64 \<Rightarrow> bool \<Rightarrow> u64 \<Rightarrow> cost_state option" where
  "from_snapshot c rem lim configured u =
     (if configured \<and> ((sint lim \<le> 0 \<and> u \<noteq> 0) \<or> rem \<noteq> sat_sub_unsigned lim u) then None
      else if \<not> configured \<and> (rem \<noteq> i64_max \<or> lim \<noteq> i64_max) then None
      else let b = (if configured then Some \<lparr>limit = lim, remaining = rem\<rparr> else None)
           in if c = CostingOff \<and> (b \<noteq> None \<or> u \<noteq> 0) then None
              else Some ((cost_new c)\<lparr>budget_of := b, used := u\<rparr>))"

section \<open>The loop the batched charge replaces\<close>

text \<open>
  \<open>n\<close> consecutive charges of one unit, stopping at the first one that is blocked: the
  number admitted and the meter it leaves.
\<close>

fun meter_unit :: "cost_meter \<Rightarrow> u64" where
  "meter_unit MeterOff = 0"
| "meter_unit (CountOnly _ unit) = unit"
| "meter_unit (FiniteBudget _ _ unit) = unit"

fun unit_loop :: "nat \<Rightarrow> cost_meter \<Rightarrow> nat \<times> cost_meter" where
  "unit_loop 0 m = (0, m)"
| "unit_loop (Suc n) m =
     (case consume (meter_unit m) m of
        (False, _) \<Rightarrow> (0, m)
      | (True, m') \<Rightarrow> (let (k, m'') = unit_loop n m' in (Suc k, m'')))"

text \<open>What the loop computes, over the integers.\<close>

definition admitted_units :: "nat \<Rightarrow> int \<Rightarrow> int \<Rightarrow> nat" where
  "admitted_units n r unit =
     (if unit = 0 then n else if r \<le> 0 then 0 else min n (nat ((r + unit - 1) div unit)))"

lemma word_eq_sint: "(x :: i64) = y \<longleftrightarrow> sint x = sint y"
  by (auto intro: signed_word_eqI)

lemma word_eq_uint: "(x :: u64) = y \<longleftrightarrow> uint x = uint y"
  by (rule word_uint_eq_iff)

lemma min_absorb_add: "0 \<le> k \<Longrightarrow> min M (min M a + k) = min M (a + k)" for M a k :: int
  by (auto simp: min_def)

lemma max_absorb_sub: "0 \<le> k \<Longrightarrow> max M (max M a - k) = max M (a - k)" for M a k :: int
  by (auto simp: max_def)

lemma unit_loop_count_only:
  "\<exists>u'. unit_loop n (CountOnly u unit) = (n, CountOnly u' unit) \<and>
        uint u' = min (2 ^ 64 - 1) (uint u + int n * uint unit)"
proof (induction n arbitrary: u)
  case 0
  then show ?case using uint_u64_bounds(2) [of u] by simp
next
  case (Suc n)
  obtain u' where u': "unit_loop n (CountOnly (sat_add u unit) unit) = (n, CountOnly u' unit)"
      "uint u' = min (2 ^ 64 - 1) (uint (sat_add u unit) + int n * uint unit)"
    using Suc by blast
  have "uint u' = min (2 ^ 64 - 1) (uint u + int (Suc n) * uint unit)"
    using min_absorb_add [of "int n * uint unit" "2 ^ 64 - 1" "uint u + uint unit"]
    by (simp add: u'(2) uint_sat_add algebra_simps)
  with u'(1) show ?case by simp
qed

lemma admitted_units_Suc:
  assumes "0 < r" "0 < unit"
  shows "admitted_units (Suc n) r unit = Suc (admitted_units n (r - unit) unit)"
proof -
  have step: "(r + unit - 1) div unit = (r - unit + unit - 1) div unit + 1"
    using assms div_add_self2 [of unit "r - 1"] by (simp add: algebra_simps)
  show ?thesis
  proof (cases "r - unit \<le> 0")
    case True
    with assms have "(r - 1) div unit = 0" by simp
    with True assms step show ?thesis by (simp add: admitted_units_def)
  next
    case False
    with assms have "0 \<le> (r - unit + unit - 1) div unit" by (simp add: pos_imp_zdiv_nonneg_iff)
    with False assms step show ?thesis by (simp add: admitted_units_def nat_add_distrib)
  qed
qed

lemma unit_loop_finite:
  "\<exists>r' u'. unit_loop n (FiniteBudget r u unit) =
             (admitted_units n (sint r) (uint unit), FiniteBudget r' u' unit) \<and>
     sint r' = max (- (2 ^ 63)) (sint r - int (admitted_units n (sint r) (uint unit)) * uint unit) \<and>
     uint u' = min (2 ^ 64 - 1) (uint u + int (admitted_units n (sint r) (uint unit)) * uint unit)"
proof (induction n arbitrary: r u)
  case 0
  then show ?case
    using uint_u64_bounds(2) [of u] sint_i64_bounds(1) [of r] by (simp add: admitted_units_def)
next
  case (Suc n)
  show ?case
  proof (cases "unit = 0 \<or> 0 < sint r")
    case False
    then show ?thesis
      using uint_u64_bounds(2) [of u] sint_i64_bounds(1) [of r]
      by (simp add: admitted_units_def word_neq_0_conv [symmetric] uint_0_iff)
  next
    case True
    let ?r = "sat_sub_unsigned r unit" and ?u = "sat_add u unit"
    obtain r' u' where IH:
      "unit_loop n (FiniteBudget ?r ?u unit) =
         (admitted_units n (sint ?r) (uint unit), FiniteBudget r' u' unit)"
      "sint r' = max (- (2 ^ 63)) (sint ?r - int (admitted_units n (sint ?r) (uint unit)) * uint unit)"
      "uint u' = min (2 ^ 64 - 1) (uint ?u + int (admitted_units n (sint ?r) (uint unit)) * uint unit)"
      using Suc by blast
    have adm: "admitted_units (Suc n) (sint r) (uint unit) =
        Suc (admitted_units n (sint ?r) (uint unit))"
    proof (cases "unit = 0")
      case True
      then show ?thesis by (simp add: admitted_units_def)
    next
      case False
      with True have "0 < sint r" by simp
      moreover have "0 < uint unit"
        using False uint_u64_bounds(1) [of unit] by (metis uint_0_iff less_le)
      moreover have "admitted_units n (sint ?r) (uint unit) = admitted_units n (sint r - uint unit) (uint unit)"
        by (auto simp: sint_sat_sub_unsigned admitted_units_def max_def)
      ultimately show ?thesis by (simp add: admitted_units_Suc)
    qed
    define k where "k = int (admitted_units n (sint ?r) (uint unit)) * uint unit"
    have k: "0 \<le> k" "int (Suc (admitted_units n (sint ?r) (uint unit))) * uint unit = uint unit + k"
      by (simp_all add: k_def algebra_simps)
    have ru: "sint r' = max (- (2 ^ 63)) (sint ?r - k)" "uint u' = min (2 ^ 64 - 1) (uint ?u + k)"
      using IH(2,3) by (simp_all only: k_def)
    have "sint r' = max (- (2 ^ 63)) (sint r - (uint unit + k))"
      using max_absorb_sub [OF k(1), of "- (2 ^ 63)" "sint r - uint unit"]
      by (simp add: ru(1) sint_sat_sub_unsigned algebra_simps)
    moreover have "uint u' = min (2 ^ 64 - 1) (uint u + (uint unit + k))"
      using min_absorb_add [OF k(1), of "2 ^ 64 - 1" "uint u + uint unit"]
      by (simp add: ru(2) uint_sat_add algebra_simps)
    ultimately show ?thesis
      unfolding adm k(2) using IH(1) True by auto
  qed
qed

lemma admitted_units_word:
  assumes "unit \<noteq> 0" "0 < sint r"
  shows "admitted_units (unat n) (sint r) (uint unit) = unat (min n (div_ceil r unit))"
proof -
  have pos: "0 < uint unit"
    using assms(1) uint_u64_bounds(1) [of unit] by (metis uint_0_iff less_le)
  have r: "uint r = sint r" using assms(2) by (simp add: uint_eq_sint)
  have "uint (div_ceil r unit) = (sint r + uint unit - 1) div uint unit"
  proof (cases "sint r mod uint unit = 0")
    case True
    then have "uint unit dvd sint r" by (simp add: mod_eq_0_iff_dvd)
    then obtain q where q: "sint r = uint unit * q" by (elim dvdE)
    with pos have "(sint r + uint unit - 1) div uint unit = q"
      by (simp add: add_diff_eq [symmetric] div_mult_self4)
    with q True pos show ?thesis by (simp add: uint_div_ceil assms r)
  next
    case False
    define q m where "q = sint r div uint unit" and "m = sint r mod uint unit"
    have qm: "sint r = uint unit * q + m" "0 < m" "m < uint unit"
      using pos False pos_mod_bound [OF pos] pos_mod_sign [OF pos, of "sint r"]
      by (simp_all add: q_def m_def less_le)
    have "(sint r + uint unit - 1) = uint unit * (q + 1) + (m - 1)"
      using qm(1) by (simp add: algebra_simps)
    then have "(sint r + uint unit - 1) div uint unit = q + 1"
      using qm(2,3) by (intro int_div_pos_eq [where r = "m - 1"]) simp_all
    with False show ?thesis by (simp add: uint_div_ceil assms r q_def)
  qed
  then have "nat ((sint r + uint unit - 1) div uint unit) = unat (div_ceil r unit)"
    by (simp add: unat_eq_nat_uint)
  with assms pos show ?thesis
    by (auto simp: admitted_units_def min_def word_le_nat_alt uint_0_iff)
qed

text \<open>
  The batched charge is the loop: same number admitted, same counters left, on every meter.
\<close>

lemma consume_units_is_unit_loop:
  "consume_units_admitted n m = (let (k, m') = unit_loop (unat n) m in (of_nat k, m'))"
proof (cases m)
  case MeterOff
  have "unit_loop k MeterOff = (k, MeterOff)" for k by (induction k) simp_all
  with MeterOff show ?thesis by simp
next
  case (CountOnly u unit)
  obtain u' where "unit_loop (unat n) (CountOnly u unit) = (unat n, CountOnly u' unit)"
      "uint u' = min (2 ^ 64 - 1) (uint u + int (unat n) * uint unit)"
    using unit_loop_count_only by blast
  with CountOnly show ?thesis
    using min_absorb_add [OF uint_u64_bounds(1) [of u], of "2 ^ 64 - 1" "uint n * uint unit"]
    by (simp add: word_eq_uint uint_sat_add uint_sat_mul add.commute)
next
  case (FiniteBudget r u unit)
  define k where "k = admitted_units (unat n) (sint r) (uint unit)"
  obtain r' u' where loop: "unit_loop (unat n) (FiniteBudget r u unit) = (k, FiniteBudget r' u' unit)"
      "sint r' = max (- (2 ^ 63)) (sint r - int k * uint unit)"
      "uint u' = min (2 ^ 64 - 1) (uint u + int k * uint unit)"
    using unit_loop_finite [of "unat n" r u unit] by (auto simp: k_def)
  show ?thesis
  proof (cases "n = 0 \<or> unit = 0 \<or> sint r \<le> 0")
    case True
    then have "int k * uint unit = 0" by (auto simp: k_def admitted_units_def)
    then have "sint r' = sint r" "uint u' = uint u"
      using loop(2,3) sint_i64_bounds(1) [of r] uint_u64_bounds(2) [of u] by (auto simp only:) 
    then have "r' = r" "u' = u"
      by (simp_all only: word_eq_sint [of r'] word_eq_uint [of u'])
    with True loop(1) FiniteBudget show ?thesis
      by (auto simp: k_def admitted_units_def uint_0_iff)
  next
    case False
    define a where "a = min n (div_ceil r unit)"
    have k: "k = unat a" using False by (simp add: k_def a_def admitted_units_word)
    have "sint r' = sint (sat_sub_unsigned r (sat_mul a unit))"
      using sint_i64_bounds(2) [of r]
      by (auto simp: loop(2) k sat_simps min_def)
    moreover have "uint u' = uint (sat_add u (sat_mul a unit))"
      using min_absorb_add [OF uint_u64_bounds(1) [of u], of "2 ^ 64 - 1" "uint a * uint unit"]
      by (simp add: loop(3) k sat_simps add.commute)
    ultimately have "r' = sat_sub_unsigned r (sat_mul a unit)" "u' = sat_add u (sat_mul a unit)"
      by (simp_all only: word_eq_sint [of r'] word_eq_uint [of u'])
    with False loop(1) FiniteBudget k show ?thesis
      by (simp add: Let_def a_def [symmetric])
  qed
qed

section \<open>The reachable accounting states\<close>

text \<open>
  \<open>State::charge_cost\<close>: one raw charge against the state's counters, refused with the
  error \<open>BudgetExceeded\<close> when the meter blocks it.
\<close>

datatype cost_error = BudgetExceeded u64 i64

definition budget_exceeded_error :: "cost_state \<Rightarrow> cost_error" where
  "budget_exceeded_error s = BudgetExceeded (used s) (cost_limit s)"

definition charge_cost :: "u64 \<Rightarrow> cost_state \<Rightarrow> (cost_error + unit) \<times> cost_state" where
  "charge_cost c s =
     (let (ok, m) = consume c (meter s); s' = end_borrow s m
      in (if ok then Inr () else Inl (budget_exceeded_error s'), s'))"

definition charge_units :: "charge \<Rightarrow> u64 \<Rightarrow> cost_state \<Rightarrow> (cost_error + unit) \<times> cost_state" where
  "charge_units ch units s =
     (let (ok, m) = consume_units units (charge_meter s ch); s' = end_borrow s m
      in (if ok then Inr () else Inl (budget_exceeded_error s'), s'))"

inductive cost_reachable :: "cost_state \<Rightarrow> bool" where
  fresh: "cost_reachable (cost_new c)"
| budgeted: "cost_reachable s \<Longrightarrow> cost_reachable (snd (set_budget s l))"
| charged: "cost_reachable s \<Longrightarrow> cost_reachable (snd (charge_cost c s))"
| unit_charged: "cost_reachable s \<Longrightarrow> cost_reachable (snd (charge_units ch n s))"

text \<open>The equations between the counters that every reachable state satisfies.\<close>

definition budget_ok :: "budget \<Rightarrow> u64 \<Rightarrow> bool" where
  "budget_ok b u \<longleftrightarrow>
     remaining b = sat_sub_unsigned (limit b) u \<and> (sint (limit b) \<le> 0 \<longrightarrow> u = 0)"

definition cost_inv :: "cost_state \<Rightarrow> bool" where
  "cost_inv s \<longleftrightarrow>
     effective s = (case costing_of s of Metered m \<Rightarrow> m | CostingOff \<Rightarrow> model_zero) \<and>
     (case budget_of s of None \<Rightarrow> True | Some b \<Rightarrow> budget_ok b (used s)) \<and>
     (costing_of s = CostingOff \<longrightarrow> budget_of s = None \<and> used s = 0)"

text \<open>A meter that is a sound borrow of the state's counters.\<close>

fun borrow_ok :: "cost_state \<Rightarrow> cost_meter \<Rightarrow> bool" where
  "borrow_ok s MeterOff = (costing_of s = CostingOff)"
| "borrow_ok s (CountOnly u unit) = (costing_of s \<noteq> CostingOff \<and> budget_of s = None)"
| "borrow_ok s (FiniteBudget r u unit) =
     (costing_of s \<noteq> CostingOff \<and>
      (\<exists>b. budget_of s = Some b \<and> budget_ok (b\<lparr>remaining := r\<rparr>) u))"

lemma sat_sub_unsigned_0 [simp]: "sat_sub_unsigned r 0 = r"
  using sint_i64_bounds(1) [of r] by (simp add: word_eq_sint [of _ r] sint_sat_sub_unsigned)

lemma sat_add_0 [simp]: "sat_add u 0 = u" "sat_add 0 u = u"
  using uint_lt2p [of u] by (simp_all add: sat_add_def)

lemma sat_sub_sat_add:
  "sat_sub_unsigned l (sat_add u c) = sat_sub_unsigned (sat_sub_unsigned l u) c"
proof -
  have "max M (l - min N (u + c)) = max M (max M (l - u) - c)"
    if "0 \<le> c" "l - N \<le> M" for M N l u c :: int
    using that by (auto simp: max_def min_def)
  from this [of "uint c" "sint l" "2 ^ 64 - 1" "- (2 ^ 63)" "uint u"]
  show ?thesis
    using sint_i64_bounds(2) [of l]
    by (simp add: word_eq_sint [of "sat_sub_unsigned l _"] sat_simps)
qed

lemma sat_add_assoc: "sat_add (sat_add a b) c = sat_add a (sat_add b c)" for a b c :: u64
proof -
  have "min M (min M (a + b) + c) = min M (a + min M (b + c))"
    if "0 \<le> a" "0 \<le> c" for M a b c :: int
    using that by (auto simp: min_def)
  from this [of "uint a" "uint c" "2 ^ 64 - 1" "uint b"] show ?thesis
    by (simp add: word_eq_uint sat_simps)
qed

lemma borrow_ok_meter: "cost_inv s \<Longrightarrow> borrow_ok s (meter s)"
  by (auto simp: cost_inv_def meter_def finite_budget_def count_only_def budget_ok_def split: option.splits)

lemma borrow_ok_with_unit: "borrow_ok s (with_unit m unit) = borrow_ok s m"
  by (cases m) simp_all

lemma borrow_ok_consume: "borrow_ok s m \<Longrightarrow> borrow_ok s (snd (consume c m))"
proof (cases m)
  case (FiniteBudget r u unit)
  assume "borrow_ok s m"
  with FiniteBudget obtain b where b: "costing_of s \<noteq> CostingOff" "budget_of s = Some b"
      "r = sat_sub_unsigned (limit b) u" "sint (limit b) \<le> 0 \<Longrightarrow> u = 0"
    by (auto simp: budget_ok_def)
  have "c = 0 \<or> 0 < sint r \<Longrightarrow> sint (limit b) \<le> 0 \<Longrightarrow> c = 0"
    using b(3,4) by auto
  with b FiniteBudget show ?thesis
    by (auto simp: budget_ok_def sat_sub_sat_add word_neq_0_conv [symmetric])
qed auto

lemma borrow_ok_unit_loop: "borrow_ok s m \<Longrightarrow> borrow_ok s (snd (unit_loop n m))"
proof (induction n arbitrary: m)
  case (Suc n)
  then show ?case
    using borrow_ok_consume [of s m "meter_unit m"]
    by (auto simp: split_beta Let_def split: prod.splits bool.splits)
qed simp

lemma borrow_ok_end: "borrow_ok s m \<Longrightarrow> cost_inv s \<Longrightarrow> cost_inv (end_borrow s m)"
  by (cases m) (auto simp: cost_inv_def budget_ok_def)

lemma cost_inv_charge: "cost_inv s \<Longrightarrow> cost_inv (snd (charge_cost c s))"
  using borrow_ok_end [OF borrow_ok_consume [OF borrow_ok_meter]]
  by (simp add: charge_cost_def split_beta Let_def)

lemma cost_inv_charge_units: "cost_inv s \<Longrightarrow> cost_inv (snd (charge_units ch n s))"
proof -
  assume inv: "cost_inv s"
  then have "borrow_ok s (charge_meter s ch)"
    by (simp add: charge_meter_def borrow_ok_with_unit borrow_ok_meter)
  then have "borrow_ok s (snd (consume_units_admitted n (charge_meter s ch)))"
    by (simp add: consume_units_is_unit_loop split_beta Let_def borrow_ok_unit_loop)
  with inv show ?thesis
    by (simp add: charge_units_def consume_units_def split_beta Let_def borrow_ok_end)
qed

lemma cost_reachable_inv: "cost_reachable s \<Longrightarrow> cost_inv s"
proof (induction rule: cost_reachable.induct)
  case (fresh c)
  then show ?case by (simp add: cost_inv_def cost_new_def)
next
  case (budgeted s l)
  then show ?case
    using sint_i64_bounds(1) [of l] by (auto simp: set_budget_def cost_inv_def budget_ok_def)
next
  case (charged s c)
  then show ?case by (simp add: cost_inv_charge)
next
  case (unit_charged s ch n)
  then show ?case by (simp add: cost_inv_charge_units)
qed

lemma cost_state_eqI:
  "costing_of s = costing_of t \<Longrightarrow> effective s = effective t \<Longrightarrow> budget_of s = budget_of t \<Longrightarrow>
   used s = used t \<Longrightarrow> s = (t :: cost_state)"
  by simp

section \<open>The admission contract\<close>

text \<open>
  What the callers of the meter rely on: a positive charge is refused exactly while the
  gate is shut, a refusal changes nothing, an admitted charge is counted, and no charge
  opens a shut gate.
\<close>

fun attempts :: "('c \<Rightarrow> 's \<Rightarrow> bool \<times> 's) \<Rightarrow> 'c list \<Rightarrow> 's \<Rightarrow> bool list \<times> 's" where
  "attempts f [] s = ([], s)"
| "attempts f (c # cs) s =
     (let (b, s') = f c s; (bs, s'') = attempts f cs s' in (b # bs, s''))"

locale charge_gate =
  fixes attempt :: "u64 \<Rightarrow> 's \<Rightarrow> bool \<times> 's"
    and shut :: "'s \<Rightarrow> bool"
    and total :: "'s \<Rightarrow> u64"
    and ok :: "'s \<Rightarrow> bool"
  assumes refused: "ok s \<Longrightarrow> shut s \<Longrightarrow> 0 < c \<Longrightarrow> attempt c s = (False, s)"
    and admitted: "ok s \<Longrightarrow> \<not> shut s \<or> c = 0 \<Longrightarrow> fst (attempt c s)"
    and counted: "ok s \<Longrightarrow> total s \<le> total (snd (attempt c s))"
    and ok_attempt: "ok s \<Longrightarrow> ok (snd (attempt c s))"
begin

lemma total_attempts: "ok s \<Longrightarrow> total s \<le> total (snd (attempts attempt cs s))"
proof (induction cs arbitrary: s)
  case (Cons c cs)
  have "total s \<le> total (snd (attempt c s))" using Cons.prems by (rule counted)
  also have "\<dots> \<le> total (snd (attempts attempt cs (snd (attempt c s))))"
    using Cons.IH ok_attempt [OF Cons.prems] by blast
  finally show ?case by (simp add: split_beta Let_def)
qed simp

lemma shut_attempts:
  "ok s \<Longrightarrow> shut s \<Longrightarrow> list_all (\<lambda>c. 0 < c) cs \<Longrightarrow>
   attempts attempt cs s = (replicate (length cs) False, s)"
  by (induction cs) (simp_all add: refused)

end

definition attempt_charge :: "u64 \<Rightarrow> cost_state \<Rightarrow> bool \<times> cost_state" where
  "attempt_charge c s = (let (r, s') = charge_cost c s in (r = Inr (), s'))"

definition exhausted :: "cost_state \<Rightarrow> bool" where
  "exhausted s \<longleftrightarrow> (case budget_of s of None \<Rightarrow> False | Some b \<Rightarrow> sint (remaining b) \<le> 0)"

lemma end_borrow_meter [simp]: "end_borrow s (meter s) = s"
  by (simp add: meter_def finite_budget_def count_only_def split: option.splits)

lemma charge_cost_exhausted:
  "cost_inv s \<Longrightarrow> exhausted s \<Longrightarrow> 0 < c \<Longrightarrow> charge_cost c s = (Inl (budget_exceeded_error s), s)"
  using end_borrow_meter [of s]
  by (auto simp: charge_cost_def exhausted_def meter_def finite_budget_def Let_def cost_inv_def
      budget_exceeded_error_def cost_limit_def split: option.splits if_splits)

lemma charge_cost_admitted:
  "\<not> exhausted s \<or> c = 0 \<Longrightarrow> fst (charge_cost c s) = Inr ()"
  by (auto simp: charge_cost_def exhausted_def meter_def finite_budget_def count_only_def Let_def
      split: option.splits)

lemma sat_add_ge: "u \<le> sat_add u (c :: u64)"
  using uint_u64_bounds [of u] uint_u64_bounds(1) [of c]
  by (auto simp: word_le_def uint_sat_add)

lemma used_charge_cost: "used s \<le> used (snd (charge_cost c s))"
  by (auto simp: charge_cost_def meter_def finite_budget_def count_only_def Let_def sat_add_ge
      split: option.splits)

interpretation cost_gate: charge_gate attempt_charge exhausted used cost_inv
proof unfold_locales
  fix s and c :: u64
  assume "cost_inv s" "exhausted s" "0 < c"
  then show "attempt_charge c s = (False, s)"
    by (simp add: attempt_charge_def charge_cost_exhausted)
next
  fix s and c :: u64
  assume "\<not> exhausted s \<or> c = 0"
  then show "fst (attempt_charge c s)"
    by (simp add: attempt_charge_def split_beta charge_cost_admitted)
next
  fix s c
  show "used s \<le> used (snd (attempt_charge c s))"
    by (simp add: attempt_charge_def split_beta used_charge_cost)
next
  fix s c
  assume "cost_inv s"
  then show "cost_inv (snd (attempt_charge c s))"
    by (simp add: attempt_charge_def split_beta cost_inv_charge)
qed

section \<open>Properties\<close>

text \<open>
  C19. The batched charge is the loop it replaces: on every meter and for every number of
  units, \<open>consume_units_admitted\<close> admits as many units as charging them one at a time
  until the first refusal, and leaves the same counters, saturation included.
\<close>

theorem consume_units_equals_loop:
  "consume_units_admitted n m = (let (k, m') = unit_loop (unat n) m in (of_nat k, m'))"
  by (rule consume_units_is_unit_loop)

text \<open>
  C28. Saving and restoring the counters is the identity on every state the runtime can
  reach: \<open>from_snapshot\<close> accepts the saved fields and rebuilds the same accounting.
\<close>

theorem snapshot_roundtrip:
  assumes "cost_reachable s" and "snapshot_fields s = (rem, lim, conf, u)"
  shows "from_snapshot (costing_of s) rem lim conf u = Some s"
proof -
  have inv: "cost_inv s" using assms(1) by (rule cost_reachable_inv)
  show ?thesis
  proof (cases "budget_of s")
    case None
    with inv assms(2) show ?thesis
      by (auto simp: snapshot_fields_def from_snapshot_def cost_remaining_def cost_limit_def
          cost_inv_def cost_new_def intro!: cost_state_eqI)
  next
    case (Some b)
    with inv assms(2) show ?thesis
      by (auto simp: snapshot_fields_def from_snapshot_def cost_remaining_def cost_limit_def
          cost_inv_def cost_new_def budget_ok_def Let_def intro!: cost_state_eqI)
  qed
qed

theorem snapshot_roundtrip_witness:
  "from_snapshot costing_default (word_of_int (- 2)) 7 True 9 =
     Some (snd (charge_cost 9 (snd (set_budget (cost_new costing_default) 7))))"
proof -
  let ?s = "snd (charge_cost 9 (snd (set_budget (cost_new costing_default) 7)))"
  have r: "cost_reachable ?s"
    by (intro cost_reachable.intros)
  have f: "snapshot_fields ?s = (word_of_int (- 2), 7, True, 9)"
    by (simp add: snapshot_fields_def cost_remaining_def cost_limit_def charge_cost_def set_budget_def
        cost_new_def costing_default_def meter_def finite_budget_def sat_sub_unsigned_def sat_add_def)
  have "costing_of ?s = costing_default"
    by (simp add: charge_cost_def set_budget_def cost_new_def costing_default_def meter_def
        finite_budget_def)
  with snapshot_roundtrip [OF r f] show ?thesis by simp
qed



text \<open>
  C27. Once a budget is exhausted it stays so: every later positive charge is refused and
  the state no longer changes, until the host sets a new budget.
\<close>

theorem exhausted_refuses_all:
  assumes "cost_reachable s" and "exhausted s" and "list_all (\<lambda>c. 0 < c) cs"
  shows "attempts attempt_charge cs s = (replicate (length cs) False, s)"
  using assms by (intro cost_gate.shut_attempts cost_reachable_inv)

theorem exhausted_refuses_all_witness:
  "attempts attempt_charge [1, 5] (snd (set_budget (cost_new costing_default) 0)) =
     ([False, False], snd (set_budget (cost_new costing_default) 0))"
proof -
  let ?s = "snd (set_budget (cost_new costing_default) 0)"
  have r: "cost_reachable ?s" by (intro cost_reachable.intros)
  have e: "exhausted ?s"
    by (simp add: exhausted_def set_budget_def cost_new_def costing_default_def)
  have p: "list_all (\<lambda>c. 0 < c) [1, 5 :: u64]" by simp
  from exhausted_refuses_all [OF r e p] show ?thesis by simp
qed

end
