(* ===== verification/Dispatch_Cost.thy ===== *)
theory Dispatch_Cost
  imports Cost_Meter
begin

text \<open>
  The cost batching of the dispatch loop in \<open>vm/frame.rs\<close>: \<open>add_cost!\<close> accumulates the
  charges of costed opcodes in a local counter and settles them with the state's meter when
  the batch is full or would exhaust the budget; calls and returns flush it, and
  \<open>Frame::run\<close> settles what is pending when an error leaves the loop.

  Shown here: the batching is unobservable. Whatever the interval, a run of charges admits
  the same prefix and leaves the same counters as charging every opcode at once.
\<close>

definition COST_CHECK_INTERVAL :: u64 where
  "COST_CHECK_INTERVAL = 64"

definition settle_cost ::
  "cost_state \<Rightarrow> u64 \<Rightarrow> u64 \<Rightarrow> (cost_error + unit) \<times> cost_state \<times> u64" where
  "settle_cost s local_cost next =
     (case charge_cost next s of
        (Inl e, s') \<Rightarrow> (Inl e, s', local_cost)
      | (Inr _, s') \<Rightarrow> (Inr (), s', 0))"

text \<open>\<open>add_cost!\<close>, with the check interval as a parameter.\<close>

definition add_cost ::
  "u64 \<Rightarrow> u64 \<Rightarrow> cost_state \<Rightarrow> u64 \<Rightarrow> (cost_error + unit) \<times> cost_state \<times> u64" where
  "add_cost interval cost s local_cost =
     (let next = sat_add local_cost cost
      in if interval \<le> next \<or> batch_needs_flush s next then settle_cost s local_cost next
         else (Inr (), s, next))"

text \<open>\<open>fixed_cost!\<close>: a free charge, or one weighted 0, never reaches the meter.\<close>

definition fixed_cost ::
  "u64 \<Rightarrow> charge option \<Rightarrow> cost_state \<Rightarrow> u64 \<Rightarrow> (cost_error + unit) \<times> cost_state \<times> u64" where
  "fixed_cost interval c s local_cost =
     (case c of None \<Rightarrow> (Inr (), s, local_cost)
      | Some ch \<Rightarrow> let units = cost_weight s ch
                   in if units \<noteq> 0 then add_cost interval units s local_cost
                      else (Inr (), s, local_cost))"

definition flush_local_cost :: "cost_state \<Rightarrow> u64 \<Rightarrow> (cost_error + unit) \<times> cost_state \<times> u64" where
  "flush_local_cost s local_cost =
     (if local_cost > 0 then settle_cost s local_cost local_cost else (Inr (), s, local_cost))"

text \<open>
  A run of costed opcodes: the charges are made in order until one is refused. The result
  is the number admitted, the error, the state and the pending batch.
\<close>

fun batched_charges ::
  "u64 \<Rightarrow> u64 list \<Rightarrow> cost_state \<Rightarrow> u64 \<Rightarrow> nat \<times> (cost_error + unit) \<times> cost_state \<times> u64" where
  "batched_charges interval [] s local_cost = (0, flush_local_cost s local_cost)"
| "batched_charges interval (c # cs) s local_cost =
     (case add_cost interval c s local_cost of
        (Inl e, s', l) \<Rightarrow> (0, Inl e, s', l)
      | (Inr _, s', l) \<Rightarrow>
          (case batched_charges interval cs s' l of (n, r) \<Rightarrow> (Suc n, r)))"

text \<open>\<open>Frame::run\<close>: an error that leaves the loop settles the pending batch.\<close>

definition run_batched ::
  "u64 \<Rightarrow> u64 list \<Rightarrow> cost_state \<Rightarrow> nat \<times> (cost_error + unit) \<times> cost_state" where
  "run_batched interval cs s =
     (case batched_charges interval cs s 0 of
        (n, Inl e, s', pending) \<Rightarrow>
          (n, Inl e, if pending > 0 then end_borrow s' (snd (consume pending (meter s'))) else s')
      | (n, Inr u, s', pending) \<Rightarrow> (n, Inr u, s'))"

text \<open>The reference: every charge is made at once.\<close>

fun run_unbatched :: "u64 list \<Rightarrow> cost_state \<Rightarrow> nat \<times> (cost_error + unit) \<times> cost_state" where
  "run_unbatched [] s = (0, Inr (), s)"
| "run_unbatched (c # cs) s =
     (case charge_cost c s of
        (Inl e, s') \<Rightarrow> (0, Inl e, s')
      | (Inr _, s') \<Rightarrow> (case run_unbatched cs s' of (n, r) \<Rightarrow> (Suc n, r)))"

section \<open>Charging twice is charging the sum\<close>

lemma charge_cost_cases:
  "charge_cost c s =
     (if c > 0 \<and> costing_of s \<noteq> CostingOff \<and> exhausted s then (Inl (budget_exceeded_error s), s)
      else (Inr (), if costing_of s = CostingOff then s
                    else s\<lparr>budget_of := map_option (\<lambda>b. b\<lparr>remaining := sat_sub_unsigned (remaining b) c\<rparr>)
                             (budget_of s), used := sat_add (used s) c\<rparr>))"
  by (auto simp: charge_cost_def meter_def finite_budget_def count_only_def Let_def exhausted_def
      budget_exceeded_error_def cost_limit_def split: option.splits)

lemma charge_cost_0: "charge_cost 0 s = (Inr (), s)"
  by (cases "budget_of s") (simp_all add: charge_cost_cases)

text \<open>
  A batch that does not exhaust the budget: the pending cost can be settled at any time.
\<close>

definition settleable :: "cost_state \<Rightarrow> u64 \<Rightarrow> bool" where
  "settleable s l \<longleftrightarrow> l = 0 \<or> \<not> batch_needs_flush s l"

lemma settleable_not_exhausted: "settleable s l \<Longrightarrow> 0 < l \<Longrightarrow> \<not> exhausted s"
  by (auto simp: settleable_def batch_needs_flush_def exhausted_def sint_sat_sub_unsigned
      split: option.splits) (insert uint_u64_bounds(1) [of l], linarith)

lemma settleable_charge: "settleable s l \<Longrightarrow> fst (charge_cost l s) = Inr ()"
  using settleable_not_exhausted [of s l]
  by (cases "l = 0") (auto simp: charge_cost_0 charge_cost_admitted word_neq_0_conv)

lemma settleable_charge_open:
  assumes "settleable s l" "0 < l"
  shows "\<not> exhausted (snd (charge_cost l s))"
  using assms settleable_not_exhausted [OF assms]
  by (auto simp: charge_cost_cases settleable_def batch_needs_flush_def exhausted_def
      split: option.splits)

text \<open>Settling a batch and then charging is charging both together.\<close>

lemma charge_cost_split:
  assumes "settleable s l"
  shows "charge_cost c (snd (charge_cost l s)) = charge_cost (sat_add l c) s"
proof (cases "l = 0")
  case True
  then show ?thesis by (simp add: charge_cost_0)
next
  case False
  then have l: "0 < l" by (simp add: word_neq_0_conv)
  have open1: "\<not> exhausted s" and open2: "\<not> exhausted (snd (charge_cost l s))"
    using assms l settleable_not_exhausted settleable_charge_open by blast+
  show ?thesis
  proof (cases "budget_of s")
    case None
    with open1 open2 show ?thesis
      by (auto simp: charge_cost_cases sat_add_assoc exhausted_def)
  next
    case (Some b)
    with open1 open2 show ?thesis
      by (auto simp: charge_cost_cases sat_add_assoc sat_sub_sat_add exhausted_def
          split: if_splits)
  qed
qed

lemma sat_add_pos: "0 < c \<Longrightarrow> 0 < sat_add l (c :: u64)"
  by (simp add: word_less_def uint_sat_add) (insert uint_u64_bounds(1) [of l], linarith)

section \<open>One opcode\<close>

lemma add_cost_step:
  assumes "settleable s l" "0 < c"
  shows "(\<exists>s' l'. add_cost i c s l = (Inr (), s', l') \<and> settleable s' l' \<and>
            charge_cost c (snd (charge_cost l s)) = (Inr (), snd (charge_cost l' s')))
       \<or> (\<exists>e s'. add_cost i c s l = (Inl e, s', 0) \<and> l = 0 \<and>
            charge_cost c (snd (charge_cost l s)) = (Inl e, s'))"
proof (cases "i \<le> sat_add l c \<or> batch_needs_flush s (sat_add l c)")
  case False
  then have st: "settleable s (sat_add l c)" by (simp add: settleable_def)
  then have "charge_cost (sat_add l c) s = (Inr (), snd (charge_cost (sat_add l c) s))"
    using settleable_charge [OF st] by (metis prod.collapse)
  with False st show ?thesis
    by (simp add: add_cost_def Let_def charge_cost_split [OF assms(1)])
next
  case True
  show ?thesis
  proof (cases "fst (charge_cost (sat_add l c) s)")
    case (Inr u)
    then show ?thesis
      using True charge_cost_split [OF assms(1), of c]
      by (cases "charge_cost (sat_add l c) s")
        (auto simp: add_cost_def settle_cost_def Let_def settleable_def charge_cost_0)
  next
    case (Inl e)
    then have "l = 0"
      using settleable_not_exhausted [OF assms(1)] charge_cost_admitted [of s "sat_add l c"]
      by (metis Inl_Inr_False word_neq_0_conv)
    with Inl True show ?thesis
      using charge_cost_split [OF assms(1), of c]
      by (cases "charge_cost (sat_add l c) s")
        (auto simp: add_cost_def settle_cost_def Let_def)
  qed
qed

lemma flush_settleable:
  assumes "settleable s l"
  shows "flush_local_cost s l = (Inr (), snd (charge_cost l s), 0)"
  using settleable_charge [OF assms]
  by (cases "charge_cost l s")
    (auto simp: flush_local_cost_def settle_cost_def charge_cost_0 word_neq_0_conv [symmetric])

lemma eval_batched_run:
  assumes "settleable s l" "list_all (\<lambda>c. 0 < c) cs"
  shows "batched_charges i cs s l =
     (case run_unbatched cs (snd (charge_cost l s)) of (n, r, s') \<Rightarrow> (n, r, s', 0))"
  using assms
proof (induction cs arbitrary: s l)
  case Nil
  then show ?case by (simp add: flush_settleable)
next
  case (Cons c cs)
  then have "0 < c" by simp
  from add_cost_step [OF Cons.prems(1) this, of i] show ?case
  proof (elim disjE exE conjE)
    fix s' l'
    assume "add_cost i c s l = (Inr (), s', l')" "settleable s' l'"
      "charge_cost c (snd (charge_cost l s)) = (Inr (), snd (charge_cost l' s'))"
    with Cons show ?thesis by (simp add: split_beta)
  next
    fix e s'
    assume "add_cost i c s l = (Inl e, s', 0)" "l = 0"
      "charge_cost c (snd (charge_cost l s)) = (Inl e, s')"
    then show ?thesis by simp
  qed
qed

section \<open>Properties\<close>

text \<open>
  C20. The batching of opcode charges is unobservable: for every check interval and every
  sequence of positive charges, the dispatch loop admits the same number of charges, raises
  the same error and leaves the same counters as the loop that charges each opcode at once.
\<close>

theorem batching_unobservable:
  assumes "list_all (\<lambda>c. 0 < c) cs"
  shows "run_batched interval cs s = run_unbatched cs s"
proof -
  have "settleable s 0" by (simp add: settleable_def)
  from eval_batched_run [OF this assms, of interval] show ?thesis
    by (auto simp: run_batched_def charge_cost_0 split: prod.splits sum.splits)
qed

theorem batching_unobservable_witness:
  "run_batched COST_CHECK_INTERVAL [3, 5, 1] (snd (set_budget (cost_new costing_default) 7)) =
     run_unbatched [3, 5, 1] (snd (set_budget (cost_new costing_default) 7)) \<and>
   fst (run_unbatched [3, 5, 1] (snd (set_budget (cost_new costing_default) 7))) = 2"
proof -
  have "list_all (\<lambda>c. 0 < c) [3, 5, 1 :: u64]" by simp
  moreover have "fst (run_unbatched [3, 5, 1] (snd (set_budget (cost_new costing_default) 7))) = 2"
    by (simp add: charge_cost_cases set_budget_def cost_new_def costing_default_def exhausted_def
        sat_sub_unsigned_def sat_add_def)
  ultimately show ?thesis
    using batching_unobservable by blast
qed

end
