(* ===== verification/Vm_Limits.thy ===== *)
theory Vm_Limits
  imports Prelude
begin

text \<open>
  The fixed limits of \<open>limits.rs\<close> that the modelled components use, and its two string-size
  checks. Counts and sizes the source keeps in \<open>usize\<close> are natural numbers where nothing can
  wrap and words where the code saturates.

  Shown here: a string that keeps growing through \<open>checked_string_growth\<close> never exceeds the
  limit, even where the sum of the lengths overflows.
\<close>

definition MAX_STRING_BYTES :: nat where
  "MAX_STRING_BYTES = 16 * 1024 * 1024"

definition MAX_SOURCE_BYTES :: nat where
  "MAX_SOURCE_BYTES = MAX_STRING_BYTES"

definition MAX_SYNTAX_DEPTH :: u32 where
  "MAX_SYNTAX_DEPTH = 200"

definition MAX_SOURCE_NAME_BYTES :: nat where
  "MAX_SOURCE_NAME_BYTES = 256 * 1024"

definition MAX_CHUNK_NAME_BYTES :: nat where
  "MAX_CHUNK_NAME_BYTES = 4 * 1024"

definition MAX_CHUNK_NESTING :: nat where
  "MAX_CHUNK_NESTING = unat MAX_SYNTAX_DEPTH"

definition MAX_ARGUMENTS :: u8 where
  "MAX_ARGUMENTS = 255"

definition MAX_RESULTS :: u8 where
  "MAX_RESULTS = 255"

definition MAX_UPVALUES :: nat where
  "MAX_UPVALUES = 255"

definition MAX_FIXED_ARGS :: nat where
  "MAX_FIXED_ARGS = 254"

definition MAX_FIXED_RESULTS :: nat where
  "MAX_FIXED_RESULTS = 254"

definition MAX_NESTED :: nat where
  "MAX_NESTED = 255"

definition MAX_LITERALS :: nat where
  "MAX_LITERALS = 65536"

definition MAX_TABLE_TEMPLATES :: nat where
  "MAX_TABLE_TEMPLATES = 255"

definition MAX_TABLE_TEMPLATE_FIELDS :: nat where
  "MAX_TABLE_TEMPLATE_FIELDS = 255"

definition MAX_FRAME_SLOTS :: nat where
  "MAX_FRAME_SLOTS = 255"

text \<open>The assertions \<open>MAX_FIXED_ARGS + 1 == MAX_ARGUMENTS\<close> and its counterpart for results.\<close>

lemma fixed_counts_below_runtime_counts:
  "MAX_FIXED_ARGS + 1 = unat MAX_ARGUMENTS" "MAX_FIXED_RESULTS + 1 = unat MAX_RESULTS"
  by (simp_all add: MAX_FIXED_ARGS_def MAX_ARGUMENTS_def MAX_FIXED_RESULTS_def MAX_RESULTS_def)

datatype size_error = StringSizeExceeded usize nat

definition check_string_size :: "usize \<Rightarrow> size_error + unit" where
  "check_string_size sz = ensure (\<not> unat sz > MAX_STRING_BYTES) (StringSizeExceeded sz MAX_STRING_BYTES)"

definition checked_string_growth :: "usize \<Rightarrow> usize \<Rightarrow> size_error + usize" where
  "checked_string_growth current additional =
     (let sz = sat_add current additional
      in and_then (check_string_size sz) (\<lambda>_. Inr sz))"

text \<open>
  Growing a string succeeds exactly when the true sum
  of the two lengths is within the limit, with that sum as the result; otherwise the error
  carries the saturated size. No overflow of the sum is ever accepted.
\<close>

lemma string_growth_exact:
  "checked_string_growth current additional =
     (if unat current + unat additional \<le> MAX_STRING_BYTES then Inr (current + additional)
      else Inl (StringSizeExceeded (sat_add current additional) MAX_STRING_BYTES))"
proof -
  define N :: nat where "N = 2 ^ 64 - 1"
  have limit: "MAX_STRING_BYTES < N" by (simp add: MAX_STRING_BYTES_def N_def)
  have size: "unat (sat_add current additional) = min N (unat current + unat additional)"
    by (simp only: unat_sat_add N_def len_of_numeral_defs) simp
  have sum: "sat_add current additional = current + additional"
    if "unat current + unat additional \<le> MAX_STRING_BYTES"
  proof (rule word_unat_eq_iff [THEN iffD2])
    have "unat current + unat additional < 2 ^ 64"
      using that limit by (simp only: N_def)
    then have "unat (current + additional) = unat current + unat additional"
      by (subst unat_add_lem [THEN iffD1]) simp_all
    then show "unat (sat_add current additional) = unat (current + additional)"
      using size that limit by linarith
  qed
  have "unat (sat_add current additional) > MAX_STRING_BYTES
        \<longleftrightarrow> \<not> unat current + unat additional \<le> MAX_STRING_BYTES"
    using size limit by linarith
  then show ?thesis
    using sum by (simp add: checked_string_growth_def check_string_size_def Let_def ensure_def)
qed

end
