(* ===== verification/Instr.thy ===== *)
theory Instr
  imports Cost_Model Vm_Limits
begin

text \<open>
  \<open>instr.rs\<close>: the 64-bit register instructions. An instruction is one \<open>u64\<close> with the
  fields \<open>[opcode:8][A:16][B:16][C:16][D:8]\<close>, or a signed 24-bit jump offset in the low
  bits. The opcode table gives each opcode its operand layout, its charge, its arithmetic
  function and the pool its operand indexes.

  The laws of these encodings are in the theory \<open>Instr_Laws\<close>.
\<close>

section \<open>Count and cache operands\<close>

definition MAX_CACHE_SLOTS :: nat where
  "MAX_CACHE_SLOTS = 255"

definition OPEN_COUNT :: u16 where
  "OPEN_COUNT = 0xFFFF"

definition MAX_JUMP_OFFSET :: i32 where
  "MAX_JUMP_OFFSET = push_bit 23 1 - 1"

text \<open>\<^const>\<open>None\<close> is the panic of the source's assertion.\<close>

definition encode_cache_slot :: "u8 option \<Rightarrow> u8 option" where
  "encode_cache_slot slot =
     (case slot of None \<Rightarrow> Some 0
      | Some n \<Rightarrow> if unat n < MAX_CACHE_SLOTS then Some (n + 1) else None)"

definition decode_cache_slot :: "u8 \<Rightarrow> u8 option" where
  "decode_cache_slot operand = (if operand = 0 then None else Some (operand - 1))"

datatype arg_count = ArgFixed u8 | ArgDynamic

fun arg_to_operand :: "arg_count \<Rightarrow> u16 option" where
  "arg_to_operand (ArgFixed n) = (if unat n \<le> MAX_FIXED_ARGS then Some (ucast n) else None)"
| "arg_to_operand ArgDynamic = Some OPEN_COUNT"

definition arg_from_operand :: "u16 \<Rightarrow> arg_count" where
  "arg_from_operand n =
     (if n = OPEN_COUNT then ArgDynamic
      else if n > 255 then ArgFixed 255
      else ArgFixed (ucast n))"

datatype ret_count = RetFixed u8 | RetAll

fun ret_to_operand :: "ret_count \<Rightarrow> u16" where
  "ret_to_operand (RetFixed n) = ucast n"
| "ret_to_operand RetAll = OPEN_COUNT"

definition ret_from_operand :: "u16 \<Rightarrow> ret_count" where
  "ret_from_operand n =
     (if n = OPEN_COUNT then RetAll
      else if n > 255 then RetFixed 255
      else RetFixed (ucast n))"

section \<open>Builtin global names\<close>

datatype builtin =
    Builtin_Print | Builtin_Type | Builtin_Tonumber | Builtin_Tostring | Builtin_Pairs
  | Builtin_Ipairs | Builtin_Next | Builtin_Getmetatable | Builtin_Setmetatable
  | Builtin_Rawget | Builtin_Rawset | Builtin_Rawequal | Builtin_Rawlen | Builtin_Select
  | Builtin_Unpack | Builtin_Math | Builtin_String | Builtin_Table | Builtin_G

definition builtin_ALL :: "(builtin \<times> string) list" where
  "builtin_ALL =
    [(Builtin_Print, ''print''), (Builtin_Type, ''type''), (Builtin_Tonumber, ''tonumber''),
     (Builtin_Tostring, ''tostring''), (Builtin_Pairs, ''pairs''), (Builtin_Ipairs, ''ipairs''),
     (Builtin_Next, ''next''), (Builtin_Getmetatable, ''getmetatable''),
     (Builtin_Setmetatable, ''setmetatable''), (Builtin_Rawget, ''rawget''),
     (Builtin_Rawset, ''rawset''), (Builtin_Rawequal, ''rawequal''), (Builtin_Rawlen, ''rawlen''),
     (Builtin_Select, ''select''), (Builtin_Unpack, ''unpack''), (Builtin_Math, ''math''),
     (Builtin_String, ''string''), (Builtin_Table, ''table''), (Builtin_G, ''_G'')]"

fun builtin_name :: "builtin \<Rightarrow> string" where
  "builtin_name Builtin_Print = ''print''"
| "builtin_name Builtin_Type = ''type''"
| "builtin_name Builtin_Tonumber = ''tonumber''"
| "builtin_name Builtin_Tostring = ''tostring''"
| "builtin_name Builtin_Pairs = ''pairs''"
| "builtin_name Builtin_Ipairs = ''ipairs''"
| "builtin_name Builtin_Next = ''next''"
| "builtin_name Builtin_Getmetatable = ''getmetatable''"
| "builtin_name Builtin_Setmetatable = ''setmetatable''"
| "builtin_name Builtin_Rawget = ''rawget''"
| "builtin_name Builtin_Rawset = ''rawset''"
| "builtin_name Builtin_Rawequal = ''rawequal''"
| "builtin_name Builtin_Rawlen = ''rawlen''"
| "builtin_name Builtin_Select = ''select''"
| "builtin_name Builtin_Unpack = ''unpack''"
| "builtin_name Builtin_Math = ''math''"
| "builtin_name Builtin_String = ''string''"
| "builtin_name Builtin_Table = ''table''"
| "builtin_name Builtin_G = ''_G''"

text \<open>The cast \<open>self as u8\<close>: the position of the declaration.\<close>

fun builtin_to_u8 :: "builtin \<Rightarrow> u8" where
  "builtin_to_u8 Builtin_Print = 0"
| "builtin_to_u8 Builtin_Type = 1"
| "builtin_to_u8 Builtin_Tonumber = 2"
| "builtin_to_u8 Builtin_Tostring = 3"
| "builtin_to_u8 Builtin_Pairs = 4"
| "builtin_to_u8 Builtin_Ipairs = 5"
| "builtin_to_u8 Builtin_Next = 6"
| "builtin_to_u8 Builtin_Getmetatable = 7"
| "builtin_to_u8 Builtin_Setmetatable = 8"
| "builtin_to_u8 Builtin_Rawget = 9"
| "builtin_to_u8 Builtin_Rawset = 10"
| "builtin_to_u8 Builtin_Rawequal = 11"
| "builtin_to_u8 Builtin_Rawlen = 12"
| "builtin_to_u8 Builtin_Select = 13"
| "builtin_to_u8 Builtin_Unpack = 14"
| "builtin_to_u8 Builtin_Math = 15"
| "builtin_to_u8 Builtin_String = 16"
| "builtin_to_u8 Builtin_Table = 17"
| "builtin_to_u8 Builtin_G = 18"

definition builtin_from_name :: "string \<Rightarrow> builtin option" where
  "builtin_from_name name = map_option fst (List.find (\<lambda>(b, n). n = name) builtin_ALL)"

definition builtin_from_u8 :: "u8 \<Rightarrow> builtin option" where
  "builtin_from_u8 n =
     (if unat n < length builtin_ALL then Some (fst (builtin_ALL ! unat n)) else None)"

section \<open>The opcode table\<close>

datatype opcode_charge = Free | Once charge | PerElement charge

datatype layout =
  LayoutA | LayoutAb | LayoutAbc | LayoutAbd | LayoutAbcd | LayoutJ | LayoutAj | LayoutAbj

definition layout_reserved :: "layout \<Rightarrow> u64" where
  "layout_reserved l =
     (let a = push_bit 40 0xFFFF; b = push_bit 24 0xFFFF; c = push_bit 8 0xFFFF;
          d = 0xFF; j = 0xFFFFFF; operands = push_bit 56 1 - 1;
          used_bits = (case l of
             LayoutA \<Rightarrow> a
           | LayoutAb \<Rightarrow> a OR b
           | LayoutAbc \<Rightarrow> a OR b OR c
           | LayoutAbd \<Rightarrow> a OR b OR d
           | LayoutAbcd \<Rightarrow> a OR b OR c OR d
           | LayoutJ \<Rightarrow> j
           | LayoutAj \<Rightarrow> a OR j
           | LayoutAbj \<Rightarrow> a OR b OR j)
      in operands AND NOT used_bits)"

datatype operand_pool = PoolNumber | PoolString | PoolTemplate | PoolNested | PoolUpvalue

datatype pool_field = FieldB | FieldC

text \<open>The functions the arithmetic rows name.\<close>

datatype arith_fn = LuaAdd | LuaSub | LuaMul | LuaDiv | LuaModulo | CrmathPow

record opcode_metadata =
  om_layout :: layout
  om_charge :: opcode_charge
  om_arithmetic :: "arith_fn option"
  om_foldable :: bool
  om_pool :: "(operand_pool \<times> pool_field) option"

definition meta :: "layout \<Rightarrow> opcode_charge \<Rightarrow> arith_fn option \<Rightarrow> bool \<Rightarrow>
    (operand_pool \<times> pool_field) option \<Rightarrow> opcode_metadata" where
  "meta l c a f p = \<lparr>om_layout = l, om_charge = c, om_arithmetic = a, om_foldable = f, om_pool = p\<rparr>"

text \<open>The opcode numbers.\<close>

abbreviation (input) OP_MOVE :: u8 where "OP_MOVE \<equiv> 0"
abbreviation (input) OP_LOAD_NIL :: u8 where "OP_LOAD_NIL \<equiv> 1"
abbreviation (input) OP_LOAD_BOOL :: u8 where "OP_LOAD_BOOL \<equiv> 2"
abbreviation (input) OP_LOAD_NUM :: u8 where "OP_LOAD_NUM \<equiv> 3"
abbreviation (input) OP_LOAD_STR :: u8 where "OP_LOAD_STR \<equiv> 4"
abbreviation (input) OP_GET_UPVAL :: u8 where "OP_GET_UPVAL \<equiv> 5"
abbreviation (input) OP_SET_UPVAL :: u8 where "OP_SET_UPVAL \<equiv> 6"
abbreviation (input) OP_CLOSE :: u8 where "OP_CLOSE \<equiv> 7"
abbreviation (input) OP_GET_GLOBAL :: u8 where "OP_GET_GLOBAL \<equiv> 8"
abbreviation (input) OP_SET_GLOBAL :: u8 where "OP_SET_GLOBAL \<equiv> 9"
abbreviation (input) OP_GET_BUILTIN :: u8 where "OP_GET_BUILTIN \<equiv> 10"
abbreviation (input) OP_SET_BUILTIN :: u8 where "OP_SET_BUILTIN \<equiv> 11"
abbreviation (input) OP_NEW_TABLE :: u8 where "OP_NEW_TABLE \<equiv> 12"
abbreviation (input) OP_NEW_TABLE_PRESIZED :: u8 where "OP_NEW_TABLE_PRESIZED \<equiv> 13"
abbreviation (input) OP_NEW_TABLE_TEMPLATE :: u8 where "OP_NEW_TABLE_TEMPLATE \<equiv> 14"
abbreviation (input) OP_GET_FIELD :: u8 where "OP_GET_FIELD \<equiv> 15"
abbreviation (input) OP_GET_TABLE :: u8 where "OP_GET_TABLE \<equiv> 16"
abbreviation (input) OP_SET_FIELD :: u8 where "OP_SET_FIELD \<equiv> 17"
abbreviation (input) OP_SET_TABLE :: u8 where "OP_SET_TABLE \<equiv> 18"
abbreviation (input) OP_INIT_FIELD :: u8 where "OP_INIT_FIELD \<equiv> 19"
abbreviation (input) OP_INIT_FIELD_PINNED :: u8 where "OP_INIT_FIELD_PINNED \<equiv> 20"
abbreviation (input) OP_INIT_INDEX :: u8 where "OP_INIT_INDEX \<equiv> 21"
abbreviation (input) OP_SET_LIST :: u8 where "OP_SET_LIST \<equiv> 22"
abbreviation (input) OP_SELF :: u8 where "OP_SELF \<equiv> 23"
abbreviation (input) OP_ADD_RR :: u8 where "OP_ADD_RR \<equiv> 24"
abbreviation (input) OP_ADD_RK :: u8 where "OP_ADD_RK \<equiv> 25"
abbreviation (input) OP_ADD_KR :: u8 where "OP_ADD_KR \<equiv> 26"
abbreviation (input) OP_SUB_RR :: u8 where "OP_SUB_RR \<equiv> 27"
abbreviation (input) OP_SUB_RK :: u8 where "OP_SUB_RK \<equiv> 28"
abbreviation (input) OP_SUB_KR :: u8 where "OP_SUB_KR \<equiv> 29"
abbreviation (input) OP_MUL_RR :: u8 where "OP_MUL_RR \<equiv> 30"
abbreviation (input) OP_MUL_RK :: u8 where "OP_MUL_RK \<equiv> 31"
abbreviation (input) OP_MUL_KR :: u8 where "OP_MUL_KR \<equiv> 32"
abbreviation (input) OP_DIV_RR :: u8 where "OP_DIV_RR \<equiv> 33"
abbreviation (input) OP_DIV_RK :: u8 where "OP_DIV_RK \<equiv> 34"
abbreviation (input) OP_DIV_KR :: u8 where "OP_DIV_KR \<equiv> 35"
abbreviation (input) OP_MOD_RR :: u8 where "OP_MOD_RR \<equiv> 36"
abbreviation (input) OP_MOD_RK :: u8 where "OP_MOD_RK \<equiv> 37"
abbreviation (input) OP_MOD_KR :: u8 where "OP_MOD_KR \<equiv> 38"
abbreviation (input) OP_POW_RR :: u8 where "OP_POW_RR \<equiv> 39"
abbreviation (input) OP_POW_RK :: u8 where "OP_POW_RK \<equiv> 40"
abbreviation (input) OP_POW_KR :: u8 where "OP_POW_KR \<equiv> 41"
abbreviation (input) OP_UNM :: u8 where "OP_UNM \<equiv> 42"
abbreviation (input) OP_NOT :: u8 where "OP_NOT \<equiv> 43"
abbreviation (input) OP_LEN :: u8 where "OP_LEN \<equiv> 44"
abbreviation (input) OP_CONCAT :: u8 where "OP_CONCAT \<equiv> 45"
abbreviation (input) OP_LT :: u8 where "OP_LT \<equiv> 46"
abbreviation (input) OP_LE :: u8 where "OP_LE \<equiv> 47"
abbreviation (input) OP_GT :: u8 where "OP_GT \<equiv> 48"
abbreviation (input) OP_GE :: u8 where "OP_GE \<equiv> 49"
abbreviation (input) OP_EQ :: u8 where "OP_EQ \<equiv> 50"
abbreviation (input) OP_NE :: u8 where "OP_NE \<equiv> 51"
abbreviation (input) OP_JMP :: u8 where "OP_JMP \<equiv> 52"
abbreviation (input) OP_BR_LT :: u8 where "OP_BR_LT \<equiv> 53"
abbreviation (input) OP_BR_LE :: u8 where "OP_BR_LE \<equiv> 54"
abbreviation (input) OP_BR_GT :: u8 where "OP_BR_GT \<equiv> 55"
abbreviation (input) OP_BR_GE :: u8 where "OP_BR_GE \<equiv> 56"
abbreviation (input) OP_BR_EQ :: u8 where "OP_BR_EQ \<equiv> 57"
abbreviation (input) OP_BR_NE :: u8 where "OP_BR_NE \<equiv> 58"
abbreviation (input) OP_TEST_FALSE :: u8 where "OP_TEST_FALSE \<equiv> 59"
abbreviation (input) OP_TEST_TRUE :: u8 where "OP_TEST_TRUE \<equiv> 60"
abbreviation (input) OP_FOR_PREP :: u8 where "OP_FOR_PREP \<equiv> 61"
abbreviation (input) OP_FOR_LOOP :: u8 where "OP_FOR_LOOP \<equiv> 62"
abbreviation (input) OP_TFOR_CALL :: u8 where "OP_TFOR_CALL \<equiv> 63"
abbreviation (input) OP_TFOR_LOOP :: u8 where "OP_TFOR_LOOP \<equiv> 64"
abbreviation (input) OP_CALL :: u8 where "OP_CALL \<equiv> 65"
abbreviation (input) OP_RETURN :: u8 where "OP_RETURN \<equiv> 66"
abbreviation (input) OP_VARARG :: u8 where "OP_VARARG \<equiv> 67"
abbreviation (input) OP_CLOSURE :: u8 where "OP_CLOSURE \<equiv> 68"
abbreviation (input) OP_TAILCALL :: u8 where "OP_TAILCALL \<equiv> 69"

definition OPCODES :: "(u8 \<times> opcode_metadata) list" where
  "OPCODES =
    [(OP_MOVE, meta LayoutAb Free None False None),
     (OP_LOAD_NIL, meta LayoutAb Free None False None),
     (OP_LOAD_BOOL, meta LayoutAb Free None False None),
     (OP_LOAD_NUM, meta LayoutAb Free None False (Some (PoolNumber, FieldB))),
     (OP_LOAD_STR, meta LayoutAb Free None False (Some (PoolString, FieldB))),
     (OP_GET_UPVAL, meta LayoutAb Free None False (Some (PoolUpvalue, FieldB))),
     (OP_SET_UPVAL, meta LayoutAb Free None False (Some (PoolUpvalue, FieldB))),
     (OP_CLOSE, meta LayoutA Free None False None),
     (OP_GET_GLOBAL, meta LayoutAbd Free None False (Some (PoolString, FieldB))),
     (OP_SET_GLOBAL, meta LayoutAbd Free None False (Some (PoolString, FieldB))),
     (OP_GET_BUILTIN, meta LayoutAb Free None False None),
     (OP_SET_BUILTIN, meta LayoutAb Free None False None),
     (OP_NEW_TABLE, meta LayoutA (Once NewTable) None False None),
     (OP_NEW_TABLE_PRESIZED, meta LayoutAb (Once NewTable) None False None),
     (OP_NEW_TABLE_TEMPLATE, meta LayoutAb (Once NewTable) None False (Some (PoolTemplate, FieldB))),
     (OP_GET_FIELD, meta LayoutAbcd Free None False (Some (PoolString, FieldC))),
     (OP_GET_TABLE, meta LayoutAbc Free None False None),
     (OP_SET_FIELD, meta LayoutAbcd (Once TableWrite) None False (Some (PoolString, FieldB))),
     (OP_SET_TABLE, meta LayoutAbc (Once TableWrite) None False None),
     (OP_INIT_FIELD, meta LayoutAbc (Once TableWrite) None False (Some (PoolString, FieldB))),
     (OP_INIT_FIELD_PINNED, meta LayoutAbcd (Once TableWrite) None False (Some (PoolString, FieldB))),
     (OP_INIT_INDEX, meta LayoutAbc (Once TableWrite) None False None),
     (OP_SET_LIST, meta LayoutAbc (PerElement ArrayElement) None False None),
     (OP_SELF, meta LayoutAbcd Free None False (Some (PoolString, FieldC))),
     (OP_ADD_RR, meta LayoutAbc (Once Add) (Some LuaAdd) True None),
     (OP_ADD_RK, meta LayoutAbc (Once Add) (Some LuaAdd) True (Some (PoolNumber, FieldC))),
     (OP_ADD_KR, meta LayoutAbc (Once Add) (Some LuaAdd) True (Some (PoolNumber, FieldB))),
     (OP_SUB_RR, meta LayoutAbc (Once Sub) (Some LuaSub) True None),
     (OP_SUB_RK, meta LayoutAbc (Once Sub) (Some LuaSub) True (Some (PoolNumber, FieldC))),
     (OP_SUB_KR, meta LayoutAbc (Once Sub) (Some LuaSub) True (Some (PoolNumber, FieldB))),
     (OP_MUL_RR, meta LayoutAbc (Once Mul) (Some LuaMul) True None),
     (OP_MUL_RK, meta LayoutAbc (Once Mul) (Some LuaMul) True (Some (PoolNumber, FieldC))),
     (OP_MUL_KR, meta LayoutAbc (Once Mul) (Some LuaMul) True (Some (PoolNumber, FieldB))),
     (OP_DIV_RR, meta LayoutAbc (Once Div) (Some LuaDiv) True None),
     (OP_DIV_RK, meta LayoutAbc (Once Div) (Some LuaDiv) True (Some (PoolNumber, FieldC))),
     (OP_DIV_KR, meta LayoutAbc (Once Div) (Some LuaDiv) True (Some (PoolNumber, FieldB))),
     (OP_MOD_RR, meta LayoutAbc (Once Mod) (Some LuaModulo) True None),
     (OP_MOD_RK, meta LayoutAbc (Once Mod) (Some LuaModulo) True (Some (PoolNumber, FieldC))),
     (OP_MOD_KR, meta LayoutAbc (Once Mod) (Some LuaModulo) True (Some (PoolNumber, FieldB))),
     (OP_POW_RR, meta LayoutAbc (Once Pow) (Some CrmathPow) False None),
     (OP_POW_RK, meta LayoutAbc (Once Pow) (Some CrmathPow) False (Some (PoolNumber, FieldC))),
     (OP_POW_KR, meta LayoutAbc (Once Pow) (Some CrmathPow) False (Some (PoolNumber, FieldB))),
     (OP_UNM, meta LayoutAb (Once Negate) None False None),
     (OP_NOT, meta LayoutAb Free None False None),
     (OP_LEN, meta LayoutAb Free None False None),
     (OP_CONCAT, meta LayoutAbc Free None False None),
     (OP_LT, meta LayoutAbc Free None False None),
     (OP_LE, meta LayoutAbc Free None False None),
     (OP_GT, meta LayoutAbc Free None False None),
     (OP_GE, meta LayoutAbc Free None False None),
     (OP_EQ, meta LayoutAbc Free None False None),
     (OP_NE, meta LayoutAbc Free None False None),
     (OP_JMP, meta LayoutJ Free None False None),
     (OP_BR_LT, meta LayoutAbj Free None False None),
     (OP_BR_LE, meta LayoutAbj Free None False None),
     (OP_BR_GT, meta LayoutAbj Free None False None),
     (OP_BR_GE, meta LayoutAbj Free None False None),
     (OP_BR_EQ, meta LayoutAbj Free None False None),
     (OP_BR_NE, meta LayoutAbj Free None False None),
     (OP_TEST_FALSE, meta LayoutAj Free None False None),
     (OP_TEST_TRUE, meta LayoutAj Free None False None),
     (OP_FOR_PREP, meta LayoutAj Free None False None),
     (OP_FOR_LOOP, meta LayoutAj Free None False None),
     (OP_TFOR_CALL, meta LayoutAbd Free None False None),
     (OP_TFOR_LOOP, meta LayoutAj Free None False None),
     (OP_CALL, meta LayoutAbcd Free None False None),
     (OP_RETURN, meta LayoutAb Free None False None),
     (OP_VARARG, meta LayoutAb Free None False None),
     (OP_CLOSURE, meta LayoutAb Free None False (Some (PoolNested, FieldB))),
     (OP_TAILCALL, meta LayoutAbd Free None False None)]"

definition OPCODE_NAMES :: "(u8 \<times> string) list" where
  "OPCODE_NAMES =
    [(OP_MOVE, ''OP_MOVE''),
     (OP_LOAD_NIL, ''OP_LOAD_NIL''),
     (OP_LOAD_BOOL, ''OP_LOAD_BOOL''),
     (OP_LOAD_NUM, ''OP_LOAD_NUM''),
     (OP_LOAD_STR, ''OP_LOAD_STR''),
     (OP_GET_UPVAL, ''OP_GET_UPVAL''),
     (OP_SET_UPVAL, ''OP_SET_UPVAL''),
     (OP_CLOSE, ''OP_CLOSE''),
     (OP_GET_GLOBAL, ''OP_GET_GLOBAL''),
     (OP_SET_GLOBAL, ''OP_SET_GLOBAL''),
     (OP_GET_BUILTIN, ''OP_GET_BUILTIN''),
     (OP_SET_BUILTIN, ''OP_SET_BUILTIN''),
     (OP_NEW_TABLE, ''OP_NEW_TABLE''),
     (OP_NEW_TABLE_PRESIZED, ''OP_NEW_TABLE_PRESIZED''),
     (OP_NEW_TABLE_TEMPLATE, ''OP_NEW_TABLE_TEMPLATE''),
     (OP_GET_FIELD, ''OP_GET_FIELD''),
     (OP_GET_TABLE, ''OP_GET_TABLE''),
     (OP_SET_FIELD, ''OP_SET_FIELD''),
     (OP_SET_TABLE, ''OP_SET_TABLE''),
     (OP_INIT_FIELD, ''OP_INIT_FIELD''),
     (OP_INIT_FIELD_PINNED, ''OP_INIT_FIELD_PINNED''),
     (OP_INIT_INDEX, ''OP_INIT_INDEX''),
     (OP_SET_LIST, ''OP_SET_LIST''),
     (OP_SELF, ''OP_SELF''),
     (OP_ADD_RR, ''OP_ADD_RR''),
     (OP_ADD_RK, ''OP_ADD_RK''),
     (OP_ADD_KR, ''OP_ADD_KR''),
     (OP_SUB_RR, ''OP_SUB_RR''),
     (OP_SUB_RK, ''OP_SUB_RK''),
     (OP_SUB_KR, ''OP_SUB_KR''),
     (OP_MUL_RR, ''OP_MUL_RR''),
     (OP_MUL_RK, ''OP_MUL_RK''),
     (OP_MUL_KR, ''OP_MUL_KR''),
     (OP_DIV_RR, ''OP_DIV_RR''),
     (OP_DIV_RK, ''OP_DIV_RK''),
     (OP_DIV_KR, ''OP_DIV_KR''),
     (OP_MOD_RR, ''OP_MOD_RR''),
     (OP_MOD_RK, ''OP_MOD_RK''),
     (OP_MOD_KR, ''OP_MOD_KR''),
     (OP_POW_RR, ''OP_POW_RR''),
     (OP_POW_RK, ''OP_POW_RK''),
     (OP_POW_KR, ''OP_POW_KR''),
     (OP_UNM, ''OP_UNM''),
     (OP_NOT, ''OP_NOT''),
     (OP_LEN, ''OP_LEN''),
     (OP_CONCAT, ''OP_CONCAT''),
     (OP_LT, ''OP_LT''),
     (OP_LE, ''OP_LE''),
     (OP_GT, ''OP_GT''),
     (OP_GE, ''OP_GE''),
     (OP_EQ, ''OP_EQ''),
     (OP_NE, ''OP_NE''),
     (OP_JMP, ''OP_JMP''),
     (OP_BR_LT, ''OP_BR_LT''),
     (OP_BR_LE, ''OP_BR_LE''),
     (OP_BR_GT, ''OP_BR_GT''),
     (OP_BR_GE, ''OP_BR_GE''),
     (OP_BR_EQ, ''OP_BR_EQ''),
     (OP_BR_NE, ''OP_BR_NE''),
     (OP_TEST_FALSE, ''OP_TEST_FALSE''),
     (OP_TEST_TRUE, ''OP_TEST_TRUE''),
     (OP_FOR_PREP, ''OP_FOR_PREP''),
     (OP_FOR_LOOP, ''OP_FOR_LOOP''),
     (OP_TFOR_CALL, ''OP_TFOR_CALL''),
     (OP_TFOR_LOOP, ''OP_TFOR_LOOP''),
     (OP_CALL, ''OP_CALL''),
     (OP_RETURN, ''OP_RETURN''),
     (OP_VARARG, ''OP_VARARG''),
     (OP_CLOSURE, ''OP_CLOSURE''),
     (OP_TAILCALL, ''OP_TAILCALL'')]"

section \<open>Instruction words\<close>

datatype instr = Instr (raw: u64)

definition from_raw :: "u64 \<Rightarrow> instr" where
  "from_raw w = Instr w"

definition pack :: "u8 \<Rightarrow> u16 \<Rightarrow> u16 \<Rightarrow> u16 \<Rightarrow> u8 \<Rightarrow> instr" where
  "pack op fa fb fc fd =
     Instr (push_bit 56 (ucast op) OR push_bit 40 (ucast fa) OR push_bit 24 (ucast fb)
            OR push_bit 8 (ucast fc) OR ucast fd)"

definition pack_jump :: "u8 \<Rightarrow> u16 \<Rightarrow> u16 \<Rightarrow> i32 \<Rightarrow> instr" where
  "pack_jump op fa fb offset =
     Instr (push_bit 56 (ucast op) OR push_bit 40 (ucast fa) OR push_bit 24 (ucast fb)
            OR (ucast offset AND 0xFFFFFF))"

definition opcode :: "instr \<Rightarrow> u8" where
  "opcode i = ucast (drop_bit 56 (raw i))"

definition field_a :: "instr \<Rightarrow> u16" where
  "field_a i = ucast (drop_bit 40 (raw i))"

definition field_b :: "instr \<Rightarrow> u16" where
  "field_b i = ucast (drop_bit 24 (raw i))"

definition field_c :: "instr \<Rightarrow> u16" where
  "field_c i = ucast (drop_bit 8 (raw i))"

definition field_d :: "instr \<Rightarrow> u8" where
  "field_d i = ucast (raw i)"

text \<open>The arithmetic shift of the low 32 bits moves the sign of the 24-bit offset up.\<close>

definition sj :: "instr \<Rightarrow> i32" where
  "sj i = signed_drop_bit 8 (push_bit 8 (ucast (raw i)))"

definition with_offset :: "instr \<Rightarrow> i32 \<Rightarrow> instr" where
  "with_offset i offset = pack_jump (opcode i) (field_a i) (field_b i) offset"

definition with_a :: "instr \<Rightarrow> u16 \<Rightarrow> instr" where
  "with_a i x = Instr ((raw i AND NOT (push_bit 40 0xFFFF)) OR push_bit 40 (ucast x))"

definition with_b :: "instr \<Rightarrow> u16 \<Rightarrow> instr" where
  "with_b i x = Instr ((raw i AND NOT (push_bit 24 0xFFFF)) OR push_bit 24 (ucast x))"

definition with_c :: "instr \<Rightarrow> u16 \<Rightarrow> instr" where
  "with_c i x = Instr ((raw i AND NOT (push_bit 8 0xFFFF)) OR push_bit 8 (ucast x))"

section \<open>Queries of the opcode table\<close>

definition opcode_entry :: "u8 \<Rightarrow> opcode_metadata option" where
  "opcode_entry op = map_of OPCODES op"

definition pool_operand :: "instr \<Rightarrow> (operand_pool \<times> u16) option" where
  "pool_operand i =
     (case opcode_entry (opcode i) of None \<Rightarrow> None
      | Some m \<Rightarrow> (case om_pool m of
            Some (p, FieldB) \<Rightarrow> Some (p, field_b i)
          | Some (p, FieldC) \<Rightarrow> Some (p, field_c i)
          | None \<Rightarrow> None))"

definition known_opcode :: "u8 \<Rightarrow> bool" where
  "known_opcode op \<longleftrightarrow> opcode_entry op \<noteq> None"

definition layout_of :: "u8 \<Rightarrow> layout option" where
  "layout_of op = map_option om_layout (opcode_entry op)"

definition reserved_bits_zero :: "instr \<Rightarrow> bool" where
  "reserved_bits_zero i =
     (case opcode_entry (opcode i) of
        Some m \<Rightarrow> raw i AND layout_reserved (om_layout m) = 0
      | None \<Rightarrow> False)"

definition is_transfer :: "u8 \<Rightarrow> bool" where
  "is_transfer op \<longleftrightarrow> layout_of op \<in> {Some LayoutJ, Some LayoutAj, Some LayoutAbj}"

definition charging :: "u8 \<Rightarrow> opcode_charge" where
  "charging op = (case opcode_entry op of Some m \<Rightarrow> om_charge m | None \<Rightarrow> Free)"

definition arithmetic_fn :: "u8 \<Rightarrow> arith_fn option" where
  "arithmetic_fn op =
     (case opcode_entry op of
        Some m \<Rightarrow> if om_foldable m then om_arithmetic m else None
      | None \<Rightarrow> None)"

definition arithmetic_op :: "u8 \<Rightarrow> arith_fn option" where
  "arithmetic_op op = (case opcode_entry op of Some m \<Rightarrow> om_arithmetic m | None \<Rightarrow> None)"

definition fixed_charge :: "u8 \<Rightarrow> charge option" where
  "fixed_charge op = (case charging op of Once c \<Rightarrow> Some c | _ \<Rightarrow> None)"

definition SET_LIST_ELEMENT_CHARGE :: charge where
  "SET_LIST_ELEMENT_CHARGE = (case charging OP_SET_LIST of PerElement c \<Rightarrow> c)"

definition set_list_count :: "instr \<Rightarrow> u16 option" where
  "set_list_count i = (if field_b i = OPEN_COUNT then None else Some (field_b i))"

definition static_units :: "instr \<Rightarrow> (charge \<times> u64) option" where
  "static_units i =
     (case charging (opcode i) of
        Free \<Rightarrow> None
      | Once c \<Rightarrow> Some (c, 1)
      | PerElement c \<Rightarrow>
          (case set_list_count i of
             Some count \<Rightarrow> Some (c, ucast count)
           | None \<Rightarrow> Some (c, 0)))"

section \<open>Arithmetic and comparison opcodes\<close>

datatype arith_operands = RegReg | RegConst | ConstReg

datatype arith_op = ArithAdd | ArithSub | ArithMul | ArithDiv | ArithMod | ArithPow

fun arith_base :: "arith_op \<Rightarrow> u8" where
  "arith_base ArithAdd = OP_ADD_RR"
| "arith_base ArithSub = OP_SUB_RR"
| "arith_base ArithMul = OP_MUL_RR"
| "arith_base ArithDiv = OP_DIV_RR"
| "arith_base ArithMod = OP_MOD_RR"
| "arith_base ArithPow = OP_POW_RR"

definition arith_opcode :: "arith_op \<Rightarrow> arith_operands \<Rightarrow> u8" where
  "arith_opcode op operands =
     arith_base op + (case operands of RegReg \<Rightarrow> 0 | RegConst \<Rightarrow> 1 | ConstReg \<Rightarrow> 2)"

text \<open>\<^const>\<open>None\<close> is the panic of the source's \<open>expect\<close>.\<close>

definition arith_function :: "arith_op \<Rightarrow> arith_fn option" where
  "arith_function op = arithmetic_op (arith_base op)"

definition arith_foldable :: "arith_op \<Rightarrow> bool" where
  "arith_foldable op \<longleftrightarrow> arithmetic_fn (arith_base op) \<noteq> None"

definition arith_decode :: "u8 \<Rightarrow> (arith_op \<times> arith_operands) option" where
  "arith_decode op =
     (if op < OP_ADD_RR \<or> op > OP_POW_KR then None
      else let index = op - OP_ADD_RR;
               q = index div 3;
               a = (if q = 0 then ArithAdd else if q = 1 then ArithSub else if q = 2 then ArithMul
                    else if q = 3 then ArithDiv else if q = 4 then ArithMod else ArithPow);
               m = index mod 3;
               operands = (if m = 0 then RegReg else if m = 1 then RegConst else ConstReg)
           in Some (a, operands))"

datatype compare_op = CmpLt | CmpLe | CmpGt | CmpGe | CmpEq | CmpNe

text \<open>The cast \<open>self as u8\<close>.\<close>

fun compare_index :: "compare_op \<Rightarrow> u8" where
  "compare_index CmpLt = 0"
| "compare_index CmpLe = 1"
| "compare_index CmpGt = 2"
| "compare_index CmpGe = 3"
| "compare_index CmpEq = 4"
| "compare_index CmpNe = 5"

definition value_opcode :: "compare_op \<Rightarrow> u8" where
  "value_opcode op = OP_LT + compare_index op"

definition branch_opcode :: "compare_op \<Rightarrow> u8" where
  "branch_opcode op = OP_BR_LT + compare_index op"

definition compare_from_index :: "u8 \<Rightarrow> compare_op option" where
  "compare_from_index i =
     (if i = 0 then Some CmpLt else if i = 1 then Some CmpLe else if i = 2 then Some CmpGt
      else if i = 3 then Some CmpGe else if i = 4 then Some CmpEq else if i = 5 then Some CmpNe
      else None)"

definition from_value_opcode :: "u8 \<Rightarrow> compare_op option" where
  "from_value_opcode op = compare_from_index (op - OP_LT)"

definition from_branch_opcode :: "u8 \<Rightarrow> compare_op option" where
  "from_branch_opcode op = compare_from_index (op - OP_BR_LT)"

fun compare_ordering :: "compare_op \<Rightarrow> (cmp_ordering \<times> bool) option" where
  "compare_ordering CmpLt = Some (OrderLess, False)"
| "compare_ordering CmpLe = Some (OrderGreater, True)"
| "compare_ordering CmpGt = Some (OrderGreater, False)"
| "compare_ordering CmpGe = Some (OrderLess, True)"
| "compare_ordering CmpEq = None"
| "compare_ordering CmpNe = None"

section \<open>Constructors\<close>

text \<open>
  A constructor whose operand encoding can panic returns an option; the others are total.
\<close>

definition i_mov :: "u16 \<Rightarrow> u16 \<Rightarrow> instr" where
  "i_mov dst src = pack OP_MOVE dst src 0 0"

definition i_load_nil :: "u16 \<Rightarrow> u16 \<Rightarrow> instr" where
  "i_load_nil dst count = pack OP_LOAD_NIL dst count 0 0"

definition i_load_bool :: "u16 \<Rightarrow> bool \<Rightarrow> instr" where
  "i_load_bool dst v = pack OP_LOAD_BOOL dst (if v then 1 else 0) 0 0"

definition i_load_num :: "u16 \<Rightarrow> u16 \<Rightarrow> instr" where
  "i_load_num dst literal = pack OP_LOAD_NUM dst literal 0 0"

definition i_load_str :: "u16 \<Rightarrow> u16 \<Rightarrow> instr" where
  "i_load_str dst literal = pack OP_LOAD_STR dst literal 0 0"

definition i_get_upval :: "u16 \<Rightarrow> u16 \<Rightarrow> instr" where
  "i_get_upval dst upvalue = pack OP_GET_UPVAL dst upvalue 0 0"

definition i_set_upval :: "u16 \<Rightarrow> u16 \<Rightarrow> instr" where
  "i_set_upval src upvalue = pack OP_SET_UPVAL src upvalue 0 0"

definition i_close :: "u16 \<Rightarrow> instr" where
  "i_close level = pack OP_CLOSE level 0 0 0"

definition i_get_global :: "u16 \<Rightarrow> u16 \<Rightarrow> u8 option \<Rightarrow> instr option" where
  "i_get_global dst name slot = map_option (pack OP_GET_GLOBAL dst name 0) (encode_cache_slot slot)"

definition i_set_global :: "u16 \<Rightarrow> u16 \<Rightarrow> u8 option \<Rightarrow> instr option" where
  "i_set_global src name slot = map_option (pack OP_SET_GLOBAL src name 0) (encode_cache_slot slot)"

definition cache_slot :: "instr \<Rightarrow> u8 option" where
  "cache_slot i = decode_cache_slot (field_d i)"

definition with_cache_slot :: "instr \<Rightarrow> u8 option \<Rightarrow> instr option" where
  "with_cache_slot i slot =
     map_option (\<lambda>e. Instr ((raw i AND NOT 0xFF) OR ucast e)) (encode_cache_slot slot)"

definition i_get_builtin :: "u16 \<Rightarrow> builtin \<Rightarrow> instr" where
  "i_get_builtin dst b = pack OP_GET_BUILTIN dst (ucast (builtin_to_u8 b)) 0 0"

definition i_set_builtin :: "u16 \<Rightarrow> builtin \<Rightarrow> instr" where
  "i_set_builtin src b = pack OP_SET_BUILTIN src (ucast (builtin_to_u8 b)) 0 0"

definition i_new_table :: "u16 \<Rightarrow> instr" where
  "i_new_table dst = pack OP_NEW_TABLE dst 0 0 0"

definition i_new_table_presized :: "u16 \<Rightarrow> u8 \<Rightarrow> instr" where
  "i_new_table_presized dst capacity = pack OP_NEW_TABLE_PRESIZED dst (ucast capacity) 0 0"

definition i_new_table_template :: "u16 \<Rightarrow> u8 \<Rightarrow> instr" where
  "i_new_table_template dst template = pack OP_NEW_TABLE_TEMPLATE dst (ucast template) 0 0"

definition i_get_field :: "u16 \<Rightarrow> u16 \<Rightarrow> u16 \<Rightarrow> u8 option \<Rightarrow> instr option" where
  "i_get_field dst table name slot =
     map_option (pack OP_GET_FIELD dst table name) (encode_cache_slot slot)"

definition i_get_table :: "u16 \<Rightarrow> u16 \<Rightarrow> u16 \<Rightarrow> instr" where
  "i_get_table dst table key = pack OP_GET_TABLE dst table key 0"

definition i_set_field :: "u16 \<Rightarrow> u16 \<Rightarrow> u16 \<Rightarrow> u8 option \<Rightarrow> instr option" where
  "i_set_field table name src slot =
     map_option (pack OP_SET_FIELD table name src) (encode_cache_slot slot)"

definition i_set_table :: "u16 \<Rightarrow> u16 \<Rightarrow> u16 \<Rightarrow> instr" where
  "i_set_table table key src = pack OP_SET_TABLE table key src 0"

definition i_init_field :: "u16 \<Rightarrow> u16 \<Rightarrow> u16 \<Rightarrow> instr" where
  "i_init_field table name src = pack OP_INIT_FIELD table name src 0"

definition i_init_field_pinned :: "u16 \<Rightarrow> u16 \<Rightarrow> u16 \<Rightarrow> u8 \<Rightarrow> instr" where
  "i_init_field_pinned table name src entry = pack OP_INIT_FIELD_PINNED table name src entry"

definition i_init_index :: "u16 \<Rightarrow> u16 \<Rightarrow> u16 \<Rightarrow> instr" where
  "i_init_index table key src = pack OP_INIT_INDEX table key src 0"

definition i_set_list :: "u16 \<Rightarrow> u8 option \<Rightarrow> u16 \<Rightarrow> instr" where
  "i_set_list table count batch =
     pack OP_SET_LIST table (case count of Some n \<Rightarrow> ucast n | None \<Rightarrow> OPEN_COUNT) batch 0"

definition i_self :: "u16 \<Rightarrow> u16 \<Rightarrow> u16 \<Rightarrow> u8 option \<Rightarrow> instr option" where
  "i_self dst object name slot = map_option (pack OP_SELF dst object name) (encode_cache_slot slot)"

definition i_arith :: "arith_op \<Rightarrow> arith_operands \<Rightarrow> u16 \<Rightarrow> u16 \<Rightarrow> u16 \<Rightarrow> instr" where
  "i_arith op operands dst b c = pack (arith_opcode op operands) dst b c 0"

definition i_unm :: "u16 \<Rightarrow> u16 \<Rightarrow> instr" where
  "i_unm dst src = pack OP_UNM dst src 0 0"

definition i_not :: "u16 \<Rightarrow> u16 \<Rightarrow> instr" where
  "i_not dst src = pack OP_NOT dst src 0 0"

definition i_len :: "u16 \<Rightarrow> u16 \<Rightarrow> instr" where
  "i_len dst src = pack OP_LEN dst src 0 0"

definition i_concat :: "u16 \<Rightarrow> u16 \<Rightarrow> u16 \<Rightarrow> instr" where
  "i_concat dst first count = pack OP_CONCAT dst first count 0"

definition i_compare :: "compare_op \<Rightarrow> u16 \<Rightarrow> u16 \<Rightarrow> u16 \<Rightarrow> instr" where
  "i_compare op dst lhs rhs = pack (value_opcode op) dst lhs rhs 0"

definition i_jump :: "i32 \<Rightarrow> instr" where
  "i_jump offset = pack_jump OP_JMP 0 0 offset"

definition i_branch_compare :: "compare_op \<Rightarrow> u16 \<Rightarrow> u16 \<Rightarrow> i32 \<Rightarrow> instr" where
  "i_branch_compare op lhs rhs offset = pack_jump (branch_opcode op) lhs rhs offset"

definition i_test_false :: "u16 \<Rightarrow> i32 \<Rightarrow> instr" where
  "i_test_false reg offset = pack_jump OP_TEST_FALSE reg 0 offset"

definition i_test_true :: "u16 \<Rightarrow> i32 \<Rightarrow> instr" where
  "i_test_true reg offset = pack_jump OP_TEST_TRUE reg 0 offset"

definition i_for_prep :: "u16 \<Rightarrow> i32 \<Rightarrow> instr" where
  "i_for_prep base offset = pack_jump OP_FOR_PREP base 0 offset"

definition i_for_loop :: "u16 \<Rightarrow> i32 \<Rightarrow> instr" where
  "i_for_loop base offset = pack_jump OP_FOR_LOOP base 0 offset"

definition i_tfor_call :: "u16 \<Rightarrow> u8 \<Rightarrow> u8 option \<Rightarrow> instr option" where
  "i_tfor_call base vars slot =
     map_option (pack OP_TFOR_CALL base (ucast vars) 0) (encode_cache_slot slot)"

definition i_tfor_loop :: "u16 \<Rightarrow> i32 \<Rightarrow> instr" where
  "i_tfor_loop base offset = pack_jump OP_TFOR_LOOP base 0 offset"

definition i_call :: "u16 \<Rightarrow> arg_count \<Rightarrow> ret_count \<Rightarrow> bool \<Rightarrow> instr option" where
  "i_call base args results is_method =
     map_option (\<lambda>n. pack OP_CALL base n (ret_to_operand results) (if is_method then 1 else 0))
       (arg_to_operand args)"

definition into_tail_call :: "instr \<Rightarrow> instr" where
  "into_tail_call i = pack OP_TAILCALL (field_a i) (field_b i) 0 (field_d i)"

definition call_args :: "instr \<Rightarrow> arg_count" where
  "call_args i = arg_from_operand (field_b i)"

definition call_results :: "instr \<Rightarrow> ret_count" where
  "call_results i = ret_from_operand (field_c i)"

definition call_is_method :: "instr \<Rightarrow> bool" where
  "call_is_method i \<longleftrightarrow> field_d i \<noteq> 0"

definition i_ret :: "u16 \<Rightarrow> ret_count \<Rightarrow> instr" where
  "i_ret first count = pack OP_RETURN first (ret_to_operand count) 0 0"

definition return_count :: "instr \<Rightarrow> ret_count" where
  "return_count i = ret_from_operand (field_b i)"

definition i_vararg :: "u16 \<Rightarrow> ret_count \<Rightarrow> instr" where
  "i_vararg dst count = pack OP_VARARG dst (ret_to_operand count) 0 0"

definition vararg_count :: "instr \<Rightarrow> ret_count" where
  "vararg_count i = ret_from_operand (field_b i)"

definition i_closure :: "u16 \<Rightarrow> u16 \<Rightarrow> instr" where
  "i_closure dst nested = pack OP_CLOSURE dst nested 0 0"

definition produces_open :: "instr \<Rightarrow> bool" where
  "produces_open i =
     (if opcode i = OP_CALL then field_c i = OPEN_COUNT
      else if opcode i = OP_VARARG then field_b i = OPEN_COUNT
      else False)"

definition consumes_open :: "instr \<Rightarrow> bool" where
  "consumes_open i =
     (if opcode i \<in> {OP_CALL, OP_TAILCALL, OP_RETURN, OP_SET_LIST} then field_b i = OPEN_COUNT
      else False)"


end
