(* ===== verification/Instr_Laws.thy ===== *)
theory Instr_Laws
  imports Instr
begin

text \<open>
  Laws of the instruction encoding of \<open>instr.rs\<close>: packing and reading the fields are
  inverse to each other, jump offsets survive sign extension through 24 bits, every
  constructor builds an instruction with a known opcode and clear reserved bits, and the
  operand encodings (counts, cache slots, arithmetic opcodes, builtins) decode to what was
  encoded.
\<close>

section \<open>Reading what was packed\<close>

lemma bit_mask_numerals:
  "bit (0xFFFF :: u64) n \<longleftrightarrow> n < 16" "bit (0xFFFFFF :: u64) n \<longleftrightarrow> n < 24" "bit (0xFF :: u64) n \<longleftrightarrow> n < 8"
proof -
  have m: "(0xFFFF :: u64) = mask 16" "(0xFFFFFF :: u64) = mask 24" "(0xFF :: u64) = mask 8"
    by (simp_all add: mask_eq_exp_minus_1)
  show "bit (0xFFFF :: u64) n \<longleftrightarrow> n < 16" "bit (0xFFFFFF :: u64) n \<longleftrightarrow> n < 24"
      "bit (0xFF :: u64) n \<longleftrightarrow> n < 8"
    unfolding m by (simp_all only: bit_mask_iff possible_bit_word) auto
qed

lemmas field_defs = opcode_def field_a_def field_b_def field_c_def field_d_def

text \<open>The fields and the packed words, bit by bit.\<close>

lemma bit_fields:
  "bit (opcode i) n \<longleftrightarrow> n < 8 \<and> bit (raw i) (56 + n)"
  "bit (field_a i) n \<longleftrightarrow> n < 16 \<and> bit (raw i) (40 + n)"
  "bit (field_b i) n \<longleftrightarrow> n < 16 \<and> bit (raw i) (24 + n)"
  "bit (field_c i) n \<longleftrightarrow> n < 16 \<and> bit (raw i) (8 + n)"
  "bit (field_d i) n \<longleftrightarrow> n < 8 \<and> bit (raw i) n"
  by (simp_all add: field_defs bit_ucast_iff bit_drop_bit_eq)

lemma bit_u8_less: "bit (x :: u8) n \<Longrightarrow> n < 8"
  and bit_u16_less: "bit (y :: u16) n \<Longrightarrow> n < 16"
  using bit_imp_le_length [of x n] bit_imp_le_length [of y n] by simp_all

lemma bit_pack:
  assumes "n < 64"
  shows "bit (raw (pack op fa fb fc fd)) n =
     (if 56 \<le> n then bit op (n - 56) else if 40 \<le> n then bit fa (n - 40)
      else if 24 \<le> n then bit fb (n - 24) else if 8 \<le> n then bit fc (n - 8) else bit fd n)"
proof -
  note less = bit_u16_less [of fa "n - 40"] bit_u16_less [of fb "n - 24"] bit_u16_less [of fc "n - 8"]
    bit_u8_less [of fd n]
  have "bit (raw (pack op fa fb fc fd)) n =
     (56 \<le> n \<and> bit op (n - 56) \<or> 40 \<le> n \<and> bit fa (n - 40) \<or> 24 \<le> n \<and> bit fb (n - 24)
      \<or> 8 \<le> n \<and> bit fc (n - 8) \<or> bit fd n)"
    using assms by (auto simp: pack_def bit_or_iff bit_push_bit_iff bit_ucast_iff)
  then show ?thesis
    using less by (cases "56 \<le> n"; cases "40 \<le> n"; cases "24 \<le> n"; cases "8 \<le> n") auto
qed

lemma bit_pack_jump:
  assumes "n < 64"
  shows "bit (raw (pack_jump op fa fb off)) n =
     (if 56 \<le> n then bit op (n - 56) else if 40 \<le> n then bit fa (n - 40)
      else if 24 \<le> n then bit fb (n - 24) else bit off n)"
proof -
  define m :: u64 where "m = 0xFFFFFF"
  have m: "bit m k \<longleftrightarrow> k < 24" for k unfolding m_def by (rule bit_mask_numerals)
  note less = bit_u16_less [of fa "n - 40"] bit_u16_less [of fb "n - 24"]
  have "bit (raw (pack_jump op fa fb off)) n =
     (56 \<le> n \<and> bit op (n - 56) \<or> 40 \<le> n \<and> bit fa (n - 40) \<or> 24 \<le> n \<and> bit fb (n - 24)
      \<or> n < 24 \<and> bit off n)"
    using assms unfolding pack_jump_def m_def [symmetric] instr.sel
    by (auto simp: bit_or_iff bit_and_iff bit_push_bit_iff bit_ucast_iff m)
  then show ?thesis
    using less by (cases "56 \<le> n"; cases "40 \<le> n"; cases "24 \<le> n") auto
qed

lemma pack_fields [simp, field_simps_instr]:
  "opcode (pack op fa fb fc fd) = op"
  "field_a (pack op fa fb fc fd) = fa"
  "field_b (pack op fa fb fc fd) = fb"
  "field_c (pack op fa fb fc fd) = fc"
  "field_d (pack op fa fb fc fd) = fd"
  by (rule bit_word_eqI; simp add: bit_fields bit_pack)+

lemma pack_jump_fields [simp, field_simps_instr]:
  "opcode (pack_jump op fa fb off) = op"
  "field_a (pack_jump op fa fb off) = fa"
  "field_b (pack_jump op fa fb off) = fb"
  by (rule bit_word_eqI; simp add: bit_fields bit_pack_jump)+

text \<open>The five fields determine the word.\<close>

lemma pack_of_fields:
  "pack (opcode i) (field_a i) (field_b i) (field_c i) (field_d i) = i"
proof -
  have "raw (pack (opcode i) (field_a i) (field_b i) (field_c i) (field_d i)) = raw i"
    by (rule word_eqI_64) (auto simp: bit_pack bit_fields)
  then show ?thesis by (metis instr.collapse)
qed

lemma instr_eqI:
  assumes "opcode i = opcode k" "field_a i = field_a k" "field_b i = field_b k"
    "field_c i = field_c k" "field_d i = field_d k"
  shows "i = k"
  by (metis assms pack_of_fields)

lemma replace_field_bits:
  fixes w :: u64 and x :: u16
  assumes "\<And>n. bit m n \<longleftrightarrow> n < 16"
  shows "bit ((w AND NOT (push_bit k m)) OR push_bit k (ucast x)) n \<longleftrightarrow>
     n < 64 \<and> (if k \<le> n \<and> n < k + 16 then bit x (n - k) else bit w n)"
proof -
  have "bit x (n - k) \<Longrightarrow> n < k + 16"
    using bit_u16_less [of x "n - k"] by auto
  moreover have "bit w n \<Longrightarrow> n < 64"
    using bit_imp_le_length [of w n] by simp
  ultimately show ?thesis
    by (auto simp: bit_or_iff bit_and_iff bit_not_iff bit_push_bit_iff bit_ucast_iff assms)
qed

lemmas bit_replaced_field = replace_field_bits [OF bit_mask_numerals(1)]

lemma with_bits:
  "bit (raw (with_a i x)) n \<longleftrightarrow> n < 64 \<and> (if 40 \<le> n \<and> n < 56 then bit x (n - 40) else bit (raw i) n)"
  "bit (raw (with_b i x)) n \<longleftrightarrow> n < 64 \<and> (if 24 \<le> n \<and> n < 40 then bit x (n - 24) else bit (raw i) n)"
  "bit (raw (with_c i x)) n \<longleftrightarrow> n < 64 \<and> (if 8 \<le> n \<and> n < 24 then bit x (n - 8) else bit (raw i) n)"
  unfolding with_a_def with_b_def with_c_def instr.sel bit_replaced_field by simp_all

lemma with_fields [simp, field_simps_instr]:
  "opcode (with_a i x) = opcode i" "field_a (with_a i x) = x" "field_b (with_a i x) = field_b i"
  "field_c (with_a i x) = field_c i" "field_d (with_a i x) = field_d i"
  "opcode (with_b i x) = opcode i" "field_a (with_b i x) = field_a i" "field_b (with_b i x) = x"
  "field_c (with_b i x) = field_c i" "field_d (with_b i x) = field_d i"
  "opcode (with_c i x) = opcode i" "field_a (with_c i x) = field_a i" "field_b (with_c i x) = field_b i"
  "field_c (with_c i x) = x" "field_d (with_c i x) = field_d i"
  by (rule bit_word_eqI; simp add: bit_fields with_bits)+

section \<open>Jump offsets\<close>

lemma bit_sj: "n < 32 \<Longrightarrow> bit (sj i) n = bit (raw i) (if n < 23 then n else 23)"
proof -
  assume "n < 32"
  then show ?thesis
    by (cases "n = 23") (auto simp: sj_def bit_signed_drop_bit_iff bit_ucast_iff bit_push_bit_iff)
qed

lemma sint_bit_extends:
  fixes off :: i32
  assumes "- (2 ^ 23) \<le> sint off" "sint off < 2 ^ 23" "23 \<le> n" "n < 32"
  shows "bit off n = bit off 23"
proof -
  have "signed_take_bit 23 (sint off) = sint off"
    using assms(1,2) by (simp add: signed_take_bit_int_eq_self)
  then have "bit (sint off) n = bit (sint off) 23"
    using bit_signed_take_bit_iff [of 23 "sint off" n] assms(3) by (simp add: min_def)
  then show ?thesis
    using assms(4) by (auto simp: bit_sint_iff)
qed

lemma sj_pack_jump:
  assumes "- (2 ^ 23) \<le> sint off" "sint off < 2 ^ 23"
  shows "sj (pack_jump op fa fb off) = off"
proof (rule bit_word_eqI)
  fix n assume "n < LENGTH(32)"
  with assms show "bit (sj (pack_jump op fa fb off)) n = bit off n"
    using sint_bit_extends [OF assms, of n] by (auto simp: bit_sj bit_pack_jump)
qed

section \<open>Reserved bits\<close>

text \<open>
  The reserved bits of a layout are clear exactly when every field outside it is zero.
\<close>

fun layout_clear :: "layout \<Rightarrow> instr \<Rightarrow> bool" where
  "layout_clear LayoutA i = (field_b i = 0 \<and> field_c i = 0 \<and> field_d i = 0)"
| "layout_clear LayoutAb i = (field_c i = 0 \<and> field_d i = 0)"
| "layout_clear LayoutAbc i = (field_d i = 0)"
| "layout_clear LayoutAbd i = (field_c i = 0)"
| "layout_clear LayoutAbcd i = True"
| "layout_clear LayoutJ i = (field_a i = 0 \<and> field_b i = 0)"
| "layout_clear LayoutAj i = (field_b i = 0)"
| "layout_clear LayoutAbj i = True"

lemma ucast_zero_iff:
  "(ucast (drop_bit k w) :: 'a::len word) = 0 \<longleftrightarrow>
      (\<forall>n. k \<le> n \<and> n < k + LENGTH('a) \<longrightarrow> \<not> bit w n)" for w :: u64
proof
  assume z: "(ucast (drop_bit k w) :: 'a word) = 0"
  show "\<forall>n. k \<le> n \<and> n < k + LENGTH('a) \<longrightarrow> \<not> bit w n"
  proof (intro allI impI)
    fix n assume n: "k \<le> n \<and> n < k + LENGTH('a)"
    have "\<not> bit (ucast (drop_bit k w) :: 'a word) (n - k)" unfolding z by simp
    with n show "\<not> bit w n" by (auto simp: bit_ucast_iff bit_drop_bit_eq)
  qed
next
  assume "\<forall>n. k \<le> n \<and> n < k + LENGTH('a) \<longrightarrow> \<not> bit w n"
  then show "(ucast (drop_bit k w) :: 'a word) = 0"
    by (intro bit_word_eqI) (simp add: bit_ucast_iff bit_drop_bit_eq)
qed

lemma field_zero_iff:
  "field_a i = 0 \<longleftrightarrow> (\<forall>n. 40 \<le> n \<and> n < 56 \<longrightarrow> \<not> bit (raw i) n)"
  "field_b i = 0 \<longleftrightarrow> (\<forall>n. 24 \<le> n \<and> n < 40 \<longrightarrow> \<not> bit (raw i) n)"
  "field_c i = 0 \<longleftrightarrow> (\<forall>n. 8 \<le> n \<and> n < 24 \<longrightarrow> \<not> bit (raw i) n)"
  "field_d i = 0 \<longleftrightarrow> (\<forall>n. n < 8 \<longrightarrow> \<not> bit (raw i) n)"
proof -
  show "field_a i = 0 \<longleftrightarrow> (\<forall>n. 40 \<le> n \<and> n < 56 \<longrightarrow> \<not> bit (raw i) n)"
    "field_b i = 0 \<longleftrightarrow> (\<forall>n. 24 \<le> n \<and> n < 40 \<longrightarrow> \<not> bit (raw i) n)"
    "field_c i = 0 \<longleftrightarrow> (\<forall>n. 8 \<le> n \<and> n < 24 \<longrightarrow> \<not> bit (raw i) n)"
    unfolding field_defs ucast_zero_iff by simp_all
  show "field_d i = 0 \<longleftrightarrow> (\<forall>n. n < 8 \<longrightarrow> \<not> bit (raw i) n)"
    using ucast_zero_iff [of 0 "raw i", where 'a = 8] by (simp add: field_defs)
qed

lemma and_zero_iff: "w AND m = 0 \<longleftrightarrow> (\<forall>n. bit m n \<longrightarrow> \<not> bit w n)" for w m :: u64
proof -
  have "w AND m = 0 \<longleftrightarrow> (\<forall>n. bit (w AND m) n = bit (0 :: u64) n)"
    by (metis bit_eqI)
  then show ?thesis by (auto simp: bit_and_iff)
qed

lemma bit_operands_mask: "bit (push_bit 56 1 - 1 :: u64) n \<longleftrightarrow> n < 56"
proof -
  have "(push_bit 56 1 - 1 :: u64) = mask 56"
    by (simp add: mask_eq_exp_minus_1)
  then show ?thesis
    by (simp only: bit_mask_iff possible_bit_word) auto
qed

lemma bit_layout_reserved:
  "bit (layout_reserved l) n \<longleftrightarrow> n < 56 \<and>
     (case l of
        LayoutA \<Rightarrow> n < 40 | LayoutAb \<Rightarrow> n < 24 | LayoutAbc \<Rightarrow> n < 8 | LayoutAbd \<Rightarrow> 8 \<le> n \<and> n < 24
      | LayoutAbcd \<Rightarrow> False | LayoutJ \<Rightarrow> 24 \<le> n | LayoutAj \<Rightarrow> 24 \<le> n \<and> n < 40 | LayoutAbj \<Rightarrow> False)"
proof -
  define m16 m24 m8 :: u64 where "m16 = 0xFFFF" and "m24 = 0xFFFFFF" and "m8 = 0xFF"
  have m: "bit m16 k \<longleftrightarrow> k < 16" "bit m24 k \<longleftrightarrow> k < 24" "bit m8 k \<longleftrightarrow> k < 8" for k
    unfolding m16_def m24_def m8_def by (rule bit_mask_numerals)+
  show ?thesis
    unfolding layout_reserved_def Let_def bit_and_iff bit_operands_mask
      m16_def [symmetric] m24_def [symmetric] m8_def [symmetric]
    by (cases l) (auto simp: bit_or_iff bit_and_iff bit_not_iff bit_push_bit_iff m)
qed

lemma reserved_iff_layout_clear:
  "raw i AND layout_reserved l = 0 \<longleftrightarrow> layout_clear l i"
proof -
  have split: "(\<forall>n. P n \<longrightarrow> Q n) \<longleftrightarrow> (\<forall>n. P1 n \<longrightarrow> Q n) \<and> (\<forall>n. P2 n \<longrightarrow> Q n)"
    if "\<And>n. P n \<longleftrightarrow> P1 n \<or> P2 n" for P P1 P2 Q :: "nat \<Rightarrow> bool"
    using that by blast
  let ?z = "\<lambda>n. \<not> bit (raw i) n"
  have c1: "(\<forall>n. n < 24 \<longrightarrow> ?z n) \<longleftrightarrow> (\<forall>n. 8 \<le> n \<and> n < 24 \<longrightarrow> ?z n) \<and> (\<forall>n. n < 8 \<longrightarrow> ?z n)"
    by (rule split) auto
  have c2: "(\<forall>n. n < 40 \<longrightarrow> ?z n) \<longleftrightarrow> (\<forall>n. 24 \<le> n \<and> n < 40 \<longrightarrow> ?z n) \<and> (\<forall>n. n < 24 \<longrightarrow> ?z n)"
    by (rule split) auto
  have c3: "(\<forall>n. n < 56 \<and> 24 \<le> n \<longrightarrow> ?z n) \<longleftrightarrow>
      (\<forall>n. 40 \<le> n \<and> n < 56 \<longrightarrow> ?z n) \<and> (\<forall>n. 24 \<le> n \<and> n < 40 \<longrightarrow> ?z n)"
    by (rule split) auto
  have lt: "n < 56 \<and> n < 40 \<longleftrightarrow> n < 40" "n < 56 \<and> n < 24 \<longleftrightarrow> n < 24" "n < 56 \<and> n < 8 \<longleftrightarrow> n < 8"
    "n < 56 \<and> 8 \<le> n \<and> n < 24 \<longleftrightarrow> 8 \<le> n \<and> n < 24" "n < 56 \<and> 24 \<le> n \<and> n < 40 \<longleftrightarrow> 24 \<le> n \<and> n < 40"
    for n :: nat by auto
  show ?thesis
    unfolding and_zero_iff bit_layout_reserved
    by (cases l) (simp_all only: layout.case layout_clear.simps field_zero_iff lt c1 c2 c3 simp_thms)
qed

section \<open>The table, row by row\<close>

lemma opcode_entry_simps [simp]:
  "opcode_entry OP_MOVE = Some (meta LayoutAb Free None False None)"
  "opcode_entry OP_LOAD_NIL = Some (meta LayoutAb Free None False None)"
  "opcode_entry OP_LOAD_BOOL = Some (meta LayoutAb Free None False None)"
  "opcode_entry OP_LOAD_NUM = Some (meta LayoutAb Free None False (Some (PoolNumber, FieldB)))"
  "opcode_entry OP_LOAD_STR = Some (meta LayoutAb Free None False (Some (PoolString, FieldB)))"
  "opcode_entry OP_GET_UPVAL = Some (meta LayoutAb Free None False (Some (PoolUpvalue, FieldB)))"
  "opcode_entry OP_SET_UPVAL = Some (meta LayoutAb Free None False (Some (PoolUpvalue, FieldB)))"
  "opcode_entry OP_CLOSE = Some (meta LayoutA Free None False None)"
  "opcode_entry OP_GET_GLOBAL = Some (meta LayoutAbd Free None False (Some (PoolString, FieldB)))"
  "opcode_entry OP_SET_GLOBAL = Some (meta LayoutAbd Free None False (Some (PoolString, FieldB)))"
  "opcode_entry OP_GET_BUILTIN = Some (meta LayoutAb Free None False None)"
  "opcode_entry OP_SET_BUILTIN = Some (meta LayoutAb Free None False None)"
  "opcode_entry OP_NEW_TABLE = Some (meta LayoutA (Once NewTable) None False None)"
  "opcode_entry OP_NEW_TABLE_PRESIZED = Some (meta LayoutAb (Once NewTable) None False None)"
  "opcode_entry OP_NEW_TABLE_TEMPLATE = Some (meta LayoutAb (Once NewTable) None False (Some (PoolTemplate, FieldB)))"
  "opcode_entry OP_GET_FIELD = Some (meta LayoutAbcd Free None False (Some (PoolString, FieldC)))"
  "opcode_entry OP_GET_TABLE = Some (meta LayoutAbc Free None False None)"
  "opcode_entry OP_SET_FIELD = Some (meta LayoutAbcd (Once TableWrite) None False (Some (PoolString, FieldB)))"
  "opcode_entry OP_SET_TABLE = Some (meta LayoutAbc (Once TableWrite) None False None)"
  "opcode_entry OP_INIT_FIELD = Some (meta LayoutAbc (Once TableWrite) None False (Some (PoolString, FieldB)))"
  "opcode_entry OP_INIT_FIELD_PINNED = Some (meta LayoutAbcd (Once TableWrite) None False (Some (PoolString, FieldB)))"
  "opcode_entry OP_INIT_INDEX = Some (meta LayoutAbc (Once TableWrite) None False None)"
  "opcode_entry OP_SET_LIST = Some (meta LayoutAbc (PerElement ArrayElement) None False None)"
  "opcode_entry OP_SELF = Some (meta LayoutAbcd Free None False (Some (PoolString, FieldC)))"
  "opcode_entry OP_ADD_RR = Some (meta LayoutAbc (Once Add) (Some LuaAdd) True None)"
  "opcode_entry OP_ADD_RK = Some (meta LayoutAbc (Once Add) (Some LuaAdd) True (Some (PoolNumber, FieldC)))"
  "opcode_entry OP_ADD_KR = Some (meta LayoutAbc (Once Add) (Some LuaAdd) True (Some (PoolNumber, FieldB)))"
  "opcode_entry OP_SUB_RR = Some (meta LayoutAbc (Once Sub) (Some LuaSub) True None)"
  "opcode_entry OP_SUB_RK = Some (meta LayoutAbc (Once Sub) (Some LuaSub) True (Some (PoolNumber, FieldC)))"
  "opcode_entry OP_SUB_KR = Some (meta LayoutAbc (Once Sub) (Some LuaSub) True (Some (PoolNumber, FieldB)))"
  "opcode_entry OP_MUL_RR = Some (meta LayoutAbc (Once Mul) (Some LuaMul) True None)"
  "opcode_entry OP_MUL_RK = Some (meta LayoutAbc (Once Mul) (Some LuaMul) True (Some (PoolNumber, FieldC)))"
  "opcode_entry OP_MUL_KR = Some (meta LayoutAbc (Once Mul) (Some LuaMul) True (Some (PoolNumber, FieldB)))"
  "opcode_entry OP_DIV_RR = Some (meta LayoutAbc (Once Div) (Some LuaDiv) True None)"
  "opcode_entry OP_DIV_RK = Some (meta LayoutAbc (Once Div) (Some LuaDiv) True (Some (PoolNumber, FieldC)))"
  "opcode_entry OP_DIV_KR = Some (meta LayoutAbc (Once Div) (Some LuaDiv) True (Some (PoolNumber, FieldB)))"
  "opcode_entry OP_MOD_RR = Some (meta LayoutAbc (Once Mod) (Some LuaModulo) True None)"
  "opcode_entry OP_MOD_RK = Some (meta LayoutAbc (Once Mod) (Some LuaModulo) True (Some (PoolNumber, FieldC)))"
  "opcode_entry OP_MOD_KR = Some (meta LayoutAbc (Once Mod) (Some LuaModulo) True (Some (PoolNumber, FieldB)))"
  "opcode_entry OP_POW_RR = Some (meta LayoutAbc (Once Pow) (Some CrmathPow) False None)"
  "opcode_entry OP_POW_RK = Some (meta LayoutAbc (Once Pow) (Some CrmathPow) False (Some (PoolNumber, FieldC)))"
  "opcode_entry OP_POW_KR = Some (meta LayoutAbc (Once Pow) (Some CrmathPow) False (Some (PoolNumber, FieldB)))"
  "opcode_entry OP_UNM = Some (meta LayoutAb (Once Negate) None False None)"
  "opcode_entry OP_NOT = Some (meta LayoutAb Free None False None)"
  "opcode_entry OP_LEN = Some (meta LayoutAb Free None False None)"
  "opcode_entry OP_CONCAT = Some (meta LayoutAbc Free None False None)"
  "opcode_entry OP_LT = Some (meta LayoutAbc Free None False None)"
  "opcode_entry OP_LE = Some (meta LayoutAbc Free None False None)"
  "opcode_entry OP_GT = Some (meta LayoutAbc Free None False None)"
  "opcode_entry OP_GE = Some (meta LayoutAbc Free None False None)"
  "opcode_entry OP_EQ = Some (meta LayoutAbc Free None False None)"
  "opcode_entry OP_NE = Some (meta LayoutAbc Free None False None)"
  "opcode_entry OP_JMP = Some (meta LayoutJ Free None False None)"
  "opcode_entry OP_BR_LT = Some (meta LayoutAbj Free None False None)"
  "opcode_entry OP_BR_LE = Some (meta LayoutAbj Free None False None)"
  "opcode_entry OP_BR_GT = Some (meta LayoutAbj Free None False None)"
  "opcode_entry OP_BR_GE = Some (meta LayoutAbj Free None False None)"
  "opcode_entry OP_BR_EQ = Some (meta LayoutAbj Free None False None)"
  "opcode_entry OP_BR_NE = Some (meta LayoutAbj Free None False None)"
  "opcode_entry OP_TEST_FALSE = Some (meta LayoutAj Free None False None)"
  "opcode_entry OP_TEST_TRUE = Some (meta LayoutAj Free None False None)"
  "opcode_entry OP_FOR_PREP = Some (meta LayoutAj Free None False None)"
  "opcode_entry OP_FOR_LOOP = Some (meta LayoutAj Free None False None)"
  "opcode_entry OP_TFOR_CALL = Some (meta LayoutAbd Free None False None)"
  "opcode_entry OP_TFOR_LOOP = Some (meta LayoutAj Free None False None)"
  "opcode_entry OP_CALL = Some (meta LayoutAbcd Free None False None)"
  "opcode_entry OP_RETURN = Some (meta LayoutAb Free None False None)"
  "opcode_entry OP_VARARG = Some (meta LayoutAb Free None False None)"
  "opcode_entry OP_CLOSURE = Some (meta LayoutAb Free None False (Some (PoolNested, FieldB)))"
  "opcode_entry OP_TAILCALL = Some (meta LayoutAbd Free None False None)"
  by (simp_all add: opcode_entry_def OPCODES_def)

lemma meta_sel [simp]:
  "om_layout (meta l c a f p) = l" "om_charge (meta l c a f p) = c"
  "om_arithmetic (meta l c a f p) = a" "om_foldable (meta l c a f p) = f" "om_pool (meta l c a f p) = p"
  by (simp_all add: meta_def)

lemma reserved_bits_zero_entry:
  "opcode_entry (opcode i) = Some m \<Longrightarrow> reserved_bits_zero i = layout_clear (om_layout m) i"
  by (simp add: reserved_bits_zero_def reserved_iff_layout_clear)

section \<open>Every constructor builds a well-formed instruction\<close>

text \<open>The instructions the compiler can build, and the two rewrites it applies to them.\<close>

inductive constructed :: "instr \<Rightarrow> bool" where
  "constructed (i_mov dst src)"
| "constructed (i_load_nil dst count)"
| "constructed (i_load_bool dst v)"
| "constructed (i_load_num dst k)"
| "constructed (i_load_str dst k)"
| "constructed (i_get_upval dst u)"
| "constructed (i_set_upval src u)"
| "constructed (i_close level)"
| "i_get_global dst name slot = Some i \<Longrightarrow> constructed i"
| "i_set_global src name slot = Some i \<Longrightarrow> constructed i"
| "constructed (i_get_builtin dst bi)"
| "constructed (i_set_builtin src bi)"
| "constructed (i_new_table dst)"
| "constructed (i_new_table_presized dst capacity)"
| "constructed (i_new_table_template dst template)"
| "i_get_field dst table name slot = Some i \<Longrightarrow> constructed i"
| "constructed (i_get_table dst table key)"
| "i_set_field table name src slot = Some i \<Longrightarrow> constructed i"
| "constructed (i_set_table table key src)"
| "constructed (i_init_field table name src)"
| "constructed (i_init_field_pinned table name src entry)"
| "constructed (i_init_index table key src)"
| "constructed (i_set_list table n batch)"
| "i_self dst object name slot = Some i \<Longrightarrow> constructed i"
| "constructed (i_arith aop operands dst b c)"
| "constructed (i_unm dst src)"
| "constructed (i_not dst src)"
| "constructed (i_len dst src)"
| "constructed (i_concat dst first count)"
| "constructed (i_compare cop dst lhs rhs)"
| "constructed (i_jump offset)"
| "constructed (i_branch_compare cop lhs rhs offset)"
| "constructed (i_test_false reg offset)"
| "constructed (i_test_true reg offset)"
| "constructed (i_for_prep base offset)"
| "constructed (i_for_loop base offset)"
| "i_tfor_call base vars slot = Some i \<Longrightarrow> constructed i"
| "constructed (i_tfor_loop base offset)"
| "i_call base args results is_method = Some i \<Longrightarrow> constructed i"
| "constructed (i_ret first n')"
| "constructed (i_vararg dst n')"
| "constructed (i_closure dst nested)"
| "constructed i \<Longrightarrow> opcode i = OP_CALL \<Longrightarrow> constructed (into_tail_call i)"
| "constructed i \<Longrightarrow> is_transfer (opcode i) \<Longrightarrow> constructed (with_offset i offset)"

lemmas constructor_defs =
  i_mov_def i_load_nil_def i_load_bool_def i_load_num_def i_load_str_def i_get_upval_def
  i_set_upval_def i_close_def i_get_global_def i_set_global_def i_get_builtin_def i_set_builtin_def
  i_new_table_def i_new_table_presized_def i_new_table_template_def i_get_field_def i_get_table_def
  i_set_field_def i_set_table_def i_init_field_def i_init_field_pinned_def i_init_index_def
  i_set_list_def i_self_def i_arith_def i_unm_def i_not_def i_len_def i_concat_def i_compare_def
  i_jump_def i_branch_compare_def i_test_false_def i_test_true_def i_for_prep_def i_for_loop_def
  i_tfor_call_def i_tfor_loop_def i_call_def i_ret_def i_vararg_def i_closure_def

lemma arith_entry:
  "\<exists>m. opcode_entry (arith_opcode op operands) = Some m \<and> om_layout m = LayoutAbc"
  by (cases op; cases operands; simp add: arith_opcode_def)

lemma value_entry: "\<exists>m. opcode_entry (value_opcode op) = Some m \<and> om_layout m = LayoutAbc"
  by (cases op; simp add: value_opcode_def)

lemma branch_entry: "\<exists>m. opcode_entry (branch_opcode op) = Some m \<and> om_layout m = LayoutAbj"
  by (cases op; simp add: branch_opcode_def)

lemma transfer_layout_clear:
  assumes "is_transfer (opcode i)" "reserved_bits_zero i"
  shows "reserved_bits_zero (with_offset i off)"
proof -
  obtain m where m: "opcode_entry (opcode i) = Some m" "om_layout m \<in> {LayoutJ, LayoutAj, LayoutAbj}"
    using assms(1) by (auto simp: is_transfer_def layout_of_def)
  have "opcode (with_offset i off) = opcode i" "field_a (with_offset i off) = field_a i"
      "field_b (with_offset i off) = field_b i"
    by (simp_all add: with_offset_def)
  with m assms(2) show ?thesis
    by (auto simp: reserved_bits_zero_entry)
qed

lemma constructed_reserved: "constructed i \<Longrightarrow> reserved_bits_zero i"
proof (induction rule: constructed.induct)
  case (25 aop operands dst b c)
  then show ?case using arith_entry [of aop operands]
    by (auto simp: i_arith_def reserved_bits_zero_entry)
next
  case (30 cop dst lhs rhs)
  then show ?case using value_entry [of cop]
    by (auto simp: i_compare_def reserved_bits_zero_entry)
next
  case (32 cop lhs rhs offset)
  then show ?case using branch_entry [of cop]
    by (auto simp: i_branch_compare_def reserved_bits_zero_entry)
next
  case (43 i)
  then show ?case by (simp add: into_tail_call_def reserved_bits_zero_entry)
next
  case (44 i offset)
  then show ?case by (simp add: transfer_layout_clear)
qed (auto simp: constructor_defs reserved_bits_zero_entry)

section \<open>Operand encodings\<close>

lemma unat_ucast_u8: "unat (ucast (n :: u8) :: u16) = unat n"
proof -
  have "unat n < 256" using unsigned_less [of n, where ?'a = nat] by simp
  then show ?thesis by (simp add: unsigned_ucast_eq take_bit_nat_eq_self)
qed

lemma ucast_u8_u16:
  "(ucast (n :: u8) :: u16) \<noteq> OPEN_COUNT" "\<not> (ucast (n :: u8) :: u16) > 255"
  "(ucast (ucast (n :: u8) :: u16) :: u8) = n"
proof -
  have "unat n < 256" using unsigned_less [of n, where ?'a = nat] by simp
  then have u: "unat (ucast n :: u16) < 256" by (simp add: unat_ucast_u8)
  then show "(ucast n :: u16) \<noteq> OPEN_COUNT" by (auto simp: OPEN_COUNT_def)
  from u show "\<not> (ucast n :: u16) > 255" by (simp add: word_less_nat_alt)
  show "(ucast (ucast n :: u16) :: u8) = n"
    by (rule bit_word_eqI) (simp add: bit_ucast_iff)
qed

lemma ret_operand_roundtrip: "ret_from_operand (ret_to_operand r) = r"
  by (cases r) (simp_all add: ret_from_operand_def ucast_u8_u16)

lemma arg_operand_roundtrip: "arg_to_operand x = Some n \<Longrightarrow> arg_from_operand n = x"
  by (cases x) (auto simp: arg_from_operand_def ucast_u8_u16 split: if_splits)

lemma ret_operand_open: "ret_to_operand r = OPEN_COUNT \<longleftrightarrow> r = RetAll"
  by (cases r) (simp_all add: ucast_u8_u16)

lemma arg_operand_open: "arg_to_operand x = Some n \<Longrightarrow> n = OPEN_COUNT \<longleftrightarrow> x = ArgDynamic"
  by (cases x) (auto simp: ucast_u8_u16 split: if_splits)

lemma cache_slot_roundtrip: "encode_cache_slot slot = Some e \<Longrightarrow> decode_cache_slot e = slot"
proof (cases slot)
  case (Some n)
  assume "encode_cache_slot slot = Some e"
  with Some have e: "e = n + 1" "unat n < 255"
    by (auto simp: encode_cache_slot_def MAX_CACHE_SLOTS_def split: if_splits)
  then have "e \<noteq> 0"
    by (simp add: unat_eq_0 [symmetric] unat_word_ariths del: unat_eq_0)
  with e Some show ?thesis by (simp add: decode_cache_slot_def)
qed (auto simp: encode_cache_slot_def decode_cache_slot_def)

fun arith_charge :: "arith_op \<Rightarrow> charge" where
  "arith_charge ArithAdd = Add"
| "arith_charge ArithSub = Sub"
| "arith_charge ArithMul = Mul"
| "arith_charge ArithDiv = Div"
| "arith_charge ArithMod = Mod"
| "arith_charge ArithPow = Pow"

lemma arith_decode_opcode: "arith_decode (arith_opcode op operands) = Some (op, operands)"
  by (cases op; cases operands; simp add: arith_decode_def arith_opcode_def)

lemma builtin_roundtrip:
  "builtin_from_u8 (builtin_to_u8 b) = Some b" "builtin_from_name (builtin_name b) = Some b"
  by (cases b; simp add: builtin_from_u8_def builtin_from_name_def builtin_ALL_def)+

section \<open>Properties\<close>

text \<open>
  C30. Packing and reading are inverse to each other: each field of a packed word is what
  was packed, and every 64-bit word is the packing of its own five fields.
\<close>

theorem instr_fields_bijective:
  "opcode (pack op fa fb fc fd) = op \<and> field_a (pack op fa fb fc fd) = fa \<and>
   field_b (pack op fa fb fc fd) = fb \<and> field_c (pack op fa fb fc fd) = fc \<and>
   field_d (pack op fa fb fc fd) = fd \<and>
   pack (opcode i) (field_a i) (field_b i) (field_c i) (field_d i) = i"
  by (simp add: pack_of_fields)

text \<open>
  C32. A jump offset of at most 24 signed bits survives encoding, and replacing the offset
  of a transfer keeps its opcode and registers.
\<close>

theorem jump_offset_roundtrip:
  assumes "- (2 ^ 23) \<le> sint off" and "sint off \<le> sint MAX_JUMP_OFFSET"
  shows "sj (pack_jump op fa fb off) = off \<and> sj (with_offset i off) = off \<and>
    opcode (with_offset i off) = opcode i \<and> field_a (with_offset i off) = field_a i \<and>
    field_b (with_offset i off) = field_b i"
proof -
  have "sint off < 2 ^ 23"
    using assms(2) by (simp add: MAX_JUMP_OFFSET_def)
  with assms(1) show ?thesis
    by (simp add: sj_pack_jump with_offset_def)
qed

theorem jump_offset_roundtrip_witness:
  "sj (with_offset (i_jump 0) (word_of_int (- 7))) = word_of_int (- 7)"
proof -
  have h: "- (2 ^ 23) \<le> sint (word_of_int (- 7) :: i32)" "sint (word_of_int (- 7) :: i32) \<le> sint MAX_JUMP_OFFSET"
    by (simp_all add: MAX_JUMP_OFFSET_def)
  from jump_offset_roundtrip [OF h] show ?thesis by blast
qed

text \<open>
  C31. Every instruction the compiler's constructors build, and the tail-call and offset
  rewrites of such an instruction, has a known opcode and no reserved bit set.
\<close>

theorem constructed_instructions_well_formed:
  assumes "constructed i"
  shows "known_opcode (opcode i) \<and> reserved_bits_zero i"
  using constructed_reserved [OF assms]
  by (auto simp: known_opcode_def reserved_bits_zero_def split: option.splits)

theorem constructed_instructions_well_formed_witness:
  "known_opcode (opcode (with_offset (i_jump 0) 5)) \<and> reserved_bits_zero (with_offset (i_jump 0) 5)"
proof -
  have "constructed (with_offset (i_jump 0) 5)"
    by (intro constructed.intros) (simp add: i_jump_def is_transfer_def layout_of_def)
  then show ?thesis by (rule constructed_instructions_well_formed)
qed

text \<open>
  C33. A call instruction decodes to the argument count, result count and method mark it
  was built from, its open flags say exactly which counts are open, and the tail call made
  from it keeps the callee, the arguments and the mark.
\<close>

theorem call_encoding_roundtrip:
  assumes "i_call base args results is_method = Some i"
  shows "opcode i = OP_CALL \<and> field_a i = base \<and> call_args i = args \<and> call_results i = results \<and>
    call_is_method i = is_method \<and> (produces_open i \<longleftrightarrow> results = RetAll) \<and>
    (consumes_open i \<longleftrightarrow> args = ArgDynamic) \<and>
    opcode (into_tail_call i) = OP_TAILCALL \<and> field_a (into_tail_call i) = base \<and>
    call_args (into_tail_call i) = args \<and> call_is_method (into_tail_call i) = is_method \<and>
    \<not> produces_open (into_tail_call i) \<and> (consumes_open (into_tail_call i) \<longleftrightarrow> args = ArgDynamic)"
proof -
  obtain n where n: "arg_to_operand args = Some n"
      "i = pack OP_CALL base n (ret_to_operand results) (if is_method then 1 else 0)"
    using assms by (auto simp: i_call_def)
  show ?thesis
    using arg_operand_roundtrip [OF n(1)] arg_operand_open [OF n(1)]
    by (simp add: n(2) call_args_def call_results_def call_is_method_def produces_open_def
        consumes_open_def into_tail_call_def ret_operand_roundtrip ret_operand_open)
qed

theorem call_encoding_roundtrip_witness:
  "\<exists>i. i_call 3 (ArgFixed 2) RetAll True = Some i \<and> call_args (into_tail_call i) = ArgFixed 2"
proof -
  let ?i = "pack OP_CALL 3 2 OPEN_COUNT 1"
  have "i_call 3 (ArgFixed 2) RetAll True = Some ?i"
    by (simp add: i_call_def MAX_FIXED_ARGS_def)
  from call_encoding_roundtrip [OF this] this show ?thesis by blast
qed

text \<open>
  C34. Each arithmetic opcode decodes to its operator and operand kinds; the three forms of
  an operator share its function and make its charge once, and only \<open>^\<close> is kept from the
  constant folder.
\<close>

theorem arithmetic_opcodes_consistent:
  "arith_decode (arith_opcode op operands) = Some (op, operands) \<and>
   arithmetic_op (arith_opcode op operands) = arith_function op \<and> arith_function op \<noteq> None \<and>
   fixed_charge (arith_opcode op operands) = Some (arith_charge op) \<and>
   (arithmetic_fn (arith_opcode op operands) = None \<longleftrightarrow> op = ArithPow) \<and>
   (arith_foldable op \<longleftrightarrow> op \<noteq> ArithPow)"
  unfolding arith_decode_opcode
  by (cases op; cases operands;
      simp add: arith_opcode_def arithmetic_op_def arithmetic_fn_def arith_function_def
        arith_foldable_def fixed_charge_def charging_def)

end
