(* ===== verification/Bytecode.thy ===== *)
theory Bytecode
  imports Instr_Laws
begin

text \<open>
  The compiled function of \<open>compiler.rs\<close> and its cache-slot pass. The Rust struct \<open>Bytecode\<close>
  nests itself through \<open>nested\<close>; here the other fields are the record \<open>chunk\<close> and \<open>bytecode\<close>
  is the tree of chunks. Number literals are the bit patterns of the doubles; strings are byte
  strings.

  Shown here: the pass never meets the panic of the slot encoder, changes only the cache
  operand of an instruction, and is idempotent.
\<close>

datatype upvalue_desc = UpLocal u8 | UpUpvalue u8

record chunk =
  code :: "instr list"
  number_literals :: "u64 list"
  string_literals :: "string list"
  table_templates :: "u16 list list"
  global_cache_slots :: u8
  field_cache_slots :: u8
  set_field_cache_slots :: u8
  tfor_cursor_slots :: u8
  num_params :: u8
  num_locals :: u8
  max_stack :: u16
  upvalues :: "upvalue_desc list"
  is_vararg :: bool
  chunk_name :: "string option"
  defined_line :: u32
  chunk_source :: "string option"
  line_info :: "u32 list"

datatype bytecode = Bytecode (body: chunk) (nested: "bytecode list")

definition default_chunk :: chunk where
  "default_chunk =
     \<lparr> code = [], number_literals = [], string_literals = [], table_templates = [],
       global_cache_slots = 0, field_cache_slots = 0, set_field_cache_slots = 0,
       tfor_cursor_slots = 0, num_params = 0, num_locals = 0, max_stack = 0, upvalues = [],
       is_vararg = False, chunk_name = None, defined_line = 0, chunk_source = None,
       line_info = [] \<rparr>"

section \<open>Cache-slot assignment\<close>

definition allocate :: "nat \<Rightarrow> u8 option \<times> nat" where
  "allocate len =
     (if len \<ge> MAX_CACHE_SLOTS then (None, len) else (Some (of_nat len), len + 1))"

text \<open>
  The four counters and, per string literal, \<^const>\<open>None\<close> until the name's first global read,
  then that read's slot.
\<close>

record slot_state =
  global_slots :: "u8 option option list"
  global_len :: nat
  field_len :: nat
  set_field_len :: nat
  tfor_cursor_len :: nat

definition global_read_slot :: "u16 \<Rightarrow> slot_state \<Rightarrow> u8 option \<times> slot_state" where
  "global_read_slot b st =
     (if unat b < length (global_slots st)
      then (case global_slots st ! unat b of
              Some slot \<Rightarrow> (slot, st)
            | None \<Rightarrow>
                (case allocate (global_len st) of (slot, len) \<Rightarrow>
                   (slot, st\<lparr>global_slots := (global_slots st)[unat b := Some slot],
                            global_len := len\<rparr>)))
      else (None, st))"

text \<open>The slot an instruction receives; \<^const>\<open>None\<close> for the arm that continues.\<close>

definition choose_slot :: "instr \<Rightarrow> slot_state \<Rightarrow> (u8 option \<times> slot_state) option" where
  "choose_slot i st =
     (if opcode i = OP_GET_GLOBAL then Some (global_read_slot (field_b i) st)
      else if opcode i = OP_SET_GLOBAL then
        (case allocate (global_len st) of (s, len) \<Rightarrow> Some (s, st\<lparr>global_len := len\<rparr>))
      else if opcode i = OP_GET_FIELD \<or> opcode i = OP_SELF then
        (case allocate (field_len st) of (s, len) \<Rightarrow> Some (s, st\<lparr>field_len := len\<rparr>))
      else if opcode i = OP_SET_FIELD then
        (case allocate (set_field_len st) of (s, len) \<Rightarrow> Some (s, st\<lparr>set_field_len := len\<rparr>))
      else if opcode i = OP_TFOR_CALL then
        (case allocate (tfor_cursor_len st) of (s, len) \<Rightarrow> Some (s, st\<lparr>tfor_cursor_len := len\<rparr>))
      else None)"

text \<open>The rewriting loop; \<^const>\<open>None\<close> is the panic of the slot encoder.\<close>

fun assign_slots :: "instr list \<Rightarrow> slot_state \<Rightarrow> (instr list \<times> slot_state) option" where
  "assign_slots [] st = Some ([], st)"
| "assign_slots (i # is) st =
     (case choose_slot i st of
        None \<Rightarrow>
          (case assign_slots is st of None \<Rightarrow> None | Some (js, st'') \<Rightarrow> Some (i # js, st''))
      | Some (slot, st') \<Rightarrow>
          (case with_cache_slot i slot of None \<Rightarrow> None
           | Some j \<Rightarrow>
               (case assign_slots is st' of None \<Rightarrow> None | Some (js, st'') \<Rightarrow> Some (j # js, st''))))"

definition initial_slots :: "nat \<Rightarrow> slot_state" where
  "initial_slots strings =
     \<lparr> global_slots = replicate strings None, global_len = 0, field_len = 0,
       set_field_len = 0, tfor_cursor_len = 0 \<rparr>"

definition assign_cache_slots :: "chunk \<Rightarrow> chunk option" where
  "assign_cache_slots bc =
     (case assign_slots (code bc) (initial_slots (length (string_literals bc))) of
        None \<Rightarrow> None
      | Some (js, st) \<Rightarrow>
          Some (bc\<lparr> code := js,
                   global_cache_slots := of_nat (global_len st),
                   field_cache_slots := of_nat (field_len st),
                   set_field_cache_slots := of_nat (set_field_len st),
                   tfor_cursor_slots := of_nat (tfor_cursor_len st) \<rparr>))"

section \<open>The pass is total and idempotent\<close>

lemma encode_allocated: "allocate n = (s, n') \<Longrightarrow> encode_cache_slot s \<noteq> None"
  by (auto simp: allocate_def encode_cache_slot_def MAX_CACHE_SLOTS_def unat_of_nat split: if_splits)

lemma replace_cache_bits:
  fixes w :: u64 and e :: u8
  assumes "\<And>n. bit m n \<longleftrightarrow> n < 8"
  shows "bit ((w AND NOT m) OR ucast e) n \<longleftrightarrow> n < 64 \<and> (if n < 8 then bit e n else bit w n)"
proof -
  have "bit e n \<Longrightarrow> n < 8" "bit w n \<Longrightarrow> n < 64"
    using bit_u8_less [of e n] bit_imp_le_length [of w n] by simp_all
  then show ?thesis
    by (auto simp: bit_or_iff bit_and_iff bit_not_iff bit_ucast_iff assms)
qed

lemma with_cache_slot_pack:
  "with_cache_slot i s =
     map_option (pack (opcode i) (field_a i) (field_b i) (field_c i)) (encode_cache_slot s)"
proof -
  define m :: u64 where "m = 0xFF"
  have bits: "bit ((w AND NOT m) OR ucast e) n \<longleftrightarrow> n < 64 \<and> (if n < 8 then bit e n else bit w n)"
    for w and e :: u8 and n
    by (rule replace_cache_bits) (simp only: m_def bit_mask_numerals)
  have "Instr ((raw i AND NOT m) OR ucast e)
        = pack (opcode i) (field_a i) (field_b i) (field_c i) e" for e
    by (rule instr_eqI; rule bit_word_eqI; simp add: bit_fields bits)
  then show ?thesis by (simp only: with_cache_slot_def m_def)
qed

lemma with_cache_slot_again:
  "with_cache_slot i s = Some j \<Longrightarrow> with_cache_slot j s = Some j"
  by (auto simp: with_cache_slot_pack)

lemma with_cache_slot_keeps:
  assumes "with_cache_slot i s = Some j"
  shows "opcode j = opcode i" "field_a j = field_a i" "field_b j = field_b i"
    "field_c j = field_c i" "cache_slot j = s"
  using assms cache_slot_roundtrip
  by (auto simp: with_cache_slot_pack cache_slot_def)

definition slots_ok :: "slot_state \<Rightarrow> bool" where
  "slots_ok st \<longleftrightarrow> (\<forall>s \<in> set (global_slots st). \<forall>t. s = Some t \<longrightarrow> encode_cache_slot t \<noteq> None)"

lemma choose_slot_encodable:
  assumes "choose_slot i st = Some (s, st')" "slots_ok st"
  shows "encode_cache_slot s \<noteq> None" "slots_ok st'"
proof -
  have none: "encode_cache_slot None \<noteq> None" by (simp add: encode_cache_slot_def)
  show "encode_cache_slot s \<noteq> None"
    using assms none
    by (auto simp: choose_slot_def global_read_slot_def slots_ok_def dest: encode_allocated
      split: if_splits prod.splits option.splits) (metis nth_mem)+
  show "slots_ok st'"
    using assms
    by (auto simp: choose_slot_def global_read_slot_def slots_ok_def dest: encode_allocated
      split: if_splits prod.splits option.splits dest!: set_update_subset_insert [THEN subsetD])
qed

lemma choose_slot_cong:
  "opcode j = opcode i \<Longrightarrow> field_b j = field_b i \<Longrightarrow> choose_slot j st = choose_slot i st"
  by (simp add: choose_slot_def)

definition same_but_slot :: "instr \<Rightarrow> instr \<Rightarrow> bool" where
  "same_but_slot i j \<longleftrightarrow>
     opcode j = opcode i \<and> field_a j = field_a i \<and> field_b j = field_b i \<and> field_c j = field_c i
     \<and> (opcode i \<notin> {OP_GET_GLOBAL, OP_SET_GLOBAL, OP_GET_FIELD, OP_SELF, OP_SET_FIELD, OP_TFOR_CALL}
        \<longrightarrow> j = i)"

lemma same_but_slot_refl [simp]: "same_but_slot i i"
  by (simp add: same_but_slot_def)

lemma assign_slots_total:
  assumes "slots_ok st"
  shows "\<exists>js st'. assign_slots cs st = Some (js, st') \<and> list_all2 same_but_slot cs js
           \<and> assign_slots js st = Some (js, st')"
  using assms
proof (induction cs arbitrary: st)
  case (Cons i cs)
  show ?case
  proof (cases "choose_slot i st")
    case None
    obtain js st' where "assign_slots cs st = Some (js, st')" "list_all2 same_but_slot cs js"
      "assign_slots js st = Some (js, st')"
      using Cons by blast
    then show ?thesis using None by simp
  next
    case (Some r)
    obtain s st1 where r: "r = (s, st1)" by (cases r)
    have ok: "encode_cache_slot s \<noteq> None" "slots_ok st1"
      using choose_slot_encodable Some r Cons.prems by blast+
    then obtain j where j: "with_cache_slot i s = Some j"
      by (auto simp: with_cache_slot_pack)
    note keeps = with_cache_slot_keeps [OF j] with_cache_slot_again [OF j]
    obtain js st' where rest: "assign_slots cs st1 = Some (js, st')" "list_all2 same_but_slot cs js"
      "assign_slots js st1 = Some (js, st')"
      using Cons.IH [OF ok(2)] by blast
    have "choose_slot j st = Some (s, st1)"
      using Some r choose_slot_cong [OF keeps(1,3)] by simp
    moreover have "same_but_slot i j"
      using keeps Some by (auto simp: same_but_slot_def choose_slot_def)
    ultimately show ?thesis
      using Some r j rest keeps by simp
  qed
qed simp

text \<open>
  C25 (compiler.rs, Bytecode::assign_cache_slots): on every chunk the pass succeeds (the slot
  encoder never panics), rewrites nothing but the cache operand of the cache-bearing
  instructions, and is idempotent: running it on its own output changes nothing.
\<close>

theorem assign_cache_slots_total_idempotent:
  "\<exists>bc'. assign_cache_slots bc = Some bc'
      \<and> list_all2 same_but_slot (code bc) (code bc')
      \<and> assign_cache_slots bc' = Some bc'"
proof -
  define st where "st = initial_slots (length (string_literals bc))"
  have "slots_ok st" by (simp add: st_def slots_ok_def initial_slots_def)
  from assign_slots_total [OF this, of "code bc"] obtain js st' where
    "assign_slots (code bc) st = Some (js, st')" "list_all2 same_but_slot (code bc) js"
    "assign_slots js st = Some (js, st')" by blast
  then show ?thesis by (simp add: assign_cache_slots_def st_def)
qed

end
