(* ===== verification/Cost_Analysis.thy ===== *)
theory Cost_Analysis
  imports Bytecode Cost_Meter
begin

text \<open>
  \<open>cost_analysis.rs\<close>: the static cost analysis of a chunk tree and its report. The unit
  counters are \<open>u64\<close> with plain \<open>+=\<close>, so they wrap here; the costs saturate.

  Shown here: pricing the summed units of a scope equals the saturating sum of the prices of
  its instructions, the total cost is that sum over every instruction of the tree, and the
  totals of the report count the units of the whole tree.
\<close>

section \<open>Rendering numbers\<close>

fun decimal :: "nat \<Rightarrow> string" where
  "decimal n = (if n < 10 then [char_of (48 + n)] else decimal (n div 10) @ [char_of (48 + n mod 10)])"

declare decimal.simps [simp del]

section \<open>The analysis\<close>

datatype scope_cost = ScopeCost
  (scope_name: string) (own_cost: u64) (total_cost: u64) (scope_units: "u64 list")
  (call_instructions: u64) (instructions: u64) (scope_nested: "scope_cost list")

definition units_of :: "scope_cost \<Rightarrow> charge \<Rightarrow> u64" where
  "units_of scope c = scope_units scope ! discriminant c"

definition has_counts :: "scope_cost \<Rightarrow> bool" where
  "has_counts scope \<longleftrightarrow> call_instructions scope > 0 \<or> list_ex (\<lambda>units. units > 0) (scope_units scope)"

definition price :: "u64 list \<Rightarrow> cost_model \<Rightarrow> u64" where
  "price units model =
     fold (\<lambda>c total. sat_add total (model_cost model c (units ! discriminant c))) charge_ALL 0"

text \<open>The counting loop over a chunk: the units, the call instructions and the instructions.\<close>

definition count_instr :: "instr \<Rightarrow> u64 list \<times> u64 \<times> u64 \<Rightarrow> u64 list \<times> u64 \<times> u64" where
  "count_instr i acc = (case acc of (units, calls, n) \<Rightarrow>
     ((case static_units i of
         None \<Rightarrow> units
       | Some (c, u) \<Rightarrow> units[discriminant c := units ! discriminant c + u]),
      (if opcode i = OP_CALL \<or> opcode i = OP_TAILCALL then calls + 1 else calls),
      n + 1))"

definition count_chunk :: "instr list \<Rightarrow> u64 list \<times> u64 \<times> u64" where
  "count_chunk is = fold count_instr is (replicate charge_COUNT 0, 0, 0)"

text \<open>Anonymous functions are numbered among themselves.\<close>

fun nested_names :: "nat \<Rightarrow> bytecode list \<Rightarrow> string list" where
  "nested_names anonymous_count [] = []"
| "nested_names anonymous_count (b # bs) =
     (case chunk_name (body b) of
        Some name \<Rightarrow> name # nested_names anonymous_count bs
      | None \<Rightarrow> (''anonymous #'' @ decimal (anonymous_count + 1)) # nested_names (anonymous_count + 1) bs)"

lemma nested_zip_size [termination_simp]:
  "(nm, b) \<in> set (zip names bs) \<Longrightarrow> size b < Suc (size_list size bs)"
  by (metis set_zip_rightD less_Suc_eq_le order_refl size_list_estimation')

fun analyze_chunk :: "cost_model \<Rightarrow> string \<Rightarrow> bytecode \<Rightarrow> scope_cost" where
  "analyze_chunk model name (Bytecode c bs) =
     (case count_chunk (code c) of (units, calls, n) \<Rightarrow>
        let own = price units model;
            nested_scopes = map (\<lambda>(nm, b). analyze_chunk model nm b) (zip (nested_names 0 bs) bs)
        in ScopeCost name own
             (fold (\<lambda>s total. sat_add total (total_cost s)) nested_scopes own)
             units calls n nested_scopes)"

record cost_analysis =
  root :: scope_cost
  analysis_model :: cost_model

definition analyze :: "bytecode \<Rightarrow> cost_model \<Rightarrow> cost_analysis" where
  "analyze chunk model = \<lparr> root = analyze_chunk model ''main'' chunk, analysis_model = model \<rparr>"

section \<open>Totals\<close>

record scope_totals =
  total_units :: "u64 list"
  total_calls :: u64
  total_instructions :: u64
  function_count :: u64

fun accumulate :: "scope_cost \<Rightarrow> scope_totals \<Rightarrow> scope_totals" where
  "accumulate (ScopeCost nm own tot units calls n ns) t =
     fold accumulate ns
       (t\<lparr> total_units := map2 (+) (total_units t) units,
           total_calls := total_calls t + calls,
           total_instructions := total_instructions t + n,
           function_count := function_count t + of_nat (length ns) \<rparr>)"

definition totals :: "cost_analysis \<Rightarrow> scope_totals" where
  "totals a = accumulate (root a)
     \<lparr> total_units = replicate charge_COUNT 0, total_calls = 0, total_instructions = 0,
       function_count = 0 \<rparr>"

section \<open>The report\<close>

definition COST_MODEL_VERSION :: u16 where
  "COST_MODEL_VERSION = 8"

definition show_u64 :: "u64 \<Rightarrow> string" where
  "show_u64 n = decimal (unat n)"

abbreviation newline :: string where
  "newline \<equiv> [CHR 0x0A]"

definition pad :: "nat \<Rightarrow> string" where
  "pad indent = concat (replicate indent ''  '')"

fun fmt_indent :: "nat \<Rightarrow> scope_cost \<Rightarrow> string" where
  "fmt_indent indent (ScopeCost nm own tot units calls n ns) =
     (if own = 0 \<and> ns = [] \<and> \<not> has_counts (ScopeCost nm own tot units calls n ns)
      then pad indent @ nm @ '': cost 0 (static)'' @ newline
      else
        (if ns = [] then pad indent @ nm @ '': cost '' @ show_u64 own @ newline
         else pad indent @ nm @ '': cost '' @ show_u64 own @ '' (own) / '' @ show_u64 tot
              @ '' (total)'' @ newline)
        @ concat (map (\<lambda>c. let u = units_of (ScopeCost nm own tot units calls n ns) c
                           in if u > 0 then pad (indent + 1) @ charge_name c @ '': '' @ show_u64 u @ newline
                              else []) charge_ALL)
        @ (if calls > 0 then pad (indent + 1) @ ''call instructions: '' @ show_u64 calls @ newline else [])
        @ concat (map (fmt_indent (indent + 1)) ns))"

text \<open>The weights that differ from the default model, separated by commas.\<close>

fun write_weights :: "string \<Rightarrow> (charge \<times> u32) list \<Rightarrow> string" where
  "write_weights separator [] = []"
| "write_weights separator ((c, w) # rest) =
     (if w \<noteq> model_weight model_DEFAULT c
      then separator @ charge_name c @ '' = '' @ decimal (unat w) @ write_weights '', '' rest
      else write_weights separator rest)"

definition write_model :: "cost_analysis \<Rightarrow> string" where
  "write_model a =
     ''Cost model: version '' @ decimal (unat COST_MODEL_VERSION) @ '', '' @
     (if analysis_model a = model_DEFAULT then ''every weight 1'' @ newline
      else ''weights 1 except'' @ write_weights '' '' (model_iter (analysis_model a)) @ newline)"

definition fmt_analysis :: "cost_analysis \<Rightarrow> string" where
  "fmt_analysis a =
     (let t = totals a in
      ''=== Cost Analysis ==='' @ newline @ newline
      @ ''Static cost estimate: '' @ show_u64 (total_cost (root a)) @ newline
      @ write_model a @ newline
      @ ''--- Costed Operations ---'' @ newline
      @ concat (map (\<lambda>(c, w). let units = total_units t ! discriminant c
                    in if units > 0
                       then ''  '' @ charge_name c @ '': '' @ show_u64 units @ '' x '' @ decimal (unat w)
                            @ '' = '' @ show_u64 (model_cost (analysis_model a) c units) @ newline
                       else []) (model_iter (analysis_model a)))
      @ newline @ ''--- Statistics ---'' @ newline
      @ ''  Total instructions:   '' @ show_u64 (total_instructions t) @ newline
      @ ''  Function definitions: '' @ show_u64 (function_count t) @ newline
      @ ''  Call instructions:    '' @ show_u64 (total_calls t) @ newline
      @ newline @ ''--- Per-Scope Breakdown ---'' @ newline
      @ fmt_indent 0 (root a))"

section \<open>Sums of units and prices\<close>

text \<open>The units of one charge an instruction makes, and its exact price.\<close>

definition instr_units :: "charge \<Rightarrow> instr \<Rightarrow> u64" where
  "instr_units c i = (case static_units i of Some (c', u) \<Rightarrow> if c' = c then u else 0 | None \<Rightarrow> 0)"

definition exact_price :: "cost_model \<Rightarrow> instr \<Rightarrow> int" where
  "exact_price m i =
     (case static_units i of Some (c, u) \<Rightarrow> uint u * uint (model_weight m c) | None \<Rightarrow> 0)"

definition is_call :: "instr \<Rightarrow> bool" where
  "is_call i \<longleftrightarrow> opcode i = OP_CALL \<or> opcode i = OP_TAILCALL"

fun tree_code :: "bytecode \<Rightarrow> instr list" where
  "tree_code (Bytecode c bs) = code c @ concat (map tree_code bs)"

fun nested_functions :: "bytecode \<Rightarrow> nat" where
  "nested_functions (Bytecode c bs) = length bs + sum_list (map nested_functions bs)"

text \<open>No unit counter of a scope overflows.\<close>

definition code_units :: "charge \<Rightarrow> instr list \<Rightarrow> int" where
  "code_units c is = sum_list (map (\<lambda>i. uint (instr_units c i)) is)"

fun units_fit :: "bytecode \<Rightarrow> bool" where
  "units_fit (Bytecode c bs) \<longleftrightarrow>
     list_all (\<lambda>ch. code_units ch (code c) < 2 ^ 64) charge_ALL \<and> list_all units_fit bs"

lemma code_units_Cons: "code_units c (i # cs) = uint (instr_units c i) + code_units c cs"
  and code_units_Nil [simp]: "code_units c [] = 0"
  by (simp_all add: code_units_def)

lemma code_units_nonneg: "0 \<le> code_units c cs"
  by (induction cs) (simp_all add: code_units_Cons)

text \<open>The counting loop, in words: every counter wraps consistently with the sum.\<close>

lemma count_fold:
  assumes "fold count_instr cs (us, k, n) = (us', k', n')" "length us = 46"
  shows "length us' = 46"
    and "us' ! discriminant c = us ! discriminant c + sum_list (map (instr_units c) cs)"
    and "k' = k + of_nat (length (filter is_call cs))"
    and "n' = n + of_nat (length cs)"
proof -
  have "length us' = 46
      \<and> us' ! discriminant c = us ! discriminant c + sum_list (map (instr_units c) cs)
      \<and> k' = k + of_nat (length (filter is_call cs)) \<and> n' = n + of_nat (length cs)"
    using assms
  proof (induction cs arbitrary: us k n)
    case (Cons i cs)
    define r where "r = count_instr i (us, k, n)"
    obtain us1 k1 n1 where r: "r = (us1, k1, n1)" by (cases r)
    have step: "length us1 = 46" "us1 ! discriminant c = us ! discriminant c + instr_units c i"
      "k1 = k + (if is_call i then 1 else 0)" "n1 = n + 1"
      using Cons.prems(2) r
      by (auto simp: r_def count_instr_def instr_units_def is_call_def nth_list_update
          split: option.splits prod.splits if_splits)
    have "fold count_instr cs (us1, k1, n1) = (us', k', n')"
      using Cons.prems(1) r by (simp add: r_def)
    from Cons.IH [OF this step(1)] step show ?case by (simp add: ac_simps)
  qed simp
  then show "length us' = 46"
    and "us' ! discriminant c = us ! discriminant c + sum_list (map (instr_units c) cs)"
    and "k' = k + of_nat (length (filter is_call cs))" and "n' = n + of_nat (length cs)"
    by blast+
qed

lemma uint_sum_units:
  assumes "code_units c cs < 2 ^ 64"
  shows "uint (sum_list (map (instr_units c) cs)) = code_units c cs"
  using assms
proof (induction cs)
  case (Cons i cs)
  have "code_units c cs < 2 ^ 64"
    using Cons.prems uint_u64_bounds(1) [of "instr_units c i"] unfolding code_units_Cons by linarith
  then have "uint (sum_list (map (instr_units c) cs)) = code_units c cs"
    by (rule Cons.IH)
  moreover have "uint (instr_units c i + w) = uint (instr_units c i) + uint w"
    if "uint (instr_units c i) + uint w < 2 ^ 64" for w
    using that by (simp add: uint_add_lem [THEN iffD1])
  ultimately show ?case
    using Cons.prems by (simp add: code_units_Cons)
qed simp

lemma count_chunk_units:
  assumes "count_chunk cs = (us, k, n)"
  shows "us ! discriminant c = sum_list (map (instr_units c) cs)" and "length us = 46"
    and "k = of_nat (length (filter is_call cs))" and "n = of_nat (length cs)"
  using count_fold(2) [OF assms [unfolded count_chunk_def], of c]
    count_fold(1,3,4) [OF assms [unfolded count_chunk_def]] by simp_all

text \<open>Saturating sums are the exact sum capped.\<close>

lemma uint_fold_sat:
  assumes "\<And>x. x \<in> set xs \<Longrightarrow> uint (f x) = min (2 ^ 64 - 1) (e x)"
    and "\<And>x. x \<in> set xs \<Longrightarrow> 0 \<le> (e x :: int)"
    and "uint t = min (2 ^ 64 - 1) a" and "0 \<le> a"
  shows "uint (fold (\<lambda>x total. sat_add total (f x)) xs (t :: u64)) =
    min (2 ^ 64 - 1) (a + sum_list (map e xs))"
  using assms
proof (induction xs arbitrary: t a)
  case (Cons x xs)
  have "uint (sat_add t (f x)) = min (2 ^ 64 - 1) (a + e x)"
  proof -
    have "uint (f x) = min (2 ^ 64 - 1) (e x)" "0 \<le> e x"
      using Cons.prems(1,2) by simp_all
    then show ?thesis
      using Cons.prems(3,4) by (auto simp: uint_sat_add min_def)
  qed
  then have "uint (fold (\<lambda>x total. sat_add total (f x)) xs (sat_add t (f x))) =
      min (2 ^ 64 - 1) (a + e x + sum_list (map e xs))"
    using Cons.prems by (intro Cons.IH) simp_all
  then show ?case by (simp add: ac_simps)
qed simp

lemma sum_list_charge: "sum_list (map f charge_ALL) = (\<Sum>c \<in> UNIV. f c)" for f :: "charge \<Rightarrow> int"
  by (simp add: sum_list_distinct_conv_sum_set distinct_charge_ALL)

lemma exact_price_sum:
  "(\<Sum>c \<in> UNIV. uint (instr_units c i) * uint (model_weight m c)) = exact_price m i"
proof (cases "static_units i")
  case (Some r)
  obtain d u where "r = (d, u)" by (cases r)
  then have "uint (instr_units c i) * uint (model_weight m c)
      = (if c = d then uint u * uint (model_weight m c) else 0)" for c
    using Some by (simp add: instr_units_def)
  then show ?thesis
    using Some \<open>r = (d, u)\<close> by (simp add: exact_price_def)
qed (simp add: instr_units_def exact_price_def)

lemma code_units_price:
  "(\<Sum>c \<in> UNIV. code_units c cs * uint (model_weight m c)) = sum_list (map (exact_price m) cs)"
  by (induction cs)
    (simp_all add: code_units_Cons distrib_right sum.distrib exact_price_sum)

lemma exact_price_nonneg: "0 \<le> exact_price m i"
  by (simp add: exact_price_def split: option.splits)

lemma sum_price_nonneg: "0 \<le> sum_list (map (exact_price m) cs)"
  by (auto intro!: sum_list_nonneg simp: exact_price_nonneg)

text \<open>The one pricing rule, on the counters of a chunk.\<close>

lemma uint_price_chunk:
  assumes "count_chunk cs = (us, k, n)" and "\<And>c. code_units c cs < 2 ^ 64"
  shows "uint (price us m) = min (2 ^ 64 - 1) (sum_list (map (exact_price m) cs))"
proof -
  have "uint (model_cost m c (us ! discriminant c))
      = min (2 ^ 64 - 1) (code_units c cs * uint (model_weight m c))" for c
    by (simp only: uint_model_cost count_chunk_units(1) [OF assms(1)] uint_sum_units [OF assms(2)])
  then have "uint (price us m) =
      min (2 ^ 64 - 1) (0 + sum_list (map (\<lambda>c. code_units c cs * uint (model_weight m c)) charge_ALL))"
    unfolding price_def by (intro uint_fold_sat) (simp_all add: code_units_nonneg)
  then show ?thesis by (simp add: sum_list_charge code_units_price)
qed

lemma length_nested_names [simp]: "length (nested_names k bs) = length bs"
  by (induction bs arbitrary: k) (simp_all split: option.splits)

lemma sum_list_map_concat:
  "sum_list (map f (concat (map g bs))) = sum_list (map (\<lambda>b. sum_list (map f (g b))) bs)"
  for f :: "'a \<Rightarrow> int"
  by (induction bs) simp_all

lemma analyze_chunk_costs:
  assumes "units_fit bc"
  shows "uint (own_cost (analyze_chunk m nm bc))
           = min (2 ^ 64 - 1) (sum_list (map (exact_price m) (code (body bc))))
       \<and> uint (total_cost (analyze_chunk m nm bc))
           = min (2 ^ 64 - 1) (sum_list (map (exact_price m) (tree_code bc)))"
  using assms
proof (induction bc arbitrary: nm)
  case (Bytecode c bs)
  define e where "e = (\<lambda>b. sum_list (map (exact_price m) (tree_code b)))"
  obtain us k n where cnt: "count_chunk (code c) = (us, k, n)"
    by (cases "count_chunk (code c)")
  have own: "uint (price us m) = min (2 ^ 64 - 1) (sum_list (map (exact_price m) (code c)))"
    using uint_price_chunk [OF cnt] Bytecode.prems by (simp add: list_all_iff)
  define scopes where
    "scopes = map (\<lambda>(nm, b). analyze_chunk m nm b) (zip (nested_names 0 bs) bs)"
  have total: "uint (fold (\<lambda>s total. sat_add total (total_cost s)) scopes (price us m))
      = min (2 ^ 64 - 1) (sum_list (map (exact_price m) (code c)) + sum_list (map (\<lambda>p. e (snd p)) (zip (nested_names 0 bs) bs)))"
  proof -
    have "fold (\<lambda>s total. sat_add total (total_cost s)) scopes t
        = fold (\<lambda>p total. sat_add total (total_cost (analyze_chunk m (fst p) (snd p))))
            (zip (nested_names 0 bs) bs) t" for t
      by (simp add: scopes_def fold_map comp_def case_prod_unfold)
    moreover have "uint (total_cost (analyze_chunk m (fst p) (snd p))) = min (2 ^ 64 - 1) (e (snd p))"
      if "p \<in> set (zip (nested_names 0 bs) bs)" for p
    proof -
      have "snd p \<in> set bs" using that by (metis set_zip_rightD surjective_pairing)
      then show ?thesis using Bytecode by (simp add: e_def list_all_iff)
    qed
    ultimately show ?thesis
      by (simp only:) (rule uint_fold_sat [OF _ _ own sum_price_nonneg],
        simp_all add: e_def sum_price_nonneg)
  qed
  have "map (\<lambda>p. e (snd p)) (zip (nested_names 0 bs) bs) = map e bs"
  proof -
    have "map (\<lambda>p. e (snd p)) (zip (nested_names 0 bs) bs) = map e (map snd (zip (nested_names 0 bs) bs))"
      by (simp only: map_map comp_def)
    then show ?thesis by (simp only: map_snd_zip length_nested_names)
  qed
  then have "uint (fold (\<lambda>s total. sat_add total (total_cost s)) scopes (price us m))
      = min (2 ^ 64 - 1) (sum_list (map (exact_price m) (tree_code (Bytecode c bs))))"
    using total by (simp add: e_def sum_list_map_concat)
  then show ?case using cnt own by (simp add: scopes_def Let_def)
qed


text \<open>The totals of the report, in words: what walking \<open>cs\<close> with \<open>f\<close> functions adds.\<close>

definition tallied :: "charge \<Rightarrow> instr list \<Rightarrow> nat \<Rightarrow> scope_totals \<Rightarrow> scope_totals \<Rightarrow> bool" where
  "tallied c cs f t t' \<longleftrightarrow>
     length (total_units t') = 46
     \<and> total_units t' ! discriminant c = total_units t ! discriminant c + sum_list (map (instr_units c) cs)
     \<and> total_calls t' = total_calls t + of_nat (length (filter is_call cs))
     \<and> total_instructions t' = total_instructions t + of_nat (length cs)
     \<and> function_count t' = function_count t + of_nat f"

lemma tallied_trans:
  "tallied c xs f t t' \<Longrightarrow> tallied c ys g t' t'' \<Longrightarrow> tallied c (xs @ ys) (f + g) t t''"
  by (simp add: tallied_def)

lemma tallied_fold:
  assumes "\<And>s b t. (s, b) \<in> set (zip ss bs) \<Longrightarrow> length (total_units t) = 46
      \<Longrightarrow> tallied c (tree_code b) (nested_functions b) t (accumulate s t)"
    and "length ss = length bs" and "length (total_units t) = 46"
  shows "tallied c (concat (map tree_code bs)) (sum_list (map nested_functions bs)) t
           (fold accumulate ss t)"
  using assms(2,1,3)
proof (induction ss bs arbitrary: t rule: list_induct2)
  case (Cons s ss b bs)
  have step: "tallied c (tree_code b) (nested_functions b) t (accumulate s t)"
    using Cons.prems by simp
  then have "length (total_units (accumulate s t)) = 46" by (simp add: tallied_def)
  then have "tallied c (concat (map tree_code bs)) (sum_list (map nested_functions bs))
      (accumulate s t) (fold accumulate ss (accumulate s t))"
    using Cons.prems(1) by (intro Cons.IH) simp_all
  with step show ?case using tallied_trans by fastforce
qed (simp add: tallied_def)

lemma accumulate_analysis:
  "length (total_units t) = 46 \<Longrightarrow>
     tallied c (tree_code bc) (nested_functions bc) t (accumulate (analyze_chunk m nm bc) t)"
proof (induction bc arbitrary: nm t)
  case (Bytecode ch bs)
  obtain us k n where cnt: "count_chunk (code ch) = (us, k, n)"
    by (cases "count_chunk (code ch)")
  define scopes where
    "scopes = map (\<lambda>(nm, b). analyze_chunk m nm b) (zip (nested_names 0 bs) bs)"
  define t1 where
    "t1 = t\<lparr> total_units := map2 (+) (total_units t) us, total_calls := total_calls t + k,
             total_instructions := total_instructions t + n,
             function_count := function_count t + of_nat (length scopes) \<rparr>"
  have len: "length scopes = length bs" by (simp add: scopes_def)
  have own: "tallied c (code ch) (length bs) t t1"
    using Bytecode.prems count_chunk_units(1) [OF cnt, of c] count_chunk_units(2-4) [OF cnt] len
    by (simp add: tallied_def t1_def)
  have "tallied c (concat (map tree_code bs)) (sum_list (map nested_functions bs)) t1
      (fold accumulate scopes t1)"
  proof (rule tallied_fold)
    fix s b and u :: scope_totals
    assume sb: "(s, b) \<in> set (zip scopes bs)" and u: "length (total_units u) = 46"
    then obtain nm' where "s = analyze_chunk m nm' b" "b \<in> set bs"
      by (auto simp: scopes_def set_zip)
    then show "tallied c (tree_code b) (nested_functions b) u (accumulate s u)"
      using Bytecode.IH u by simp
  qed (use own len in \<open>simp_all add: tallied_def\<close>)
  from tallied_trans [OF own this] show ?case
    using cnt by (simp add: scopes_def t1_def Let_def)
qed

text \<open>
  C24 (cost_analysis.rs): the static estimate is exact up to saturation. Where no unit counter
  of a scope overflows, the root's own cost is the sum over the instructions of the main chunk
  of units times weight, and its total cost that sum over every instruction of the whole tree,
  both capped at the largest \<open>u64\<close>; so pricing summed units equals summing per-instruction
  prices, saturation included.
\<close>

theorem static_estimate_exact:
  assumes "units_fit bc"
  shows "uint (own_cost (root (analyze bc m)))
           = min (2 ^ 64 - 1) (sum_list (map (exact_price m) (code (body bc))))
       \<and> uint (total_cost (root (analyze bc m)))
           = min (2 ^ 64 - 1) (sum_list (map (exact_price m) (tree_code bc)))"
  using analyze_chunk_costs [OF assms] by (simp add: analyze_def)

definition sample_tree :: bytecode where
  "sample_tree =
     Bytecode (default_chunk\<lparr>code := [i_new_table 0, i_arith ArithAdd RegReg 0 1 2, i_ret 0 (RetFixed 0)]\<rparr>)
       [Bytecode (default_chunk\<lparr>code := [i_set_list 0 (Some 3) 0, i_ret 0 (RetFixed 0)]\<rparr>) []]"

text \<open>The estimate of a small tree at the default weights: two in the main chunk, three nested.\<close>

theorem static_estimate_exact_witness:
  "uint (own_cost (root (analyze sample_tree model_DEFAULT))) = 2
   \<and> uint (total_cost (root (analyze sample_tree model_DEFAULT))) = 5"
proof -
  have units: "static_units (i_new_table 0) = Some (NewTable, 1)"
    "static_units (i_arith ArithAdd RegReg 0 1 2) = Some (Add, 1)"
    "static_units (i_set_list 0 (Some 3) 0) = Some (ArrayElement, 3)"
    "static_units (i_ret 0 (RetFixed 0)) = None"
    by (simp_all add: constructor_defs static_units_def charging_def set_list_count_def arith_opcode_def OPEN_COUNT_def SET_LIST_ELEMENT_CHARGE_def)
  have fit: "units_fit sample_tree"
    by (simp add: sample_tree_def code_units_def instr_units_def units charge_ALL_def default_chunk_def)
  show ?thesis using static_estimate_exact [OF fit, of model_DEFAULT]
    by (simp add: sample_tree_def exact_price_def units default_chunk_def)
qed

text \<open>
  C35 (cost_analysis.rs, ScopeCost::accumulate): the totals of the report count, in wrapping
  64-bit arithmetic, the units of every charge, the call instructions and the instructions of
  the whole chunk tree, and the functions nested anywhere in it.
\<close>

theorem report_totals:
  "total_units (totals (analyze bc m)) ! discriminant c = sum_list (map (instr_units c) (tree_code bc))
   \<and> total_calls (totals (analyze bc m)) = of_nat (length (filter is_call (tree_code bc)))
   \<and> total_instructions (totals (analyze bc m)) = of_nat (length (tree_code bc))
   \<and> function_count (totals (analyze bc m)) = of_nat (nested_functions bc)"
proof -
  define t where "t = \<lparr> total_units = replicate charge_COUNT (0 :: u64), total_calls = 0,
     total_instructions = 0, function_count = 0 \<rparr>"
  have "length (total_units t) = 46" by (simp add: t_def)
  from accumulate_analysis [OF this, of c bc m "''main''"] show ?thesis
    by (simp add: tallied_def totals_def analyze_def t_def)
qed

end
