(* ===== verification/Verify.thy ===== *)
theory Verify
  imports Bytecode
begin

text \<open>
  \<open>compiler/verify.rs\<close>: the bytecode verifier that admits a compiled or restored function
  body. The trait \<open>BytecodeView\<close> is the record \<open>bytecode_view\<close> of what its methods return;
  \<open>view_of\<close> is the implementation for \<open>Bytecode\<close>. Indices and lengths are natural numbers: the
  checked additions of the source cannot overflow on lengths that fit in memory.

  The properties the verifier establishes are in the theory \<open>Verify_Sound\<close>.
\<close>

section \<open>Rejections\<close>

datatype bytecode_operand =
  OperandNumberLiteral | OperandStringLiteral | OperandTableTemplate | OperandNestedChunk | OperandUpvalue

datatype bytecode_pool = PoolTableTemplate | PoolNestedChunk | PoolUpvalueDescriptor | PoolLiteral

datatype cache_family = FamilyField | FamilySetField | FamilyTforCursor

datatype validation_reason =
    ChildUpvalueInvalid | ChunkDepthExceeded | RegisterOutOfRange | FrameTooSmall
  | FrameSizeUnencodable | CountOperandInvalid | OpenResultsNotConsumed
  | OpenResultsWithoutProducer | JumpTargetOutOfRange | BackwardLoopExit | EmptyCode
  | LineInfoLengthMismatch | MissingFinalReturn | UnknownOpcode | GlobalCacheSlotOrder
  | BuiltinSlotOutOfRange | TforCallWithoutResults | TforCallResultCountExceeded
  | VarargInNonVarargFunction | BooleanOperandInvalid | ConcatTooFewValues
  | CacheSlotCountMismatch | IndexOutOfRange bytecode_operand | TooMany bytecode_pool nat
  | TableTemplateTooLarge | FrameSlotCountExceeded | TemplateKeyInvalid nat
  | TemplateKeyDuplicate nat | CacheSlotOrder cache_family | ReservedBitsNonZero u8 u64

record validation_error =
  instruction :: "u32 option"
  reason :: validation_reason

definition err :: "nat option \<Rightarrow> validation_reason \<Rightarrow> validation_error" where
  "err pc r = \<lparr> instruction = map_option of_nat pc, reason = r \<rparr>"

section \<open>The view of a function\<close>

record bytecode_view =
  view_code :: "u64 list"
  view_numbers :: nat
  view_strings :: "string list"
  view_templates :: "u16 list list"
  view_global_slots :: u8
  view_field_slots :: u8
  view_set_field_slots :: u8
  view_tfor_slots :: u8
  view_params :: u8
  view_locals :: u8
  view_max_stack :: u16
  view_nested :: nat
  view_upvalues :: "upvalue_desc list"
  view_vararg :: bool
  view_lines :: nat

definition view_of :: "bytecode \<Rightarrow> bytecode_view" where
  "view_of b =
     (let bc = body b in
      \<lparr> view_code = map raw (code bc), view_numbers = length (number_literals bc),
        view_strings = string_literals bc, view_templates = table_templates bc,
        view_global_slots = global_cache_slots bc, view_field_slots = field_cache_slots bc,
        view_set_field_slots = set_field_cache_slots bc, view_tfor_slots = tfor_cursor_slots bc,
        view_params = num_params bc, view_locals = num_locals bc, view_max_stack = max_stack bc,
        view_nested = length (nested b), view_upvalues = upvalues bc, view_vararg = is_vararg bc,
        view_lines = length (line_info bc) \<rparr>)"

definition code_len :: "bytecode_view \<Rightarrow> nat" where
  "code_len view = length (view_code view)"

definition inst_at :: "bytecode_view \<Rightarrow> nat \<Rightarrow> instr" where
  "inst_at view pc = from_raw (view_code view ! pc)"

section \<open>Chunk trees\<close>

definition validate_child :: "bytecode_view \<Rightarrow> bytecode_view \<Rightarrow> validation_error + unit" where
  "validate_child parent child =
     for_each
       (\<lambda>up. ensure
          (case up of
             UpLocal slot \<Rightarrow> unat slot < unat (view_params parent) + unat (view_locals parent)
           | UpUpvalue slot \<Rightarrow> unat slot < length (view_upvalues parent))
          (err None ChildUpvalueInvalid))
       (view_upvalues child)"

definition validate_depth :: "nat \<Rightarrow> validation_error + unit" where
  "validate_depth depth = ensure (\<not> depth > MAX_CHUNK_NESTING) (err None ChunkDepthExceeded)"

section \<open>Operand checks\<close>

definition check_index :: "nat \<Rightarrow> u16 \<Rightarrow> nat \<Rightarrow> bytecode_operand \<Rightarrow> validation_error + unit" where
  "check_index pc value len operand = ensure (unat value < len) (err (Some pc) (IndexOutOfRange operand))"

definition check_registers :: "nat \<Rightarrow> u16 \<Rightarrow> nat \<Rightarrow> nat \<Rightarrow> validation_error + unit" where
  "check_registers pc first count frame =
     ensure (unat first + count \<le> frame) (err (Some pc) RegisterOutOfRange)"

definition count_operand :: "nat \<Rightarrow> u16 \<Rightarrow> nat \<Rightarrow> validation_error + nat option" where
  "count_operand pc value limit =
     (if value = OPEN_COUNT then Inr None
      else if unat value \<le> limit then Inr (Some (unat value))
      else Inl (err (Some pc) CountOperandInvalid))"

definition jump_target :: "nat \<Rightarrow> instr \<Rightarrow> nat \<Rightarrow> nat option" where
  "jump_target pc inst len =
     (let target = int pc + 1 + sint (sj inst)
      in if 0 \<le> target \<and> target < int len then Some (nat target) else None)"

definition open_window_fits :: "instr \<Rightarrow> instr \<Rightarrow> bool" where
  "open_window_fits consumer producer =
     (let first = (if opcode consumer \<in> {OP_CALL, OP_TAILCALL, OP_SET_LIST}
                   then unat (field_a consumer) + 1 else unat (field_a consumer))
      in first \<le> unat (field_a producer))"

text \<open>The length of the pool an operand indexes, and the name of that pool.\<close>

fun pool_length :: "bytecode_view \<Rightarrow> operand_pool \<Rightarrow> nat \<times> bytecode_operand" where
  "pool_length view PoolNumber = (view_numbers view, OperandNumberLiteral)"
| "pool_length view PoolString = (length (view_strings view), OperandStringLiteral)"
| "pool_length view PoolTemplate = (length (view_templates view), OperandTableTemplate)"
| "pool_length view PoolNested = (view_nested view, OperandNestedChunk)"
| "pool_length view PoolUpvalue = (length (view_upvalues view), OperandUpvalue)"

definition check_pool :: "bytecode_view \<Rightarrow> nat \<Rightarrow> instr \<Rightarrow> validation_error + unit" where
  "check_pool view pc inst =
     (case pool_operand inst of
        None \<Rightarrow> Inl (err (Some pc) UnknownOpcode)
      | Some (pool, index) \<Rightarrow>
          (case pool_length view pool of (len, operand) \<Rightarrow> check_index pc index len operand))"

definition check_reg :: "bytecode_view \<Rightarrow> nat \<Rightarrow> u16 \<Rightarrow> validation_error + unit" where
  "check_reg view pc value = check_registers pc value 1 (unat (view_max_stack view))"

section \<open>Chunk metadata\<close>

definition validate_limits :: "bytecode_view \<Rightarrow> validation_error + unit" where
  "validate_limits view =
     (let slots = unat (view_params view) + unat (view_locals view);
          frame = unat (view_max_stack view)
      in for_each (\<lambda>(ok, r). ensure ok (err None r))
           [(code_len view \<noteq> 0, EmptyCode),
            (view_lines view = code_len view, LineInfoLengthMismatch),
            (\<not> length (view_templates view) > MAX_TABLE_TEMPLATES,
               TooMany PoolTableTemplate MAX_TABLE_TEMPLATES),
            (\<not> view_nested view > MAX_NESTED, TooMany PoolNestedChunk MAX_NESTED),
            (\<not> length (view_upvalues view) > MAX_UPVALUES, TooMany PoolUpvalueDescriptor MAX_UPVALUES),
            (\<not> (view_numbers view > MAX_LITERALS \<or> length (view_strings view) > MAX_LITERALS),
               TooMany PoolLiteral MAX_LITERALS),
            (\<not> list_ex (\<lambda>t. length t > MAX_TABLE_TEMPLATE_FIELDS) (view_templates view),
               TableTemplateTooLarge),
            (\<not> slots > MAX_FRAME_SLOTS, FrameSlotCountExceeded),
            (view_max_stack view \<noteq> OPEN_COUNT, FrameSizeUnencodable),
            (\<not> frame < slots, FrameTooSmall)])"

definition validate_final_return :: "bytecode_view \<Rightarrow> validation_error + unit" where
  "validate_final_return view =
     ensure (opcode (inst_at view (code_len view - 1)) = OP_RETURN)
       (err (Some (code_len view - 1)) MissingFinalReturn)"

text \<open>The keys of one template, compared by content with the set seen so far.\<close>

fun check_template :: "string list \<Rightarrow> nat \<Rightarrow> string set \<Rightarrow> u16 list \<Rightarrow> validation_error + unit" where
  "check_template strings idx seen [] = Inr ()"
| "check_template strings idx seen (key # keys) =
     (if unat key < length strings
      then let bytes = strings ! unat key
           in if bytes \<in> seen then Inl (err None (TemplateKeyDuplicate idx))
              else check_template strings idx (insert bytes seen) keys
      else Inl (err None (TemplateKeyInvalid idx)))"

definition validate_templates :: "bytecode_view \<Rightarrow> validation_error + unit" where
  "validate_templates view =
     for_each (\<lambda>(idx, template). check_template (view_strings view) idx {} template)
       (enumerate 0 (view_templates view))"

text \<open>The jump targets of the whole body.\<close>

definition mark_target :: "bytecode_view \<Rightarrow> nat \<Rightarrow> bool list \<Rightarrow> validation_error + bool list" where
  "mark_target view pc targeted =
     (let inst = inst_at view pc
      in if is_transfer (opcode inst)
         then (case jump_target pc inst (code_len view) of
                 Some target \<Rightarrow> Inr (targeted[target := True])
               | None \<Rightarrow> Inl (err (Some pc) JumpTargetOutOfRange))
         else Inr targeted)"

definition jump_targets :: "bytecode_view \<Rightarrow> validation_error + bool list" where
  "jump_targets view =
     fold_result (mark_target view) [0..<code_len view] (replicate (code_len view) False)"

section \<open>Cache slots\<close>

record verify_state =
  seen_global_slots :: "nat option list"
  next_global :: nat
  next_field :: nat
  next_set_field :: nat
  next_tfor :: nat

definition initial_state :: "bytecode_view \<Rightarrow> verify_state" where
  "initial_state view =
     \<lparr> seen_global_slots = replicate (length (view_strings view)) None, next_global = 0,
       next_field = 0, next_set_field = 0, next_tfor = 0 \<rparr>"

definition sequential :: "nat \<Rightarrow> u8 option \<Rightarrow> nat \<Rightarrow> cache_family \<Rightarrow> validation_error + nat" where
  "sequential pc slot nxt family =
     (case slot of
        None \<Rightarrow> Inr nxt
      | Some s \<Rightarrow> if unat s \<noteq> nxt then Inl (err (Some pc) (CacheSlotOrder family)) else Inr (nxt + 1))"

definition check_global_slot :: "nat \<Rightarrow> instr \<Rightarrow> verify_state \<Rightarrow> validation_error + verify_state" where
  "check_global_slot pc inst st =
     (let b = unat (field_b inst) in
      case cache_slot inst of
        None \<Rightarrow> Inr st
      | Some slot \<Rightarrow>
          if opcode inst = OP_GET_GLOBAL then
            (case (case seen_global_slots st ! b of
                     Some expected \<Rightarrow> (expected, st)
                   | None \<Rightarrow> (next_global st,
                             st\<lparr>seen_global_slots := (seen_global_slots st)[b := Some (next_global st)],
                               next_global := next_global st + 1\<rparr>)) of
               (expected, st') \<Rightarrow>
                 if unat slot \<noteq> expected then Inl (err (Some pc) GlobalCacheSlotOrder) else Inr st')
          else if unat slot \<noteq> next_global st then Inl (err (Some pc) GlobalCacheSlotOrder)
          else Inr (st\<lparr>next_global := next_global st + 1\<rparr>))"

section \<open>One instruction\<close>

text \<open>A sequence of checks that leaves the state as it is.\<close>

definition checks :: "('e + unit) list \<Rightarrow> 's \<Rightarrow> 'e + 's" where
  "checks cs st = and_then (for_each id cs) (\<lambda>_. Inr st)"

definition check_arith :: "bytecode_view \<Rightarrow> nat \<Rightarrow> instr \<Rightarrow> arith_operands \<Rightarrow> validation_error + unit" where
  "check_arith view pc inst operands =
     (let reg = check_reg view pc; pool = check_pool view pc inst in
      for_each id
        (reg (field_a inst) #
         (case operands of
            RegReg \<Rightarrow> [reg (field_b inst), reg (field_c inst)]
          | RegConst \<Rightarrow> [reg (field_b inst), pool]
          | ConstReg \<Rightarrow> [pool, reg (field_c inst)])))"

definition check_operands ::
  "bytecode_view \<Rightarrow> nat \<Rightarrow> instr \<Rightarrow> verify_state \<Rightarrow> validation_error + verify_state" where
  "check_operands view pc inst st =
     (let frame = unat (view_max_stack view);
          reg = check_reg view pc; pool = check_pool view pc inst;
          regs = (\<lambda>first count. check_registers pc first count frame);
          guard = (\<lambda>ok r. ensure ok (err (Some pc) r));
          op = opcode inst; a = field_a inst; b = field_b inst; c = field_c inst; d = field_d inst
      in if op \<in> {OP_MOVE, OP_UNM, OP_NOT, OP_LEN,
                  OP_BR_LT, OP_BR_LE, OP_BR_GT, OP_BR_GE, OP_BR_EQ, OP_BR_NE}
         then checks [reg a, reg b] st
         else if op \<in> {OP_GET_TABLE, OP_SET_TABLE, OP_INIT_INDEX,
                       OP_LT, OP_LE, OP_GT, OP_GE, OP_EQ, OP_NE}
         then checks [reg a, reg b, reg c] st
         else if op \<in> {OP_NEW_TABLE, OP_TEST_FALSE, OP_TEST_TRUE} then checks [reg a] st
         else if op = OP_LOAD_NIL
         then checks [guard (b \<noteq> 0) CountOperandInvalid, regs a (unat b)] st
         else if op = OP_LOAD_BOOL
         then checks [reg a, guard (\<not> b > 1) BooleanOperandInvalid] st
         else if op \<in> {OP_LOAD_NUM, OP_LOAD_STR, OP_GET_UPVAL, OP_SET_UPVAL,
                       OP_NEW_TABLE_TEMPLATE, OP_CLOSURE}
         then checks [reg a, pool] st
         else if op = OP_CLOSE
         then checks [guard (\<not> unat a > frame) RegisterOutOfRange] st
         else if op \<in> {OP_GET_GLOBAL, OP_SET_GLOBAL}
         then and_then (for_each id [reg a, pool]) (\<lambda>_. check_global_slot pc inst st)
         else if op \<in> {OP_GET_BUILTIN, OP_SET_BUILTIN}
         then checks [reg a, guard (\<not> unat b \<ge> length builtin_ALL) BuiltinSlotOutOfRange] st
         else if op = OP_NEW_TABLE_PRESIZED
         then checks [reg a, guard (\<not> b > 255) CountOperandInvalid] st
         else if op = OP_GET_FIELD
         then and_then (for_each id [reg a, reg b, pool]) (\<lambda>_.
              and_then (sequential pc (cache_slot inst) (next_field st) FamilyField) (\<lambda>n.
              Inr (st\<lparr>next_field := n\<rparr>)))
         else if op = OP_SELF
         then and_then (for_each id [regs a 2, reg b, pool]) (\<lambda>_.
              and_then (sequential pc (cache_slot inst) (next_field st) FamilyField) (\<lambda>n.
              Inr (st\<lparr>next_field := n\<rparr>)))
         else if op = OP_SET_FIELD
         then and_then (for_each id [reg a, pool, reg c]) (\<lambda>_.
              and_then (sequential pc (cache_slot inst) (next_set_field st) FamilySetField) (\<lambda>n.
              Inr (st\<lparr>next_set_field := n\<rparr>)))
         else if op \<in> {OP_INIT_FIELD, OP_INIT_FIELD_PINNED} then checks [reg a, pool, reg c] st
         else if op = OP_SET_LIST
         then and_then (reg a) (\<lambda>_. and_then (count_operand pc b 255) (\<lambda>count.
              (case count of Some n \<Rightarrow> checks [regs a (1 + n)] st | None \<Rightarrow> Inr st)))
         else if op = OP_CONCAT
         then checks [reg a, guard (\<not> c < 2) ConcatTooFewValues, regs b (unat c)] st
         else if op = OP_JMP then Inr st
         else if op \<in> {OP_FOR_PREP, OP_TFOR_LOOP}
         then checks [guard (\<not> sint (sj inst) < 0) BackwardLoopExit, regs a 4] st
         else if op = OP_FOR_LOOP then checks [regs a 4] st
         else if op = OP_TFOR_CALL
         then and_then (for_each id [guard (\<not> b > 255) TforCallResultCountExceeded,
                                     guard (b \<noteq> 0) TforCallWithoutResults,
                                     regs a (3 + unat b)]) (\<lambda>_.
              and_then (sequential pc (cache_slot inst) (next_tfor st) FamilyTforCursor) (\<lambda>n.
              Inr (st\<lparr>next_tfor := n\<rparr>)))
         else if op = OP_CALL
         then and_then (guard (\<not> d > 1) BooleanOperandInvalid) (\<lambda>_.
              and_then (count_operand pc b MAX_FIXED_ARGS) (\<lambda>args.
              and_then (count_operand pc c MAX_FIXED_RESULTS) (\<lambda>results.
              checks [regs a (1 + case_option 0 id args), regs a (case_option 0 id results)] st)))
         else if op = OP_TAILCALL
         then and_then (guard (\<not> d > 1) BooleanOperandInvalid) (\<lambda>_.
              and_then (count_operand pc b MAX_FIXED_ARGS) (\<lambda>args.
              checks [regs a (1 + case_option 0 id args)] st))
         else if op = OP_RETURN
         then and_then (count_operand pc b 255) (\<lambda>count.
              (case count of Some n \<Rightarrow> checks [regs a n] st | None \<Rightarrow> checks [reg a] st))
         else if op = OP_VARARG
         then and_then (guard (view_vararg view) VarargInNonVarargFunction) (\<lambda>_.
              and_then (count_operand pc b MAX_FIXED_RESULTS) (\<lambda>count.
              checks [regs a (max (case_option 1 id count) 1)] st))
         else Inl (err (Some pc) UnknownOpcode))"

text \<open>The open-results protocol at one instruction.\<close>

definition check_open :: "bytecode_view \<Rightarrow> bool list \<Rightarrow> nat \<Rightarrow> instr \<Rightarrow> validation_error + unit" where
  "check_open view targeted pc inst =
     for_each id
       [ensure (produces_open inst \<longrightarrow>
                pc + 1 < code_len view \<and> \<not> targeted ! (pc + 1)
                \<and> consumes_open (inst_at view (pc + 1))
                \<and> open_window_fits (inst_at view (pc + 1)) inst)
          (err (Some pc) OpenResultsNotConsumed),
        ensure (consumes_open inst \<longrightarrow>
                pc > 0 \<and> \<not> targeted ! pc
                \<and> produces_open (inst_at view (pc - 1))
                \<and> open_window_fits inst (inst_at view (pc - 1)))
          (err (Some pc) OpenResultsWithoutProducer)]"

definition check_instr ::
  "bytecode_view \<Rightarrow> bool list \<Rightarrow> nat \<Rightarrow> verify_state \<Rightarrow> validation_error + verify_state" where
  "check_instr view targeted pc st =
     (let inst = inst_at view pc; op = opcode inst in
      and_then (ensure (known_opcode op) (err (Some pc) UnknownOpcode)) (\<lambda>_.
      and_then (ensure (reserved_bits_zero inst) (err (Some pc) (ReservedBitsNonZero op (raw inst)))) (\<lambda>_.
      case arith_decode op of
        Some (_, operands) \<Rightarrow> and_then (check_arith view pc inst operands) (\<lambda>_. Inr st)
      | None \<Rightarrow>
          and_then (check_operands view pc inst st) (\<lambda>st'.
          and_then (check_open view targeted pc inst) (\<lambda>_. Inr st')))))"

definition check_slot_counts :: "bytecode_view \<Rightarrow> verify_state \<Rightarrow> validation_error + unit" where
  "check_slot_counts view st =
     ensure (unat (view_global_slots view) = next_global st
             \<and> unat (view_field_slots view) = next_field st
             \<and> unat (view_set_field_slots view) = next_set_field st
             \<and> unat (view_tfor_slots view) = next_tfor st)
       (err None CacheSlotCountMismatch)"

definition validate_bytecode :: "bytecode_view \<Rightarrow> validation_error + unit" where
  "validate_bytecode view =
     and_then (validate_limits view) (\<lambda>_.
     and_then (validate_final_return view) (\<lambda>_.
     and_then (validate_templates view) (\<lambda>_.
     and_then (jump_targets view) (\<lambda>targeted.
     and_then (fold_result (check_instr view targeted) [0..<code_len view] (initial_state view))
       (check_slot_counts view)))))"

end
