(* ===== verification/Verify_Sound.thy ===== *)
theory Verify_Sound
  imports Verify
begin

text \<open>
  What the verifier establishes. Acceptance of a function body gives: every transfer lands
  inside the code; the open-results protocol holds, so no path reaches a consumer of open
  results except from its producer; every cache slot is below the declared count of its family
  and belongs to one site; and the cache-slot pass of the compiler always satisfies the
  verifier's restatement of its policy.
\<close>

lemma checks_ok [result_simps]: "checks cs st = Inr st' \<longleftrightarrow> st' = st \<and> (\<forall>c \<in> set cs. c = Inr ())"
  by (auto simp: checks_def result_simps)

definition slot_effect :: "nat \<Rightarrow> instr \<Rightarrow> verify_state \<Rightarrow> validation_error + verify_state" where
  "slot_effect pc inst st =
     (let op = opcode inst in
      if op \<in> {OP_GET_GLOBAL, OP_SET_GLOBAL} then check_global_slot pc inst st
      else if op \<in> {OP_GET_FIELD, OP_SELF}
      then and_then (sequential pc (cache_slot inst) (next_field st) FamilyField)
             (\<lambda>n. Inr (st\<lparr>next_field := n\<rparr>))
      else if op = OP_SET_FIELD
      then and_then (sequential pc (cache_slot inst) (next_set_field st) FamilySetField)
             (\<lambda>n. Inr (st\<lparr>next_set_field := n\<rparr>))
      else if op = OP_TFOR_CALL
      then and_then (sequential pc (cache_slot inst) (next_tfor st) FamilyTforCursor)
             (\<lambda>n. Inr (st\<lparr>next_tfor := n\<rparr>))
      else Inr st)"

lemma check_operands_effect:
  assumes "check_operands view pc inst st = Inr st'"
  shows "slot_effect pc inst st = Inr st'"
  using assms unfolding check_operands_def Let_def
  apply (elim if_branchE)
  apply (simp_all only: insert_iff empty_iff simp_thms)
  apply (auto simp: result_simps slot_effect_def split: option.splits)
  done


section \<open>The run of the verifier\<close>

lemma nth_mark: "k < length t \<Longrightarrow> t ! k \<Longrightarrow> t[j := True] ! k"
  by (cases "j = k") simp_all

lemma mark_target_ok:
  assumes "mark_target view pc t = Inr t'"
  shows "length t' = length t" "\<And>k. k < length t \<Longrightarrow> t ! k \<Longrightarrow> t' ! k"
    "is_transfer (opcode (inst_at view pc)) \<Longrightarrow> length t = code_len view \<Longrightarrow>
     \<exists>k. jump_target pc (inst_at view pc) (code_len view) = Some k \<and> t' ! k"
  using assms
  by (auto simp: mark_target_def Let_def nth_mark jump_target_def split: if_splits option.splits)

text \<open>The marks of the body: every transfer lands in the code, on a marked instruction.\<close>

lemma jump_targets_ok:
  assumes "jump_targets view = Inr t"
  shows "length t = code_len view"
    and "\<And>pc. pc < code_len view \<Longrightarrow> is_transfer (opcode (inst_at view pc)) \<Longrightarrow>
      \<exists>k. jump_target pc (inst_at view pc) (code_len view) = Some k \<and> t ! k"
proof -
  let ?n = "code_len view"
  obtain ts where ts: "ts 0 = replicate ?n False" "ts ?n = t"
    "\<And>pc. pc < ?n \<Longrightarrow> mark_target view pc (ts pc) = Inr (ts (Suc pc))"
    using fold_result_trace [OF assms [unfolded jump_targets_def]] by blast
  have len: "m \<le> ?n \<Longrightarrow> length (ts m) = ?n" for m
  proof (induction m)
    case (Suc m)
    then show ?case using mark_target_ok(1) [OF ts(3) [of m]] by (simp add: Suc_le_eq)
  qed (simp add: ts(1))
  have mono: "m \<le> m' \<Longrightarrow> m' \<le> ?n \<Longrightarrow> k < ?n \<Longrightarrow> ts m ! k \<Longrightarrow> ts m' ! k" for m m' k
  proof (induction m' rule: dec_induct)
    case (step i)
    then show ?case using mark_target_ok(2) [OF ts(3) [of i], of k] len [of i] by (simp add: Suc_le_eq)
  qed
  show "length t = ?n" using len [of ?n] ts(2) by simp
  fix pc assume pc: "pc < ?n" "is_transfer (opcode (inst_at view pc))"
  then obtain k where k: "jump_target pc (inst_at view pc) ?n = Some k" "ts (Suc pc) ! k"
    using mark_target_ok(3) [OF ts(3) pc(2)] len [of pc] by auto
  then have "k < ?n" by (auto simp: jump_target_def Let_def split: if_splits)
  with mono [of "Suc pc" ?n k] k ts(2) pc(1)
  show "\<exists>k. jump_target pc (inst_at view pc) ?n = Some k \<and> t ! k" by auto
qed

text \<open>What acceptance gives: the marks and the sequence of states of the instruction loop.\<close>

lemma validate_bytecodeE:
  assumes "validate_bytecode view = Inr u"
  obtains t ss where "validate_limits view = Inr ()" "validate_final_return view = Inr ()"
    "validate_templates view = Inr ()" "jump_targets view = Inr t" "ss 0 = initial_state view"
    "\<And>pc. pc < code_len view \<Longrightarrow> check_instr view t pc (ss pc) = Inr (ss (Suc pc))"
    "check_slot_counts view (ss (code_len view)) = Inr ()"
proof -
  from assms obtain t st where "validate_limits view = Inr ()" "validate_final_return view = Inr ()"
    "validate_templates view = Inr ()" "jump_targets view = Inr t"
    "fold_result (check_instr view t) [0..<code_len view] (initial_state view) = Inr st"
    "check_slot_counts view st = Inr ()"
    by (auto simp: validate_bytecode_def and_then_ok)
  with fold_result_trace [OF this(5)] that show thesis by blast
qed

lemma check_instr_open:
  assumes "check_instr view t pc st = Inr st'"
  shows "check_open view t pc (inst_at view pc) = Inr ()"
proof (cases "arith_decode (opcode (inst_at view pc))")
  case None
  then show ?thesis using assms by (auto simp: check_instr_def Let_def and_then_ok)
next
  case (Some r)
  then have "opcode (inst_at view pc) \<le> 41"
    by (auto simp: arith_decode_def split: if_splits)
  then have "opcode (inst_at view pc) \<notin> {OP_CALL, OP_TAILCALL, OP_RETURN, OP_VARARG}"
    "opcode (inst_at view pc) \<noteq> OP_SET_LIST"
    using Some by (auto simp: arith_decode_def)
  then show ?thesis by (simp add: check_open_def produces_open_def consumes_open_def)
qed

lemma check_instr_effect:
  assumes "check_instr view t pc st = Inr st'"
  shows "slot_effect pc (inst_at view pc) st = Inr st'"
proof (cases "arith_decode (opcode (inst_at view pc))")
  case None
  then show ?thesis using assms by (auto simp: check_instr_def Let_def and_then_ok intro: check_operands_effect)
next
  case (Some r)
  then have "opcode (inst_at view pc) \<le> 41" "24 \<le> opcode (inst_at view pc)"
    by (auto simp: arith_decode_def split: if_splits)
  then have "opcode (inst_at view pc) \<notin> {OP_GET_GLOBAL, OP_SET_GLOBAL, OP_GET_FIELD, OP_SELF, OP_SET_FIELD, OP_TFOR_CALL}"
    by auto
  moreover have "st' = st" using assms Some by (auto simp: check_instr_def Let_def and_then_ok split: prod.splits)
  ultimately show ?thesis by (simp add: slot_effect_def Let_def)
qed

section \<open>Ownership of cache slots\<close>

text \<open>The four slot families of a function, and the family and slot of a cached instruction.\<close>

datatype slot_family = SlotsGlobal | SlotsField | SlotsSetField | SlotsTfor

fun family_of_opcode :: "u8 \<Rightarrow> slot_family option" where
  "family_of_opcode op =
     (if op \<in> {OP_GET_GLOBAL, OP_SET_GLOBAL} then Some SlotsGlobal
      else if op \<in> {OP_GET_FIELD, OP_SELF} then Some SlotsField
      else if op = OP_SET_FIELD then Some SlotsSetField
      else if op = OP_TFOR_CALL then Some SlotsTfor
      else None)"

definition slot_site :: "instr \<Rightarrow> (slot_family \<times> u8) option" where
  "slot_site i =
     (case (family_of_opcode (opcode i), cache_slot i) of
        (Some f, Some s) \<Rightarrow> Some (f, s) | _ \<Rightarrow> None)"

fun next_of :: "slot_family \<Rightarrow> verify_state \<Rightarrow> nat" where
  "next_of SlotsGlobal st = next_global st"
| "next_of SlotsField st = next_field st"
| "next_of SlotsSetField st = next_set_field st"
| "next_of SlotsTfor st = next_tfor st"

fun declared_slots :: "bytecode_view \<Rightarrow> slot_family \<Rightarrow> nat" where
  "declared_slots view SlotsGlobal = unat (view_global_slots view)"
| "declared_slots view SlotsField = unat (view_field_slots view)"
| "declared_slots view SlotsSetField = unat (view_set_field_slots view)"
| "declared_slots view SlotsTfor = unat (view_tfor_slots view)"

text \<open>One step of the allocation: a fresh slot, or a global read that repeats its name's slot.\<close>

definition fresh_site :: "instr \<Rightarrow> slot_family \<Rightarrow> u8 \<Rightarrow> verify_state \<Rightarrow> verify_state \<Rightarrow> bool" where
  "fresh_site i f s st st' \<longleftrightarrow>
     slot_site i = Some (f, s) \<and> unat s = next_of f st \<and> next_of f st' = Suc (next_of f st)"

definition repeat_site :: "instr \<Rightarrow> slot_family \<Rightarrow> u8 \<Rightarrow> verify_state \<Rightarrow> bool" where
  "repeat_site i f s st \<longleftrightarrow>
     slot_site i = Some (f, s) \<and> opcode i = OP_GET_GLOBAL \<and> f = SlotsGlobal
     \<and> seen_global_slots st ! unat (field_b i) = Some (unat s)"

lemma slot_effect_next:
  assumes "slot_effect pc i st = Inr st'"
  shows "next_of f st \<le> next_of f st'"
  using assms
  by (cases f) (auto simp: slot_effect_def check_global_slot_def sequential_def Let_def result_simps
      split: if_splits option.splits)

lemma slot_effect_site:
  assumes "slot_effect pc i st = Inr st'" "slot_site i = Some (f, s)"
  shows "fresh_site i f s st st' \<or> repeat_site i f s st"
  using assms
  by (auto simp: slot_effect_def check_global_slot_def sequential_def Let_def result_simps
      slot_site_def fresh_site_def repeat_site_def split: if_splits option.splits)

lemma nth_list_update_if: "k < length xs \<Longrightarrow> xs[j := v] ! k = (if j = k then v else xs ! k)"
  by (cases "j = k") simp_all

lemma slot_effect_seen:
  assumes "slot_effect pc i st = Inr st'" 
  shows "length (seen_global_slots st') = length (seen_global_slots st)"
    and "b < length (seen_global_slots st) \<Longrightarrow> seen_global_slots st' ! b = Some e \<Longrightarrow>
      seen_global_slots st ! b = Some e
      \<or> (\<exists>s. fresh_site i SlotsGlobal s st st' \<and> opcode i = OP_GET_GLOBAL \<and> unat (field_b i) = b \<and> unat s = e)"
  using assms
  by (auto simp: slot_effect_def check_global_slot_def sequential_def Let_def result_simps
      slot_site_def fresh_site_def nth_list_update_if split: if_splits option.splits)

lemma check_instr_global_index:
  assumes "check_instr view t pc st = Inr st'"
    and "opcode (inst_at view pc) = OP_GET_GLOBAL"
  shows "unat (field_b (inst_at view pc)) < length (view_strings view)"
proof -
  have "check_pool view pc (inst_at view pc) = Inr ()"
    using assms by (auto simp: check_instr_def check_operands_def Let_def result_simps arith_decode_def)
  moreover have "pool_operand (inst_at view pc) = Some (PoolString, field_b (inst_at view pc))"
    using assms(2) by (simp add: pool_operand_def)
  ultimately show ?thesis by (simp add: check_pool_def check_index_def)
qed


text \<open>The run of the allocation over an accepted body.\<close>

lemma accepted_slots:
  assumes "validate_bytecode view = Inr u"
  obtains ss where
    "\<And>pc. pc < code_len view \<Longrightarrow> slot_effect pc (inst_at view pc) (ss pc) = Inr (ss (Suc pc))"
    "\<And>pc. pc < code_len view \<Longrightarrow> opcode (inst_at view pc) = OP_GET_GLOBAL \<Longrightarrow>
       unat (field_b (inst_at view pc)) < length (view_strings view)"
    "ss 0 = initial_state view"
    "\<And>f. declared_slots view f = next_of f (ss (code_len view))"
proof -
  from assms obtain t ss where t: "ss 0 = initial_state view"
    "\<And>pc. pc < code_len view \<Longrightarrow> check_instr view t pc (ss pc) = Inr (ss (Suc pc))"
    "check_slot_counts view (ss (code_len view)) = Inr ()"
    by (elim validate_bytecodeE) blast
  have "declared_slots view f = next_of f (ss (code_len view))" for f
    using t(3) by (cases f) (simp_all add: check_slot_counts_def)
  then show thesis
    using that [of ss] t(1) check_instr_effect [OF t(2)] check_instr_global_index [OF t(2)] by blast
qed

text \<open>Every cached site has an origin: the instruction that allocated its slot.\<close>

lemma slot_origin:
  assumes step: "\<And>pc. pc < n \<Longrightarrow> slot_effect pc (inst_at view pc) (ss pc) = Inr (ss (Suc pc))"
    and range: "\<And>pc. pc < n \<Longrightarrow> opcode (inst_at view pc) = OP_GET_GLOBAL \<Longrightarrow>
       unat (field_b (inst_at view pc)) < length (view_strings view)"
    and start: "ss 0 = initial_state view"
    and pc: "pc < n" and site: "slot_site (inst_at view pc) = Some (f, s)"
  shows "\<exists>p \<le> pc. fresh_site (inst_at view p) f s (ss p) (ss (Suc p))
    \<and> (p = pc \<or> (opcode (inst_at view p) = OP_GET_GLOBAL \<and> opcode (inst_at view pc) = OP_GET_GLOBAL
                \<and> field_b (inst_at view p) = field_b (inst_at view pc)))"
proof -
  have len: "m \<le> n \<Longrightarrow> length (seen_global_slots (ss m)) = length (view_strings view)" for m
  proof (induction m)
    case (Suc m)
    then show ?case using slot_effect_seen(1) [OF step [of m]] by simp
  qed (simp add: start initial_state_def)
  have origin: "\<exists>p < m. \<exists>s. fresh_site (inst_at view p) SlotsGlobal s (ss p) (ss (Suc p))
      \<and> opcode (inst_at view p) = OP_GET_GLOBAL \<and> unat (field_b (inst_at view p)) = b \<and> unat s = e"
    if "m \<le> n" "b < length (view_strings view)" "seen_global_slots (ss m) ! b = Some e" for m b e
    using that
  proof (induction m)
    case (Suc m)
    from slot_effect_seen(2) [OF step [of m], of b e] Suc.prems len [of m]
    consider "seen_global_slots (ss m) ! b = Some e"
      | "\<exists>s. fresh_site (inst_at view m) SlotsGlobal s (ss m) (ss (Suc m))
          \<and> opcode (inst_at view m) = OP_GET_GLOBAL \<and> unat (field_b (inst_at view m)) = b \<and> unat s = e"
      by auto
    then show ?case
      using Suc by cases (auto intro: less_SucI)
  qed (simp add: start initial_state_def)
  from slot_effect_site [OF step [OF pc] site] show ?thesis
  proof
    assume "repeat_site (inst_at view pc) f s (ss pc)"
    then have get: "opcode (inst_at view pc) = OP_GET_GLOBAL" "f = SlotsGlobal"
      "seen_global_slots (ss pc) ! unat (field_b (inst_at view pc)) = Some (unat s)"
      by (simp_all add: repeat_site_def)
    with origin [of pc, OF _ range [OF pc get(1)] get(3)] pc obtain p s' where
      "p < pc" "fresh_site (inst_at view p) SlotsGlobal s' (ss p) (ss (Suc p))"
      "opcode (inst_at view p) = OP_GET_GLOBAL"
      "unat (field_b (inst_at view p)) = unat (field_b (inst_at view pc))" "unat s' = unat s"
      by auto
    with get show ?thesis by (metis less_imp_le word_unat_eq_iff)
  qed auto
qed

text \<open>
  C9 (compiler/verify.rs, validate_bytecode): in an accepted function every cached instruction
  uses a slot below the declared count of its family, from which the runtime cache vectors are
  sized, and no two instructions share a slot of a family, except global reads of one name.
\<close>

theorem cache_slots_owned:
  assumes "validate_bytecode view = Inr ()" "p < code_len view" "q < code_len view"
    and "slot_site (inst_at view p) = Some (f, s)" "slot_site (inst_at view q) = Some (f, s)"
  shows "unat s < declared_slots view f
    \<and> (p = q \<or> (opcode (inst_at view p) = OP_GET_GLOBAL \<and> opcode (inst_at view q) = OP_GET_GLOBAL
                \<and> field_b (inst_at view p) = field_b (inst_at view q)))"
proof -
  obtain ss where run:
    "\<And>pc. pc < code_len view \<Longrightarrow> slot_effect pc (inst_at view pc) (ss pc) = Inr (ss (Suc pc))"
    "\<And>pc. pc < code_len view \<Longrightarrow> opcode (inst_at view pc) = OP_GET_GLOBAL \<Longrightarrow>
       unat (field_b (inst_at view pc)) < length (view_strings view)"
    "ss 0 = initial_state view" "\<And>f. declared_slots view f = next_of f (ss (code_len view))"
    using accepted_slots [OF assms(1)] by blast
  have mono: "m \<le> m' \<Longrightarrow> m' \<le> code_len view \<Longrightarrow> next_of f (ss m) \<le> next_of f (ss m')" for m m'
  proof (induction m' rule: dec_induct)
    case (step i)
    then show ?case using slot_effect_next [OF run(1) [of i], of f] by simp
  qed simp
  note origin = slot_origin [where n = "code_len view" and ss = ss, OF run(1-3)]
  obtain p0 where p0: "p0 \<le> p" "fresh_site (inst_at view p0) f s (ss p0) (ss (Suc p0))"
    "p0 = p \<or> (opcode (inst_at view p0) = OP_GET_GLOBAL \<and> opcode (inst_at view p) = OP_GET_GLOBAL
                \<and> field_b (inst_at view p0) = field_b (inst_at view p))"
    using origin assms by blast
  obtain q0 where q0: "q0 \<le> q" "fresh_site (inst_at view q0) f s (ss q0) (ss (Suc q0))"
    "q0 = q \<or> (opcode (inst_at view q0) = OP_GET_GLOBAL \<and> opcode (inst_at view q) = OP_GET_GLOBAL
                \<and> field_b (inst_at view q0) = field_b (inst_at view q))"
    using origin assms by blast
  have "p0 = q0"
    using mono [of "Suc p0" q0] mono [of "Suc q0" p0] p0(1,2) q0(1,2) assms(2,3)
    by (cases p0 q0 rule: linorder_cases) (auto simp: fresh_site_def)
  moreover have "unat s < declared_slots view f"
    using mono [of "Suc p0" "code_len view"] p0(1,2) assms(2) by (simp add: fresh_site_def run(4))
  ultimately show ?thesis using p0(3) q0(3) by auto
qed

definition sample_code :: "instr list" where
  "sample_code =
     [pack OP_GET_GLOBAL 0 0 0 1, pack OP_GET_GLOBAL 1 0 0 1, pack OP_SET_GLOBAL 0 1 0 2,
      pack OP_VARARG 1 0xFFFF 0 0, pack OP_CALL 0 0xFFFF 0xFFFF 0, pack OP_RETURN 0 0xFFFF 0 0,
      pack_jump OP_TEST_FALSE 1 0 (- 4), pack OP_RETURN 0 0 0 0]"

definition sample_view :: bytecode_view where
  "sample_view =
     \<lparr> view_code = map raw sample_code, view_numbers = 0, view_strings = [''print'', ''x''],
       view_templates = [], view_global_slots = 2, view_field_slots = 0, view_set_field_slots = 0,
       view_tfor_slots = 0, view_params = 0, view_locals = 0, view_max_stack = 2, view_nested = 0,
       view_upvalues = [], view_vararg = True, view_lines = 8 \<rparr>"

lemma sample_len: "code_len sample_view = 8"
  by (simp add: code_len_def sample_view_def sample_code_def)

lemma sample_inst:
  "inst_at sample_view 0 = pack OP_GET_GLOBAL 0 0 0 1"
  "inst_at sample_view (Suc 0) = pack OP_GET_GLOBAL 1 0 0 1"
  "inst_at sample_view 2 = pack OP_SET_GLOBAL 0 1 0 2"
  "inst_at sample_view 3 = pack OP_VARARG 1 0xFFFF 0 0"
  "inst_at sample_view 4 = pack OP_CALL 0 0xFFFF 0xFFFF 0"
  "inst_at sample_view 5 = pack OP_RETURN 0 0xFFFF 0 0"
  "inst_at sample_view 6 = pack_jump OP_TEST_FALSE 1 0 (- 4)"
  "inst_at sample_view 7 = pack OP_RETURN 0 0 0 0"
  by (simp_all add: inst_at_def sample_view_def sample_code_def from_raw_def)

lemma upt_8: "[0..<8] = [0, Suc 0, 2, 3, 4, 5, 6, 7]"
  by (simp add: upt_conv_Cons)

lemma sample_jump: "sj (pack_jump OP_TEST_FALSE 1 0 (- 4)) = - 4"
  by (rule sj_pack_jump) simp_all

lemma replicate_8: "replicate 8 False = [False, False, False, False, False, False, False, False]"
  and update_3: "[False, False, False, False, False, False, False, False][3 := True]
      = [False, False, False, True, False, False, False, False]"
  by (simp_all add: eval_nat_numeral)

lemma sample_targets: "jump_targets sample_view = Inr [False, False, False, True, False, False, False, False]"
  unfolding jump_targets_def sample_len upt_8 replicate_8
  by (simp add: mark_target_def sample_inst sample_len Let_def is_transfer_def
      layout_of_def jump_target_def sample_jump update_3)

lemmas verifier_eval =
  check_instr_def Let_def known_opcode_def reserved_bits_zero_entry arith_decode_def check_operands_def
  check_open_def checks_def check_reg_def check_registers_def check_pool_def pool_operand_def check_index_def
  check_global_slot_def cache_slot_def decode_cache_slot_def count_operand_def OPEN_COUNT_def
  produces_open_def consumes_open_def open_window_fits_def sequential_def MAX_FIXED_ARGS_def MAX_FIXED_RESULTS_def

lemma sample_fields: "view_max_stack sample_view = 2" "view_strings sample_view = [''print'', ''x'']"
  "view_vararg sample_view" "view_params sample_view = 0" "view_locals sample_view = 0"
  "view_templates sample_view = []" "view_numbers sample_view = 0" "view_nested sample_view = 0"
  "view_upvalues sample_view = []" "view_lines sample_view = 8" "view_global_slots sample_view = 2"
  "view_field_slots sample_view = 0" "view_set_field_slots sample_view = 0" "view_tfor_slots sample_view = 0"
  by (simp_all add: sample_view_def)

lemma sample_accepted: "validate_bytecode sample_view = Inr ()"
proof -
  have "validate_limits sample_view = Inr ()"
    by (simp add: validate_limits_def sample_len sample_fields MAX_TABLE_TEMPLATES_def MAX_NESTED_def
      MAX_UPVALUES_def MAX_LITERALS_def MAX_TABLE_TEMPLATE_FIELDS_def MAX_FRAME_SLOTS_def OPEN_COUNT_def)
  moreover have "validate_final_return sample_view = Inr ()"
    by (simp add: validate_final_return_def sample_len sample_inst)
  moreover have "validate_templates sample_view = Inr ()"
    by (simp add: validate_templates_def sample_fields)
  moreover have "fold_result (check_instr sample_view [False, False, False, True, False, False, False, False])
     [0..<code_len sample_view] (initial_state sample_view) = Inr \<lparr> seen_global_slots = [Some 0, None], next_global = 2,
       next_field = 0, next_set_field = 0, next_tfor = 0 \<rparr>"
    unfolding sample_len upt_8 initial_state_def
    by (simp add: verifier_eval sample_inst sample_len sample_fields)
  ultimately show ?thesis
    by (simp add: validate_bytecode_def sample_targets check_slot_counts_def sample_fields)
qed

theorem cache_slots_owned_witness:
  "slot_site (inst_at sample_view 0) = Some (SlotsGlobal, 0)
   \<and> unat (0 :: u8) < declared_slots sample_view SlotsGlobal
   \<and> field_b (inst_at sample_view 0) = field_b (inst_at sample_view 1)"
proof -
  have sites: "slot_site (inst_at sample_view 0) = Some (SlotsGlobal, 0)"
    "slot_site (inst_at sample_view 1) = Some (SlotsGlobal, 0)"
    by (simp_all add: sample_inst slot_site_def cache_slot_def decode_cache_slot_def)
  from cache_slots_owned [OF sample_accepted _ _ sites] sites show ?thesis
    by (simp add: sample_len)
qed

section \<open>The compiler's slot policy is the verifier's\<close>

definition slot_reasons :: "validation_reason set" where
  "slot_reasons = {GlobalCacheSlotOrder, CacheSlotCountMismatch} \<union> range CacheSlotOrder"

text \<open>A check that never fails for a slot reason.\<close>

definition no_slot :: "validation_error + 'a \<Rightarrow> bool" where
  "no_slot r \<longleftrightarrow> (\<forall>e. r = Inl e \<longrightarrow> reason e \<notin> slot_reasons)"

named_theorems no_slot_intros \<open>checks that never fail for a slot reason\<close>

lemma no_slot_basic [no_slot_intros]:
  "no_slot (Inr x)" "why \<notin> slot_reasons \<Longrightarrow> no_slot (ensure ok (err p why))"
  "no_slot (check_registers pc first cnt frame)" "no_slot (check_reg view pc r)"
  "no_slot (count_operand pc val lim)" "no_slot (check_pool view pc i)"
  "why \<notin> slot_reasons \<Longrightarrow> no_slot (Inl (err p why))"
  by (auto simp: no_slot_def check_reg_def check_registers_def check_pool_def check_index_def
      count_operand_def err_def slot_reasons_def split: if_splits option.splits prod.splits)

lemma no_slot_and_then [no_slot_intros]:
  "no_slot r \<Longrightarrow> (\<And>x. no_slot (f x)) \<Longrightarrow> no_slot (and_then r f)"
  by (cases r) (auto simp: no_slot_def)

lemma no_slot_for_each [no_slot_intros]:
  "no_slot (for_each id [])" "no_slot c \<Longrightarrow> no_slot (for_each id cs) \<Longrightarrow> no_slot (for_each id (c # cs))"
  using no_slot_and_then [of c "\<lambda>_. for_each id cs"] by (simp_all add: no_slot_basic)

lemma no_slot_checks [no_slot_intros]: "no_slot (for_each id cs) \<Longrightarrow> no_slot (checks cs st)"
  unfolding checks_def by (intro no_slot_intros)

lemma no_slot_option [no_slot_intros]:
  "no_slot a \<Longrightarrow> (\<And>x. no_slot (b x)) \<Longrightarrow> no_slot (case r of None \<Rightarrow> a | Some x \<Rightarrow> b x)"
  by (simp split: option.split)

lemma no_slot_not_error: "no_slot r \<Longrightarrow> r = Inl e \<Longrightarrow> reason e \<in> slot_reasons \<Longrightarrow> P"
  by (auto simp: no_slot_def)

lemma no_slot_then:
  "no_slot r \<Longrightarrow> and_then r f = Inl e \<Longrightarrow> reason e \<in> slot_reasons \<Longrightarrow> \<exists>x. r = Inr x \<and> f x = Inl e"
  by (cases r) (auto simp: no_slot_def)

lemma slot_reasons_simps [simp]:
  "RegisterOutOfRange \<notin> slot_reasons" "CountOperandInvalid \<notin> slot_reasons"
  "BooleanOperandInvalid \<notin> slot_reasons" "BuiltinSlotOutOfRange \<notin> slot_reasons"
  "ConcatTooFewValues \<notin> slot_reasons" "BackwardLoopExit \<notin> slot_reasons"
  "TforCallResultCountExceeded \<notin> slot_reasons" "TforCallWithoutResults \<notin> slot_reasons"
  "VarargInNonVarargFunction \<notin> slot_reasons" "UnknownOpcode \<notin> slot_reasons"
  "ReservedBitsNonZero op w \<notin> slot_reasons" "OpenResultsNotConsumed \<notin> slot_reasons"
  "OpenResultsWithoutProducer \<notin> slot_reasons" "JumpTargetOutOfRange \<notin> slot_reasons"
  "EmptyCode \<notin> slot_reasons" "MissingFinalReturn \<notin> slot_reasons"
  by (auto simp: slot_reasons_def)

lemma check_operands_slot_error:
  assumes "check_operands view pc i st = Inl e" "reason e \<in> slot_reasons"
  shows "slot_effect pc i st = Inl e \<and> (opcode i = OP_GET_GLOBAL \<longrightarrow> check_pool view pc i = Inr ())"
  using assms(1) unfolding check_operands_def Let_def
  apply (elim if_branchE)
  by (erule no_slot_not_error [rotated], rule assms(2), (intro no_slot_intros; simp; fail)
      | drule no_slot_then [rotated], rule assms(2), (intro no_slot_intros; simp; fail),
        force simp: slot_effect_def and_then_ok)+

lemma check_instr_slot_error:
  assumes "check_instr view t pc st = Inl e" "reason e \<in> slot_reasons"
  shows "slot_effect pc (inst_at view pc) st = Inl e"
    and "opcode (inst_at view pc) = OP_GET_GLOBAL \<Longrightarrow> unat (field_b (inst_at view pc)) < length (view_strings view)"
proof -
  let ?i = "inst_at view pc"
  have open_plain: "no_slot (check_open view t pc ?i)" for st' :: verify_state
    unfolding check_open_def by (intro no_slot_intros) simp_all
  have arith_plain: "no_slot (check_arith view pc ?i operands)" for operands
    unfolding check_arith_def Let_def by (cases operands) (simp_all only: arith_operands.case, (intro no_slot_intros)+)
  have "check_operands view pc ?i st = Inl e"
  proof (cases "arith_decode (opcode ?i)")
    case None
    then have "and_then (check_operands view pc ?i st)
        (\<lambda>st'. and_then (check_open view t pc ?i) (\<lambda>_. Inr st')) = Inl e"
      using assms
      by (auto simp: check_instr_def Let_def err_def ensure_def split: if_splits)
    then show ?thesis
      using open_plain assms(2) by (cases "check_operands view pc ?i st")
        (auto dest!: no_slot_then [rotated])
  next
    case (Some r)
    then obtain op operands where r: "arith_decode (opcode ?i) = Some (op, operands)"
      by (cases r) simp
    have "no_slot (check_instr view t pc st)"
      unfolding check_instr_def Let_def r option.case prod.case
      by (intro no_slot_intros arith_plain) simp_all
    with assms show ?thesis using no_slot_not_error by blast
  qed
  note eff = check_operands_slot_error [OF this assms(2)]
  then show "slot_effect pc ?i st = Inl e" by blast
  assume get: "opcode ?i = OP_GET_GLOBAL"
  then have "pool_operand ?i = Some (PoolString, field_b ?i)" by (simp add: pool_operand_def)
  with eff get show "unat (field_b ?i) < length (view_strings view)"
    by (simp add: check_pool_def check_index_def)
qed

text \<open>The compiler's counters and the verifier's, in step.\<close>

fun entry_agrees :: "u8 option option \<Rightarrow> nat option \<Rightarrow> nat \<Rightarrow> bool" where
  "entry_agrees None e len \<longleftrightarrow> e = None"
| "entry_agrees (Some None) e len \<longleftrightarrow> e = None \<and> len = 255"
| "entry_agrees (Some (Some s)) e len \<longleftrightarrow> e = Some (unat s)"

definition globals_agree :: "u8 option option list \<Rightarrow> nat option list \<Rightarrow> nat \<Rightarrow> bool" where
  "globals_agree gs seen len \<longleftrightarrow>
     length seen = length gs \<and> (\<forall>b < length gs. entry_agrees (gs ! b) (seen ! b) len)"

definition slots_agree :: "slot_state \<Rightarrow> verify_state \<Rightarrow> bool" where
  "slots_agree a v \<longleftrightarrow>
     next_global v = global_len a \<and> next_field v = field_len a
     \<and> next_set_field v = set_field_len a \<and> next_tfor v = tfor_cursor_len a
     \<and> global_len a \<le> 255 \<and> field_len a \<le> 255 \<and> set_field_len a \<le> 255 \<and> tfor_cursor_len a \<le> 255
     \<and> globals_agree (global_slots a) (seen_global_slots v) (global_len a)"

lemma globals_agree_grow:
  "globals_agree gs seen len \<Longrightarrow> len < 255 \<Longrightarrow> globals_agree gs seen len'"
  by (auto simp: globals_agree_def elim!: entry_agrees.elims)

lemma globals_agree_update:
  assumes "globals_agree gs seen len" "b < length gs" "\<And>s. slot = Some s \<Longrightarrow> e = Some (unat s)"
    "slot = None \<Longrightarrow> e = None \<and> len = 255"
  shows "globals_agree (gs[b := Some slot]) (seen[b := e]) len"
  using assms by (cases slot) (auto simp: globals_agree_def nth_list_update)

lemma allocate_cases:
  assumes "n \<le> 255"
  obtains "n = 255" "allocate n = (None, n)"
  | "n < 255" "allocate n = (Some (of_nat n), Suc n)" "unat (of_nat n :: u8) = n"
  using assms by (cases "n = 255") (auto simp: allocate_def MAX_CACHE_SLOTS_def unat_of_nat)

lemma sequential_allocated:
  assumes "n \<le> 255" "allocate n = (s, n')"
  shows "sequential pc s n fam = Inr n'" "n' \<le> 255"
proof -
  from assms(1) have "sequential pc s n fam = Inr n' \<and> n' \<le> 255"
    by (cases rule: allocate_cases) (use assms(2) in \<open>auto simp: sequential_def\<close>)
  then show "sequential pc s n fam = Inr n'" "n' \<le> 255" by blast+
qed

lemma slots_agree_global_read:
  assumes agree: "slots_agree a v" and read: "global_read_slot (field_b i) a = (s, a')"
    and i: "cache_slot i = s" "opcode i = OP_GET_GLOBAL" "unat (field_b i) < length (global_slots a)"
  shows "\<exists>v'. check_global_slot pc i v = Inr v' \<and> slots_agree a' v'"
proof -
  define b where "b = unat (field_b i)"
  have ga: "globals_agree (global_slots a) (seen_global_slots v) (global_len a)"
    and b: "b < length (global_slots a)" and next_eq: "next_global v = global_len a"
    using i(3) agree by (simp_all add: b_def slots_agree_def)
  have le: "global_len a \<le> 255" using agree by (simp add: slots_agree_def)
  show ?thesis
  proof (cases "global_slots a ! b")
    case (Some slot)
    then have "s = slot" "a' = a" using read b by (simp_all add: global_read_slot_def b_def)
    moreover have "slot = Some t \<Longrightarrow> seen_global_slots v ! b = Some (unat t)" for t
      using ga b Some by (force simp: globals_agree_def)
    ultimately show ?thesis
      using agree i by (cases slot) (auto simp: check_global_slot_def b_def Let_def)
  next
    case None
    have unseen: "seen_global_slots v ! b = None" using ga b None by (force simp: globals_agree_def)
    from le show ?thesis
    proof (cases rule: allocate_cases)
      case 1
      then have "s = None" "a' = a\<lparr>global_slots := (global_slots a)[b := Some None], global_len := 255\<rparr>"
        using read b None by (simp_all add: global_read_slot_def b_def)
      moreover have "globals_agree ((global_slots a)[b := Some None]) (seen_global_slots v) 255"
        using globals_agree_update [OF ga b, of None None] 1 unseen list_update_id [of "seen_global_slots v" b]
        by simp
      ultimately show ?thesis
        using 1 agree i by (simp add: check_global_slot_def slots_agree_def)
    next
      case 2
      let ?n = "global_len a"
      let ?v = "v\<lparr>seen_global_slots := (seen_global_slots v)[b := Some ?n], next_global := Suc ?n\<rparr>"
      have s: "s = Some (of_nat ?n)"
        "a' = a\<lparr>global_slots := (global_slots a)[b := Some (Some (of_nat ?n))], global_len := Suc ?n\<rparr>"
        using 2 read b None by (auto simp: global_read_slot_def b_def)
      have "check_global_slot pc i v = Inr ?v"
        using s(1) 2 unseen next_eq i by (simp add: check_global_slot_def b_def Let_def)
      moreover have "globals_agree ((global_slots a)[b := Some (Some (of_nat ?n))])
          ((seen_global_slots v)[b := Some ?n]) (Suc ?n)"
        using 2 by (intro globals_agree_update [OF globals_agree_grow [OF ga 2(1)] b]) auto
      ultimately show ?thesis
        using agree 2(1) by (simp add: s(2) slots_agree_def)
    qed
  qed
qed

lemma slots_agree_step:
  assumes agree: "slots_agree a v" and choose: "choose_slot i a = Some (s, a')"
    and slot: "cache_slot i = s"
    and range: "opcode i = OP_GET_GLOBAL \<Longrightarrow> unat (field_b i) < length (global_slots a)"
  shows "\<exists>v'. slot_effect pc i v = Inr v' \<and> slots_agree a' v'"
proof (cases "opcode i = OP_GET_GLOBAL")
  case True
  then have "global_read_slot (field_b i) a = (s, a')" using choose by (simp add: choose_slot_def)
  from slots_agree_global_read [OF agree this slot True range [OF True], of pc] True show ?thesis
    by (simp add: slot_effect_def)
next
  case False
  have le: "global_len a \<le> 255" "field_len a \<le> 255" "set_field_len a \<le> 255" "tfor_cursor_len a \<le> 255"
    using agree by (simp_all add: slots_agree_def)
  show ?thesis
  proof (cases "opcode i = OP_SET_GLOBAL")
    case True
    obtain len where alloc: "allocate (global_len a) = (s, len)" "a' = a\<lparr>global_len := len\<rparr>"
      using choose True by (auto simp: choose_slot_def split: prod.splits)
    from le(1) show ?thesis
    proof (cases rule: allocate_cases)
      case 1
      have "s = None" "a' = a" using 1 alloc by (cases a; simp)+
      then show ?thesis using agree slot True
        by (auto simp: slot_effect_def check_global_slot_def)
    next
      case 2
      then show ?thesis
        using alloc agree slot True globals_agree_grow [of "global_slots a" "seen_global_slots v" "global_len a" "Suc (global_len a)"]
        by (auto simp: slot_effect_def check_global_slot_def slots_agree_def Let_def)
    qed
  next
    case False': False
    show ?thesis
      using choose False False' agree slot sequential_allocated [OF le(2)] sequential_allocated [OF le(3)]
        sequential_allocated [OF le(4)]
      by (auto simp: choose_slot_def slot_effect_def slots_agree_def split: prod.splits if_splits)
  qed
qed

lemma no_choice_no_effect: "choose_slot i a = None \<Longrightarrow> slot_effect pc i v = Inr v"
  by (auto simp: choose_slot_def slot_effect_def split: if_splits prod.splits)


text \<open>The states of the rewriting loop, read off its output.\<close>

lemma assign_slots_trace:
  assumes "assign_slots cs a = Some (js, a')"
  shows "length js = length cs \<and> (\<exists>as. as 0 = a \<and> as (length js) = a' \<and> (\<forall>pc < length js.
    (choose_slot (js ! pc) (as pc) = None \<and> as (Suc pc) = as pc)
    \<or> choose_slot (js ! pc) (as pc) = Some (cache_slot (js ! pc), as (Suc pc))))"
  using assms
proof (induction cs arbitrary: a js)
  case (Cons i cs)
  obtain j js1 a1 where js: "js = j # js1" and rest: "assign_slots cs a1 = Some (js1, a')"
    and first: "(choose_slot j a = None \<and> a1 = a) \<or> choose_slot j a = Some (cache_slot j, a1)"
  proof (cases "choose_slot i a")
    case None
    then show thesis using that Cons.prems by (auto split: option.splits)
  next
    case (Some r)
    obtain s st where r: "r = (s, st)" by (cases r)
    then obtain j js1 where j: "with_cache_slot i s = Some j" "assign_slots cs st = Some (js1, a')" "js = j # js1"
      using Some Cons.prems by (auto split: option.splits)
    have "choose_slot j a = Some (cache_slot j, st)"
      using Some r choose_slot_cong [of j i a] with_cache_slot_keeps [OF j(1)] by simp
    then show thesis using that j by blast
  qed
  from Cons.IH [OF rest] obtain as where as: "length js1 = length cs" "as 0 = a1" "as (length js1) = a'"
    "\<forall>pc < length js1. (choose_slot (js1 ! pc) (as pc) = None \<and> as (Suc pc) = as pc)
      \<or> choose_slot (js1 ! pc) (as pc) = Some (cache_slot (js1 ! pc), as (Suc pc))" by blast
  define as' where "as' = (\<lambda>n. case n of 0 \<Rightarrow> a | Suc m \<Rightarrow> as m)"
  have "as' 0 = a" "as' (length js) = a'" using as(3) by (simp_all add: as'_def js)
  moreover have "(choose_slot (js ! pc) (as' pc) = None \<and> as' (Suc pc) = as' pc)
      \<or> choose_slot (js ! pc) (as' pc) = Some (cache_slot (js ! pc), as' (Suc pc))"
    if "pc < length js" for pc
    using that first as by (cases pc) (auto simp: as'_def js)
  ultimately show ?case using as(1) js by (intro conjI exI [of _ as']) auto
next
  case Nil
  then show ?case by (auto intro!: exI [of _ "\<lambda>_. a"])
qed

lemma verifier_follows_assignment:
  assumes as: "as 0 = initial_slots (length (view_strings view))"
    "\<And>pc. pc < code_len view \<Longrightarrow>
       (choose_slot (inst_at view pc) (as pc) = None \<and> as (Suc pc) = as pc)
       \<or> choose_slot (inst_at view pc) (as pc) = Some (cache_slot (inst_at view pc), as (Suc pc))"
    and m: "m \<le> code_len view"
  shows "(\<forall>st. fold_result (check_instr view t) [0..<m] (initial_state view) = Inr st \<longrightarrow> slots_agree (as m) st)
    \<and> no_slot (fold_result (check_instr view t) [0..<m] (initial_state view))"
  using m
proof (induction m)
  case 0
  show ?case
    by (simp add: as(1) slots_agree_def globals_agree_def initial_slots_def initial_state_def no_slot_intros)
next
  case (Suc m)
  let ?i = "inst_at view m" and ?r = "fold_result (check_instr view t) [0..<m] (initial_state view)"
  have fold: "fold_result (check_instr view t) [0..<Suc m] (initial_state view)
      = and_then ?r (\<lambda>st. and_then (check_instr view t m st) Inr)"
    by (simp add: fold_result_append and_then_def split: sum.splits)
  show ?case
  proof (cases ?r)
    case (Inl e)
    then show ?thesis using Suc fold by (simp add: no_slot_def)
  next
    case (Inr st)
    then have agree: "slots_agree (as m) st" using Suc by simp
    have strings: "length (seen_global_slots st) = length (view_strings view)"
      by (rule fold_result_invariant [OF Inr])
        (auto simp: initial_state_def dest!: check_instr_effect slot_effect_seen(1))
    have step: "\<exists>v'. slot_effect m ?i st = Inr v' \<and> slots_agree (as (Suc m)) v'"
      if "opcode ?i = OP_GET_GLOBAL \<Longrightarrow> unat (field_b ?i) < length (view_strings view)"
      using as(2) [of m] Suc.prems agree no_choice_no_effect [of ?i "as m" m st]
        slots_agree_step [OF agree _ refl, of ?i "as (Suc m)" m] that strings
      by (auto simp: slots_agree_def [of "as m" st] globals_agree_def)
    have "no_slot (check_instr view t m st)"
      using step check_instr_slot_error [of view t m st] by (auto simp: no_slot_def)
    moreover have "slots_agree (as (Suc m)) st'" if "check_instr view t m st = Inr st'" for st'
      using step check_instr_effect [OF that] check_instr_global_index [OF that] by auto
    ultimately show ?thesis
      unfolding fold Inr and_then_sum
      by (cases "check_instr view t m st") (auto simp: no_slot_def)
  qed
qed


lemma no_slot_limits: "no_slot (validate_limits view)"
  unfolding validate_limits_def Let_def
  by (auto simp: no_slot_def and_then_def ensure_def err_def slot_reasons_def split: if_splits)

lemma no_slot_return: "no_slot (validate_final_return view)"
  unfolding validate_final_return_def by (intro no_slot_intros) simp

lemma check_template_plain: "no_slot (check_template strings idx seen keys)"
  by (induction keys arbitrary: seen) (auto simp: no_slot_def err_def slot_reasons_def Let_def)

lemma no_slot_loop: "(\<And>x. no_slot (f x)) \<Longrightarrow> no_slot (for_each f xs)"
  by (induction xs) (auto intro!: no_slot_intros)

lemma no_slot_templates: "no_slot (validate_templates view)"
  unfolding validate_templates_def
  by (rule no_slot_loop) (simp add: check_template_plain split: prod.split)

lemma no_slot_targets: "no_slot (jump_targets view)"
proof -
  have "no_slot (fold_result (mark_target view) pcs t)" for pcs t
    by (induction pcs arbitrary: t)
      (auto intro!: no_slot_intros simp: mark_target_def Let_def split: option.split)
  then show ?thesis by (simp add: jump_targets_def)
qed

text \<open>
  C10 (compiler.rs, Bytecode::assign_cache_slots against compiler/verify.rs,
  validate_bytecode): the verifier restates the slot policy independently, and the two agree.
  Whatever the chunk, verifying the output of the compiler's pass never fails because of a
  cache slot: not for the order of global slots, not for the order of another family, and not
  for the declared counts.
\<close>

theorem slot_policies_agree:
  assumes "assign_cache_slots c = Some c'"
    and "validate_bytecode (view_of (Bytecode c' ns)) = Inl e"
  shows "reason e \<notin> {GlobalCacheSlotOrder, CacheSlotCountMismatch} \<union> range CacheSlotOrder"
proof -
  let ?v = "view_of (Bytecode c' ns)"
  obtain js st where js: "assign_slots (code c) (initial_slots (length (string_literals c))) = Some (js, st)"
    and c': "c' = c\<lparr> code := js, global_cache_slots := of_nat (global_len st),
       field_cache_slots := of_nat (field_len st), set_field_cache_slots := of_nat (set_field_len st),
       tfor_cursor_slots := of_nat (tfor_cursor_len st) \<rparr>"
    using assms(1) by (auto simp: assign_cache_slots_def split: option.splits)
  have view: "code_len ?v = length js" "view_strings ?v = string_literals c"
    "pc < length js \<Longrightarrow> inst_at ?v pc = js ! pc" for pc
    by (simp_all add: view_of_def c' Let_def code_len_def inst_at_def from_raw_def)
  obtain as where as: "as 0 = initial_slots (length (string_literals c))" "as (length js) = st"
    "\<forall>pc < length js. (choose_slot (js ! pc) (as pc) = None \<and> as (Suc pc) = as pc)
      \<or> choose_slot (js ! pc) (as pc) = Some (cache_slot (js ! pc), as (Suc pc))"
    using assign_slots_trace [OF js] by blast
  have loop: "no_slot (fold_result (check_instr ?v t) [0..<code_len ?v] (initial_state ?v))"
    "fold_result (check_instr ?v t) [0..<code_len ?v] (initial_state ?v) = Inr fin \<Longrightarrow> slots_agree st fin"
    for t fin
    using verifier_follows_assignment [of as ?v "code_len ?v" t] as view by auto
  have counts: "check_slot_counts ?v fin = Inr ()" if "slots_agree st fin" for fin
    using that by (simp add: check_slot_counts_def slots_agree_def view_of_def c' Let_def unat_of_nat)
  have "no_slot (validate_bytecode ?v)"
  proof -
    have "no_slot (and_then (fold_result (check_instr ?v t) [0..<code_len ?v] (initial_state ?v))
        (check_slot_counts ?v))" for t
      using loop [of t] counts
      by (cases "fold_result (check_instr ?v t) [0..<code_len ?v] (initial_state ?v)") (auto simp: no_slot_def)
    then show ?thesis
      unfolding validate_bytecode_def
      by (rule no_slot_and_then [OF no_slot_limits no_slot_and_then [OF no_slot_return
            no_slot_and_then [OF no_slot_templates no_slot_and_then [OF no_slot_targets]]]])
  qed
  with assms(2) show ?thesis by (simp add: no_slot_def slot_reasons_def)
qed

text \<open>A chunk that ends in a global read: rejected, but not for the slot the pass gave it.\<close>

definition unfinished_chunk :: chunk where
  "unfinished_chunk = default_chunk\<lparr>code := [pack OP_GET_GLOBAL 0 0 0 9], string_literals := [''x''],
     max_stack := 1, line_info := [1]\<rparr>"

theorem slot_policies_agree_witness:
  "assign_cache_slots unfinished_chunk
     = Some (unfinished_chunk\<lparr>code := [pack OP_GET_GLOBAL 0 0 0 1], global_cache_slots := 1\<rparr>)
   \<and> MissingFinalReturn \<notin> {GlobalCacheSlotOrder, CacheSlotCountMismatch} \<union> range CacheSlotOrder"
proof -
  let ?c = "unfinished_chunk\<lparr>code := [pack OP_GET_GLOBAL 0 0 0 1], global_cache_slots := 1\<rparr>"
  have assign: "assign_cache_slots unfinished_chunk = Some ?c"
    by (simp add: assign_cache_slots_def unfinished_chunk_def default_chunk_def initial_slots_def
        choose_slot_def global_read_slot_def allocate_def with_cache_slot_pack encode_cache_slot_def
        MAX_CACHE_SLOTS_def)
  have "validate_bytecode (view_of (Bytecode ?c [])) = Inl (err (Some 0) MissingFinalReturn)"
    by (simp add: validate_bytecode_def validate_limits_def validate_final_return_def view_of_def
        unfinished_chunk_def default_chunk_def code_len_def inst_at_def from_raw_def Let_def
        MAX_TABLE_TEMPLATES_def MAX_NESTED_def MAX_UPVALUES_def MAX_LITERALS_def
        MAX_TABLE_TEMPLATE_FIELDS_def MAX_FRAME_SLOTS_def OPEN_COUNT_def)
  from slot_policies_agree [OF assign this] assign show ?thesis by (simp add: err_def)
qed

end
