(* ===== verification/Finalize.thy ===== *)
theory Finalize
  imports Verify_Sound
begin

text \<open>
  \<open>compiler.rs\<close>: the compile entry and the finalization of a freshly parsed chunk tree. The
  parser is an argument of \<open>compile_with_globals\<close>; whether a nested \<open>Arc\<close> is uniquely owned is
  an argument of the finalization, since a tree value does not show reference counts.

  Shown here: what finalization returns is admitted at every level (verified, within the depth
  limit, its children's captures valid, its diagnostic name bounded and cut at a character
  boundary), and finalization never panics and never fails for a cache slot.
\<close>

section \<open>Errors\<close>

datatype 'p compile_error =
    SourceNameSizeExceeded nat nat
  | ParseFailed 'p
  | CompilerValidation (fault_function: "string option") (fault: validation_error)
      (fault_source: "string option") (fault_line: "u32 option")
  | LineInfoDesynced
  | NestedBytecodeNotUniquelyOwned
  | CompilerPanic

definition map_error :: "('e \<Rightarrow> 'f) \<Rightarrow> 'e + 'a \<Rightarrow> 'f + 'a" where
  "map_error f r = (case r of Inl e \<Rightarrow> Inl (f e) | Inr x \<Rightarrow> Inr x)"

text \<open>The release build: the debug assertion of the source is not part of it.\<close>

definition validation_error_of :: "chunk \<Rightarrow> validation_error \<Rightarrow> 'p compile_error" where
  "validation_error_of bc e =
     CompilerValidation (chunk_name bc) e (chunk_source bc)
       (case instruction e of
          None \<Rightarrow> None
        | Some n \<Rightarrow> if unat n < length (line_info bc) then Some (line_info bc ! unat n) else None)"

section \<open>Diagnostic names\<close>

definition is_char_boundary :: "string \<Rightarrow> nat \<Rightarrow> bool" where
  "is_char_boundary s n \<longleftrightarrow>
     n = 0 \<or> n = length s
     \<or> (n < length s \<and> (of_char (s ! n) < (128 :: nat) \<or> of_char (s ! n) \<ge> (192 :: nat)))"

fun back_to_boundary :: "string \<Rightarrow> nat \<Rightarrow> nat" where
  "back_to_boundary s 0 = 0"
| "back_to_boundary s (Suc n) =
     (if is_char_boundary s (Suc n) then Suc n else back_to_boundary s n)"

definition bound_name :: "chunk \<Rightarrow> chunk" where
  "bound_name bc =
     (case chunk_name bc of
        Some name \<Rightarrow>
          if length name > MAX_CHUNK_NAME_BYTES
          then bc\<lparr>chunk_name := Some (take (back_to_boundary name MAX_CHUNK_NAME_BYTES) name)\<rparr>
          else bc
      | None \<Rightarrow> bc)"

section \<open>Finalization\<close>

fun traverse :: "('a \<Rightarrow> 'e + 'b) \<Rightarrow> 'a list \<Rightarrow> 'e + 'b list" where
  "traverse f [] = Inr []"
| "traverse f (x # xs) = and_then (f x) (\<lambda>y. and_then (traverse f xs) (\<lambda>ys. Inr (y # ys)))"

lemma traverse_cong [fundef_cong]:
  assumes "xs = ys" "\<And>x. x \<in> set ys \<Longrightarrow> f x = g x"
  shows "traverse f xs = traverse g ys"
proof -
  have "(\<And>x. x \<in> set ys \<Longrightarrow> f x = g x) \<Longrightarrow> traverse f ys = traverse g ys"
    by (induction ys) simp_all
  with assms show ?thesis by simp
qed

fun finalize_at_depth ::
  "(bytecode \<Rightarrow> bool) \<Rightarrow> nat \<Rightarrow> bytecode \<Rightarrow> 'p compile_error + bytecode" where
  "finalize_at_depth unique depth (Bytecode bc bs) =
     and_then (map_error (validation_error_of bc) (validate_depth depth)) (\<lambda>_.
     let bc1 = bound_name bc in
     and_then (ensure (length (code bc1) = length (line_info bc1)) LineInfoDesynced) (\<lambda>_.
     case assign_cache_slots bc1 of
       None \<Rightarrow> Inl CompilerPanic
     | Some bc2 \<Rightarrow>
         let view = view_of (Bytecode bc2 bs) in
         and_then (map_error (validation_error_of bc2) (validate_bytecode view)) (\<lambda>_.
         and_then (for_each (\<lambda>child. map_error (validation_error_of bc2)
                     (validate_child view (view_of child))) bs) (\<lambda>_.
         and_then (traverse (\<lambda>child.
                     if unique child then finalize_at_depth unique (depth + 1) child
                     else Inl NestedBytecodeNotUniquelyOwned) bs) (\<lambda>bs'.
         Inr (Bytecode bc2 bs'))))))"

definition finalize :: "(bytecode \<Rightarrow> bool) \<Rightarrow> bytecode \<Rightarrow> 'p compile_error + bytecode" where
  "finalize unique bc = finalize_at_depth unique 1 bc"

definition compile_with_globals ::
  "(bytecode \<Rightarrow> bool) \<Rightarrow> (string \<Rightarrow> string option \<Rightarrow> 'p + bytecode \<times> 'g) \<Rightarrow> string \<Rightarrow> string option
     \<Rightarrow> 'p compile_error + bytecode \<times> 'g" where
  "compile_with_globals unique parse source name =
     and_then
       (case name of
          Some n \<Rightarrow> ensure (\<not> length n > MAX_SOURCE_NAME_BYTES)
                     (SourceNameSizeExceeded (length n) MAX_SOURCE_NAME_BYTES)
        | None \<Rightarrow> Inr ()) (\<lambda>_.
     and_then (map_error ParseFailed (parse source name)) (\<lambda>(bc, globals).
     and_then (finalize unique bc) (\<lambda>bc'. Inr (bc', globals))))"

definition compile ::
  "(bytecode \<Rightarrow> bool) \<Rightarrow> (string \<Rightarrow> string option \<Rightarrow> 'p + bytecode \<times> 'g) \<Rightarrow> string \<Rightarrow> string option
     \<Rightarrow> 'p compile_error + bytecode" where
  "compile unique parse source name =
     and_then (compile_with_globals unique parse source name) (\<lambda>(bc, _). Inr bc)"

section \<open>What finalization admits\<close>

fun admitted :: "nat \<Rightarrow> bytecode \<Rightarrow> bool" where
  "admitted depth (Bytecode c bs) \<longleftrightarrow>
     depth \<le> MAX_CHUNK_NESTING
     \<and> validate_bytecode (view_of (Bytecode c bs)) = Inr ()
     \<and> list_all (\<lambda>b. validate_child (view_of (Bytecode c bs)) (view_of b) = Inr ()) bs
     \<and> case_option True (\<lambda>nm. length nm \<le> MAX_CHUNK_NAME_BYTES) (chunk_name c)
     \<and> list_all (admitted (depth + 1)) bs"

lemma map_error_sum [simp]: "map_error f (Inl e) = Inl (f e)" "map_error f (Inr x) = Inr x"
  by (simp_all add: map_error_def)

lemma map_error_ok [simp, result_simps]: "map_error f r = Inr x \<longleftrightarrow> r = Inr x"
  by (cases r) (simp_all add: map_error_def)

lemma traverse_ok: "traverse f xs = Inr ys \<longleftrightarrow> list_all2 (\<lambda>x y. f x = Inr y) xs ys"
  by (induction xs arbitrary: ys) (auto simp: and_then_ok list_all2_Cons1)

lemma back_to_boundary:
  "back_to_boundary s n \<le> n \<and> is_char_boundary s (back_to_boundary s n)"
  by (induction n) (auto simp: is_char_boundary_def)

lemma bound_name_length:
  "chunk_name (bound_name c) = Some nm \<Longrightarrow> length nm \<le> MAX_CHUNK_NAME_BYTES"
  using back_to_boundary [THEN conjunct1, of _ MAX_CHUNK_NAME_BYTES]
  by (auto simp: bound_name_def min_le_iff_disj split: option.splits if_splits)

lemma bound_name_keeps [simp]:
  "code (bound_name c) = code c" "upvalues (bound_name c) = upvalues c"
  "line_info (bound_name c) = line_info c"
  by (auto simp: bound_name_def split: option.splits)

lemma assign_keeps:
  "assign_cache_slots c = Some c' \<Longrightarrow> chunk_name c' = chunk_name c \<and> upvalues c' = upvalues c"
  by (auto simp: assign_cache_slots_def split: option.splits)

lemma view_of_nested: "length bs = length bs' \<Longrightarrow> view_of (Bytecode c bs) = view_of (Bytecode c bs')"
  by (simp add: view_of_def)

lemma validate_child_upvalues:
  "view_upvalues child = view_upvalues child' \<Longrightarrow> validate_child parent child = validate_child parent child'"
  by (simp add: validate_child_def)

lemma finalize_at_depth_ok:
  assumes "finalize_at_depth unique depth b = (Inr b' :: 'p compile_error + bytecode)"
  shows "admitted depth b' \<and> view_upvalues (view_of b') = view_upvalues (view_of b)"
  using assms
proof (induction b arbitrary: depth b')
  case (Bytecode c bs)
  obtain c2 bs' where c2: "assign_cache_slots (bound_name c) = Some c2" and b': "b' = Bytecode c2 bs'"
    and depth: "validate_depth depth = Inr ()"
    and valid: "validate_bytecode (view_of (Bytecode c2 bs)) = Inr ()"
    and children: "\<forall>b \<in> set bs. validate_child (view_of (Bytecode c2 bs)) (view_of b) = Inr ()"
    and nested: "list_all2 (\<lambda>x y. (if unique x then finalize_at_depth unique (depth + 1) x
                     else Inl NestedBytecodeNotUniquelyOwned) = (Inr y :: 'p compile_error + bytecode)) bs bs'"
    using Bytecode.prems by (auto simp: and_then_ok Let_def traverse_ok split: option.splits)
  have len: "length bs = length bs'" using nested by (rule list_all2_lengthD)
  note view = view_of_nested [OF len, of c2]
  have child: "admitted (depth + 1) y \<and> view_upvalues (view_of y) = view_upvalues (view_of x)"
    if "(x, y) \<in> set (zip bs bs')" for x y
    using that nested Bytecode.IH [of x "depth + 1" y] set_zip_leftD [OF that]
    by (auto simp: list_all2_iff split: if_splits)
  have "admitted (depth + 1) y \<and> validate_child (view_of (Bytecode c2 bs')) (view_of y) = Inr ()"
    if "y \<in> set bs'" for y
  proof -
    from that obtain x where xy: "(x, y) \<in> set (zip bs bs')"
      using len by (metis in_set_impl_in_set_zip2)
    with child [OF xy] children set_zip_leftD [OF xy] show ?thesis
      using validate_child_upvalues [of "view_of x" "view_of y"] view by auto
  qed
  moreover have "case_option True (\<lambda>nm. length nm \<le> MAX_CHUNK_NAME_BYTES) (chunk_name c2)"
    using assign_keeps [OF c2] bound_name_length by (simp split: option.split)
  moreover have "view_upvalues (view_of b') = view_upvalues (view_of (Bytecode c bs))"
    using assign_keeps [OF c2] by (simp add: b' view_of_def)
  ultimately show ?case
    using depth valid view by (simp add: b' validate_depth_def list_all_iff)
qed

text \<open>Errors of finalization: the depth, the lines, ownership, or a verifier's reason about no slot.\<close>

fun slot_free :: "'p compile_error \<Rightarrow> bool" where
  "slot_free (CompilerValidation fn e src ln) \<longleftrightarrow> reason e \<notin> slot_reasons"
| "slot_free CompilerPanic \<longleftrightarrow> False"
| "slot_free _ \<longleftrightarrow> True"

lemma traverse_error: "traverse f xs = Inl e \<Longrightarrow> \<exists>x \<in> set xs. f x = Inl e"
  by (induction xs) (auto simp: and_then_def split: sum.splits)

lemma for_each_error: "for_each f xs = Inl e \<Longrightarrow> \<exists>x \<in> set xs. f x = Inl e"
  by (induction xs) (auto simp: and_then_def split: sum.splits)

lemma map_error_error: "map_error f r = Inl e \<longleftrightarrow> (\<exists>e'. r = Inl e' \<and> e = f e')"
  by (cases r) (auto simp: map_error_def)

lemma and_then_error: "and_then r f = Inl e \<longleftrightarrow> r = Inl e \<or> (\<exists>x. r = Inr x \<and> f x = Inl e)"
  by (cases r) simp_all

lemma finalize_at_depth_error:
  assumes "finalize_at_depth unique depth b = (Inl e :: 'p compile_error + bytecode)"
  shows "slot_free e"
  using assms
proof (induction b arbitrary: depth)
  case (Bytecode c bs)
  obtain c2 where c2: "assign_cache_slots (bound_name c) = Some c2"
    using assign_cache_slots_total_idempotent by blast
  let ?v = "view_of (Bytecode c2 bs)"
  have depth: ?case if "validate_depth depth = Inl e'" for e'
    using that Bytecode.prems
    by (auto simp: validate_depth_def map_error_def err_def validation_error_of_def slot_reasons_def)
  have body: ?case if "validate_bytecode ?v = Inl e'" "e = validation_error_of c2 e'" for e'
    using slot_policies_agree [OF c2 that(1)] that(2)
    by (simp add: validation_error_of_def slot_reasons_def)
  have child: ?case if "for_each (\<lambda>b. map_error (validation_error_of c2) (validate_child ?v (view_of b))) bs = Inl e"
  proof -
    from for_each_error [OF that] obtain x e' where
      "validate_child ?v (view_of x) = Inl e'" "e = validation_error_of c2 e'"
      by (auto simp: map_error_error)
    then have "reason e' = ChildUpvalueInvalid"
      by (auto simp: validate_child_def err_def dest!: for_each_error)
    then show ?thesis
      using \<open>e = validation_error_of c2 e'\<close> by (simp add: validation_error_of_def slot_reasons_def image_iff)
  qed
  have nested: ?case if "traverse (\<lambda>b. if unique b then finalize_at_depth unique (depth + 1) b
       else Inl NestedBytecodeNotUniquelyOwned) bs = Inl e"
    using traverse_error [OF that] Bytecode.IH [of _ "depth + 1"] by (auto split: if_splits)
  show ?case
  proof (cases "validate_depth depth")
    case (Inr u)
    show ?thesis
    proof (cases "length (code c) = length (line_info c)")
      case True
      note prems = Bytecode.prems [simplified finalize_at_depth.simps Inr Let_def c2 bound_name_keeps True
          option.case ensure_bool and_then_sum map_error_sum simp_thms]
      show ?thesis
        using prems body child nested
        by (auto simp: and_then_error map_error_error)
    next
      case False
      then show ?thesis using Bytecode.prems Inr by (simp add: map_error_def)
    qed
  qed (rule depth)
qed

text \<open>
  C11 (compiler.rs, finalize): a chunk tree that finalization returns is admitted at every level.
  Each chunk is accepted by the verifier, lies within the chunk depth limit, declares only
  captures that exist in its parent, and has a diagnostic name within the limit.
\<close>

theorem finalized_tree_admitted:
  assumes "finalize unique bc = (Inr bc' :: 'p compile_error + bytecode)"
  shows "admitted 1 bc'"
  using finalize_at_depth_ok [OF assms [unfolded finalize_def]] by simp

definition tiny_child :: bytecode where
  "tiny_child =
     Bytecode (default_chunk\<lparr>code := [pack OP_RETURN 0 0 0 0], line_info := [2], upvalues := [UpLocal 0]\<rparr>) []"

definition tiny_tree :: bytecode where
  "tiny_tree =
     Bytecode (default_chunk\<lparr>code := [pack OP_CLOSURE 0 0 0 0, pack OP_RETURN 0 0 0 0], line_info := [1, 3],
       num_locals := 1, max_stack := 1\<rparr>) [tiny_child]"

text \<open>A chunk that finalization leaves as it is.\<close>

lemma finalize_fixpoint:
  assumes "validate_depth d = Inr ()" "length (code c) = length (line_info c)"
    and "assign_cache_slots (bound_name c) = Some c" "validate_bytecode (view_of (Bytecode c bs)) = Inr ()"
    and "\<And>b. b \<in> set bs \<Longrightarrow> validate_child (view_of (Bytecode c bs)) (view_of b) = Inr ()
       \<and> unique b \<and> finalize_at_depth unique (d + 1) b = (Inr b :: 'p compile_error + bytecode)"
  shows "finalize_at_depth unique d (Bytecode c bs) = (Inr (Bytecode c bs) :: 'p compile_error + bytecode)"
proof -
  have "traverse (\<lambda>b. if unique b then finalize_at_depth unique (d + 1) b
      else Inl NestedBytecodeNotUniquelyOwned) bs = (Inr bs :: 'p compile_error + bytecode list)"
    using assms(5) by (simp add: traverse_ok list.rel_refl_strong)
  moreover have "for_each (\<lambda>child. map_error (validation_error_of c)
      (validate_child (view_of (Bytecode c bs)) (view_of child))) bs = (Inr () :: 'p compile_error + unit)"
    using assms(5) by simp
  ultimately show ?thesis using assms(1-4) by (simp add: Let_def and_then_ok)
qed

lemma tiny_verified:
  "validate_bytecode (view_of tiny_child) = Inr ()" "validate_bytecode (view_of tiny_tree) = Inr ()"
  by (simp_all add: validate_bytecode_def validate_limits_def validate_final_return_def validate_templates_def
      jump_targets_def mark_target_def view_of_def tiny_tree_def tiny_child_def default_chunk_def code_len_def
      inst_at_def from_raw_def upt_conv_Cons initial_state_def check_slot_counts_def is_transfer_def layout_of_def
      MAX_TABLE_TEMPLATES_def MAX_NESTED_def MAX_UPVALUES_def MAX_LITERALS_def
      MAX_TABLE_TEMPLATE_FIELDS_def MAX_FRAME_SLOTS_def verifier_eval)

lemma tiny_assigned:
  "assign_cache_slots (bound_name (body tiny_child)) = Some (body tiny_child)"
  "assign_cache_slots (bound_name (body tiny_tree)) = Some (body tiny_tree)"
  by (simp_all add: assign_cache_slots_def tiny_tree_def tiny_child_def default_chunk_def bound_name_def
      choose_slot_def initial_slots_def)

theorem finalized_tree_admitted_witness: "admitted 1 tiny_tree"
proof -
  have depth: "validate_depth 1 = Inr ()" "validate_depth (1 + 1) = Inr ()"
    by (simp_all add: validate_depth_def MAX_CHUNK_NESTING_def MAX_SYNTAX_DEPTH_def)
  have shape: "Bytecode (body tiny_child) [] = tiny_child" "Bytecode (body tiny_tree) [tiny_child] = tiny_tree"
    by (simp_all add: tiny_child_def tiny_tree_def)
  have child: "finalize_at_depth (\<lambda>_. True) (1 + 1) tiny_child = (Inr tiny_child :: unit compile_error + bytecode)"
    using finalize_fixpoint [of "1 + 1" "body tiny_child" "[]"] depth tiny_verified tiny_assigned
    unfolding shape by (simp add: tiny_child_def default_chunk_def)
  have up: "validate_child (view_of tiny_tree) (view_of tiny_child) = Inr ()"
    by (simp add: validate_child_def view_of_def tiny_tree_def tiny_child_def default_chunk_def)
  have "length (code (body tiny_tree)) = length (line_info (body tiny_tree))"
    by (simp add: tiny_tree_def default_chunk_def)
  from finalize_fixpoint [OF depth(1) this tiny_assigned(2), of "[tiny_child]" "\<lambda>_. True"] child up tiny_verified
  have "finalize (\<lambda>_. True) tiny_tree = (Inr tiny_tree :: unit compile_error + bytecode)"
    unfolding shape finalize_def by simp
  then show ?thesis by (rule finalized_tree_admitted)
qed





end
