(* ===== verification/Vm_State.thy ===== *)
theory Vm_State
  imports Dispatch_Cost Bytecode
begin

text \<open>
  The run-time state the modelled parts of the VM share: values (\<open>vm/lua_val.rs\<close>), the upvalue
  pool (\<open>vm/object.rs\<close>), activation records and the in-flight bookkeeping (\<open>vm.rs\<close>,
  \<open>vm/inventory.rs\<close>), and the operations on the value stack (\<open>vm/stack.rs\<close>). Pointers into the
  garbage-collected heap are numbers; of the heap only the Lua functions are part of this state. Stack positions and depths are natural
  numbers: the stack cap and the depth limits keep them far below the width of \<open>usize\<close>.

  Shown here: no sequence of host stack operations touches a slot below the frame it works in,
  leaves the frame boundary outside the stack or lets the stack exceed its cap, and an operation
  that fails changes nothing.
\<close>

section \<open>Values\<close>

datatype val = VNil | VBool bool | VNum u64 | VStr nat | VRustFn nat | VObj nat

fun truthy :: "val \<Rightarrow> bool" where
  "truthy VNil = False"
| "truthy (VBool b) = b"
| "truthy _ = True"

fun as_num :: "val \<Rightarrow> u64 option" where
  "as_num (VNum n) = Some n"
| "as_num _ = None"

section \<open>Upvalue pool\<close>

datatype upvalue = UvOpen nat | UvClosed val

datatype slot_color = SlotFree | SlotUnmarked | SlotReachable

record upvalue_pool =
  pool_slots :: "upvalue list"
  pool_colors :: "slot_color list"
  pool_free :: "nat list"

definition pool_new :: upvalue_pool where
  "pool_new = \<lparr> pool_slots = [], pool_colors = [], pool_free = [] \<rparr>"

text \<open>The free list is consumed from its end; here its head is that end.\<close>

definition pool_alloc :: "upvalue \<Rightarrow> upvalue_pool \<Rightarrow> nat \<times> upvalue_pool" where
  "pool_alloc uv p =
     (case pool_free p of
        idx # rest \<Rightarrow>
          (idx, p\<lparr> pool_free := rest, pool_slots := (pool_slots p)[idx := uv],
                   pool_colors := (pool_colors p)[idx := SlotUnmarked] \<rparr>)
      | [] \<Rightarrow>
          (length (pool_slots p),
           p\<lparr> pool_slots := pool_slots p @ [uv], pool_colors := pool_colors p @ [SlotUnmarked] \<rparr>))"

text \<open>\<^const>\<open>None\<close> is the assertion that a swept slot is never marked.\<close>

definition mark_slot :: "nat \<Rightarrow> upvalue_pool \<Rightarrow> upvalue_pool option" where
  "mark_slot r p =
     (if pool_colors p ! r = SlotFree then None
      else Some (p\<lparr> pool_colors := (pool_colors p)[r := SlotReachable] \<rparr>))"

definition sweep_slot :: "nat \<Rightarrow> upvalue_pool \<Rightarrow> upvalue_pool" where
  "sweep_slot idx p =
     (case pool_colors p ! idx of
        SlotReachable \<Rightarrow> p\<lparr> pool_colors := (pool_colors p)[idx := SlotUnmarked] \<rparr>
      | SlotUnmarked \<Rightarrow>
          p\<lparr> pool_slots := (pool_slots p)[idx := UvClosed VNil],
             pool_colors := (pool_colors p)[idx := SlotFree], pool_free := idx # pool_free p \<rparr>
      | SlotFree \<Rightarrow> p)"

definition sweep :: "upvalue_pool \<Rightarrow> upvalue_pool" where
  "sweep p = fold sweep_slot [0..<length (pool_colors p)] p"

definition pool_get :: "upvalue_pool \<Rightarrow> nat \<Rightarrow> upvalue" where
  "pool_get p r = pool_slots p ! r"

definition pool_set :: "nat \<Rightarrow> upvalue \<Rightarrow> upvalue_pool \<Rightarrow> upvalue_pool" where
  "pool_set r uv p = p\<lparr> pool_slots := (pool_slots p)[r := uv] \<rparr>"

section \<open>The in-flight state\<close>

text \<open>\<open>ChainUnits\<close>: the \<open>__call\<close> chain units with the tail-call mark in the top bit.\<close>

definition TAIL_CALLED :: u32 where
  "TAIL_CALLED = push_bit 31 1"

definition chain_units :: "u32 \<Rightarrow> u32" where
  "chain_units c = c AND NOT TAIL_CALLED"

definition tail_called :: "u32 \<Rightarrow> bool" where
  "tail_called c \<longleftrightarrow> c AND TAIL_CALLED \<noteq> 0"

definition marked_tail_called :: "u32 \<Rightarrow> u32" where
  "marked_tail_called c = c OR TAIL_CALLED"

definition with_units :: "u32 \<Rightarrow> u32 \<Rightarrow> u32" where
  "with_units c units = c AND TAIL_CALLED OR units"

record call_info =
  ci_bytecode :: bytecode
  ci_ip :: nat
  ci_vararg_start :: nat
  ci_chain :: u32

text \<open>
  The Lua functions of the heap: the compiled function, the literals of its runtime and the
  captured upvalues. The rest of the heap is not part of the state.
\<close>

record closure =
  cl_bytecode :: bytecode
  cl_literals :: "val list"
  cl_upvalues :: "nat list"

text \<open>
  \<open>Frame\<close>: of the shared runtime only the literals are modelled. The local cursor of the dispatch
  loop, which every exit publishes to the frame, is the frame's own \<open>ip\<close>.
\<close>

record frame =
  fr_bytecode :: bytecode
  fr_ip :: nat
  fr_literals :: "val list"
  fr_upvalues :: "nat list"
  fr_bottom :: nat
  fr_top :: nat

definition frame_new :: "bytecode \<Rightarrow> val list \<Rightarrow> nat list \<Rightarrow> nat \<Rightarrow> frame" where
  "frame_new bc literals ups bottom =
     \<lparr> fr_bytecode = bc, fr_ip = 0, fr_literals = literals, fr_upvalues = ups, fr_bottom = bottom,
       fr_top = bottom + unat (max_stack (body bc)) \<rparr>"

text \<open>
  \<open>State\<close> with its \<open>InFlight\<close> record. The call stack has its innermost record first. Two components
  are local variables of the source: \<open>frames\<close>, the frames of the innermost dispatch-loop
  invocation, the running one first (\<open>run_invocation\<close>), and \<open>pending\<close>, its unsettled cost
  (\<open>Frame::run\<close>). A nested invocation saves and restores them.
\<close>

record vm_state =
  stack :: "val list"
  stack_bottom :: nat
  open_upvalues :: "(nat \<times> nat) list"
  upvalue_pool :: upvalue_pool
  call_stack :: "call_info list"
  vararg_stack :: "val list"
  call_depth :: nat
  metamethod_depth :: nat
  interrupt :: bool
  poisoned :: bool
  fp_unsupported :: bool
  native_call_depth :: nat
  active_rust_fn :: "nat option"
  closures :: "nat \<rightharpoonup> closure"
  vm_cost :: cost_state
  pending :: u64
  frames :: "frame list"

datatype vm_error =
    InvalidStackIndex int
  | StackOverflow nat nat
  | StateUnusable
  | Interrupted
  | CallDepthExceeded nat nat
  | TooManyArguments u8
  | TooManyResults u8
  | WindowOverlapsOpenUpvalue
  | NumericForControlsNotNumeric
  | NumericForStep
  | NumericForLimit
  | NumericForInitialValue
  | ArithmeticOnNonNumber
  | ComparisonOfTypes val val
  | VmBudgetExceeded cost_error
  | NativeCallDepthExceeded nat nat
  | MetamethodDepthExceeded nat nat
  | NotCallable val
  | ResultCountExceedsStack u8 nat
  | FloatEnvironment
  | DynamicArgumentsUnsupported
  | HostError nat

type_synonym 'a vm_result = "(vm_error + 'a) \<times> vm_state"

definition MAX_STACK_SIZE :: nat where
  "MAX_STACK_SIZE = 1000000"

section \<open>Stack operations\<close>

text \<open>\<open>fp_unsupported\<close>: host code is active and the floating-point environment is not the default.\<close>

definition check_usable :: "vm_state \<Rightarrow> vm_error + unit" where
  "check_usable s = ensure (\<not> (poisoned s \<or> fp_unsupported s)) StateUnusable"

definition get_top :: "vm_state \<Rightarrow> nat" where
  "get_top s = length (stack s) - stack_bottom s"

definition check_stack_slot :: "vm_state \<Rightarrow> vm_error + unit" where
  "check_stack_slot s =
     ensure (\<not> length (stack s) \<ge> MAX_STACK_SIZE) (StackOverflow (length (stack s) + 1) MAX_STACK_SIZE)"

definition check_stack_space :: "nat \<Rightarrow> vm_state \<Rightarrow> vm_error + unit" where
  "check_stack_space n s =
     (let new_size = length (stack s) + n
      in ensure (\<not> new_size > MAX_STACK_SIZE) (StackOverflow new_size MAX_STACK_SIZE))"

text \<open>\<open>Vec::resize\<close> with nil.\<close>

definition vec_resize :: "nat \<Rightarrow> val list \<Rightarrow> val list" where
  "vec_resize len vs = take len vs @ replicate (len - length vs) VNil"

definition resize_stack :: "nat \<Rightarrow> vm_state \<Rightarrow> vm_error + vm_state" where
  "resize_stack len s =
     and_then (if len > length (stack s) then check_stack_space (len - length (stack s)) s else Inr ())
       (\<lambda>_. Inr (s\<lparr>stack := vec_resize len (stack s)\<rparr>))"

definition convert_idx :: "int \<Rightarrow> vm_state \<Rightarrow> vm_error + nat" where
  "convert_idx i s =
     (let top = int (length (stack s)); bottom = int (stack_bottom s); len = top - bottom
      in if i > 0 \<and> i \<le> len then Inr (nat (i - 1 + bottom))
         else if i < 0 \<and> i \<ge> - len then Inr (nat (top + i))
         else Inl (InvalidStackIndex i))"

definition at_index :: "int \<Rightarrow> vm_state \<Rightarrow> vm_error + val" where
  "at_index i s = and_then (convert_idx i s) (\<lambda>k. Inr (stack s ! k))"

definition push_val :: "val \<Rightarrow> vm_state \<Rightarrow> vm_error + vm_state" where
  "push_val v s = and_then (check_stack_slot s) (\<lambda>_. Inr (s\<lparr>stack := stack s @ [v]\<rparr>))"

text \<open>\<open>push_nil\<close>, \<open>push_number\<close> and \<open>push_boolean\<close>.\<close>

definition push_plain :: "val \<Rightarrow> vm_state \<Rightarrow> vm_error + vm_state" where
  "push_plain v s = and_then (check_usable s) (\<lambda>_. push_val v s)"

definition set_top :: "int \<Rightarrow> vm_state \<Rightarrow> vm_error + vm_state" where
  "set_top i s =
     and_then (check_usable s) (\<lambda>_.
     and_then
       (if i < 0
        then let target = int (get_top s) + i + 1
             in if target \<ge> 0 then Inr (nat target) else Inl (InvalidStackIndex i)
        else Inr (nat i))
       (\<lambda>new_top. resize_stack (stack_bottom s + new_top) s))"

definition pop_n :: "int \<Rightarrow> vm_state \<Rightarrow> vm_error + vm_state" where
  "pop_n n s =
     (if n < 0 \<or> nat n > get_top s then Inl (InvalidStackIndex n)
      else Inr (s\<lparr>stack := take (length (stack s) - nat n) (stack s)\<rparr>))"

definition pop :: "int \<Rightarrow> vm_state \<Rightarrow> vm_error + vm_state" where
  "pop n s = and_then (check_usable s) (\<lambda>_. pop_n n s)"

definition push_value :: "int \<Rightarrow> vm_state \<Rightarrow> vm_error + vm_state" where
  "push_value i s =
     and_then (check_usable s) (\<lambda>_. and_then (at_index i s) (\<lambda>v. push_val v s))"

definition insert_at :: "int \<Rightarrow> vm_state \<Rightarrow> vm_error + vm_state" where
  "insert_at i s =
     and_then (check_usable s) (\<lambda>_. and_then (convert_idx i s) (\<lambda>k.
       Inr (s\<lparr>stack := take k (stack s) @ [last (stack s)] @ butlast (drop k (stack s))\<rparr>)))"

definition remove_at :: "int \<Rightarrow> vm_state \<Rightarrow> vm_error + vm_state" where
  "remove_at i s =
     and_then (check_usable s) (\<lambda>_. and_then (convert_idx i s) (\<lambda>k.
       Inr (s\<lparr>stack := take k (stack s) @ drop (Suc k) (stack s)\<rparr>)))"

definition remove_bottom :: "nat \<Rightarrow> vm_state \<Rightarrow> vm_error + vm_state" where
  "remove_bottom count s =
     (if count > get_top s then Inl (InvalidStackIndex (int count))
      else Inr (s\<lparr>stack := take (stack_bottom s) (stack s) @ drop (stack_bottom s + count) (stack s)\<rparr>))"

definition replace_at :: "int \<Rightarrow> vm_state \<Rightarrow> vm_error + vm_state" where
  "replace_at i s =
     and_then (check_usable s) (\<lambda>_. and_then (convert_idx i s) (\<lambda>k.
       let popped = butlast (stack s)
       in Inr (s\<lparr>stack := (if k < length popped then popped[k := last (stack s)] else popped)\<rparr>)))"

definition copy_val :: "int \<Rightarrow> int \<Rightarrow> vm_state \<Rightarrow> vm_error + vm_state" where
  "copy_val from to s =
     and_then (check_usable s) (\<lambda>_. and_then (at_index from s) (\<lambda>v. and_then (convert_idx to s) (\<lambda>k.
       Inr (s\<lparr>stack := (stack s)[k := v]\<rparr>))))"

definition to_boolean :: "int \<Rightarrow> vm_state \<Rightarrow> bool" where
  "to_boolean i s \<longleftrightarrow> \<not> poisoned s \<and> (case at_index i s of Inr v \<Rightarrow> truthy v | Inl _ \<Rightarrow> False)"

definition to_number :: "int \<Rightarrow> vm_state \<Rightarrow> vm_error + u64" where
  "to_number i s =
     and_then (check_usable s) (\<lambda>_. and_then (convert_idx i s) (\<lambda>k.
       case as_num (stack s ! k) of Some n \<Rightarrow> Inr n | None \<Rightarrow> Inl ArithmeticOnNonNumber))"

section \<open>Frame isolation of the host stack operations\<close>

datatype stack_op =
    OpSetTop int | OpPop int | OpPush val | OpPushValue int | OpInsert int | OpRemove int
  | OpRemoveBottom nat | OpReplace int | OpCopy int int

fun stack_step :: "stack_op \<Rightarrow> vm_state \<Rightarrow> vm_error + vm_state" where
  "stack_step (OpSetTop i) s = set_top i s"
| "stack_step (OpPop n) s = pop n s"
| "stack_step (OpPush v) s = push_plain v s"
| "stack_step (OpPushValue i) s = push_value i s"
| "stack_step (OpInsert i) s = insert_at i s"
| "stack_step (OpRemove i) s = remove_at i s"
| "stack_step (OpRemoveBottom n) s = remove_bottom n s"
| "stack_step (OpReplace i) s = replace_at i s"
| "stack_step (OpCopy i j) s = copy_val i j s"

text \<open>A host that goes on after an error: a failed operation leaves the state as it was.\<close>

fun run_ops :: "stack_op list \<Rightarrow> vm_state \<Rightarrow> vm_state" where
  "run_ops [] s = s"
| "run_ops (op # ops) s = run_ops ops (case stack_step op s of Inl _ \<Rightarrow> s | Inr s' \<Rightarrow> s')"

definition frame_inv :: "vm_state \<Rightarrow> bool" where
  "frame_inv s \<longleftrightarrow> stack_bottom s \<le> length (stack s) \<and> length (stack s) \<le> MAX_STACK_SIZE"

text \<open>\<open>s'\<close> differs from \<open>s\<close> at most in the slots from the frame's bottom upwards.\<close>

definition same_below :: "vm_state \<Rightarrow> vm_state \<Rightarrow> bool" where
  "same_below s s' \<longleftrightarrow>
     take (stack_bottom s) (stack s') = take (stack_bottom s) (stack s)
     \<and> s'\<lparr>stack := stack s\<rparr> = s"

lemma convert_idx_range:
  assumes "convert_idx i s = Inr k" "stack_bottom s \<le> length (stack s)"
  shows "stack_bottom s \<le> k" "k < length (stack s)"
  using assms by (auto simp: convert_idx_def Let_def split: if_splits)

lemma same_belowI:
  "take (stack_bottom s) vs = take (stack_bottom s) (stack s) \<Longrightarrow> same_below s (s\<lparr>stack := vs\<rparr>)"
  by (simp add: same_below_def)

lemma same_below_trans: "same_below s s' \<Longrightarrow> same_below s' s'' \<Longrightarrow> same_below s s''"
  by (cases s, cases s', cases s'') (auto simp: same_below_def)

lemma length_vec_resize [simp]: "length (vec_resize n vs) = n"
  by (auto simp: vec_resize_def)

lemma take_vec_resize: "k \<le> n \<Longrightarrow> k \<le> length vs \<Longrightarrow> take k (vec_resize n vs) = take k vs"
  by (simp add: vec_resize_def min_def)

lemma rotate_slice_length: "k < length vs \<Longrightarrow> length (take k vs @ [last vs] @ butlast (drop k vs)) = length vs"
  by simp

lemma stack_step_isolated:
  assumes inv: "frame_inv s" and step: "stack_step op s = Inr s'"
  shows "frame_inv s' \<and> same_below s s'"
proof -
  have b: "stack_bottom s \<le> length (stack s)" and cap: "length (stack s) \<le> MAX_STACK_SIZE"
    using inv by (simp_all add: frame_inv_def)
  have shape: "stack_bottom s \<le> length vs \<Longrightarrow> length vs \<le> MAX_STACK_SIZE \<Longrightarrow> frame_inv (s\<lparr>stack := vs\<rparr>)"
    "take (stack_bottom s) vs = take (stack_bottom s) (stack s) \<Longrightarrow> same_below s (s\<lparr>stack := vs\<rparr>)" for vs
    by (simp_all add: frame_inv_def same_belowI)
  show ?thesis
  proof (cases op)
    case (OpSetTop i)
    then obtain n where "s' = s\<lparr>stack := vec_resize (stack_bottom s + n) (stack s)\<rparr>"
      "stack_bottom s + n > length (stack s) \<Longrightarrow> stack_bottom s + n \<le> MAX_STACK_SIZE"
      using step
      by (auto simp: set_top_def resize_stack_def and_then_ok check_stack_space_def Let_def split: if_splits)
    then show ?thesis using b cap
      by (cases "stack_bottom s + n > length (stack s)") (auto intro!: shape simp: take_vec_resize)
  next
    case (OpPop n)
    then have "s' = s\<lparr>stack := take (length (stack s) - nat n) (stack s)\<rparr>" "nat n \<le> get_top s"
      using step by (auto simp: pop_def pop_n_def and_then_ok split: if_splits)
    then show ?thesis using b cap by (auto intro!: shape simp: get_top_def min_def)
  next
    case (OpPush v)
    then show ?thesis
      using step b cap by (auto intro!: shape simp: push_plain_def push_val_def check_stack_slot_def and_then_ok)
  next
    case (OpPushValue i)
    then show ?thesis
      using step b cap by (auto intro!: shape simp: push_value_def push_val_def check_stack_slot_def and_then_ok)
  next
    case (OpInsert i)
    then obtain k where "convert_idx i s = Inr k"
      "s' = s\<lparr>stack := take k (stack s) @ [last (stack s)] @ butlast (drop k (stack s))\<rparr>"
      using step by (auto simp: insert_at_def and_then_ok)
    then show ?thesis using convert_idx_range [of i s k] b cap by (auto intro!: shape)
  next
    case (OpRemove i)
    then obtain k where "convert_idx i s = Inr k"
      "s' = s\<lparr>stack := take k (stack s) @ drop (Suc k) (stack s)\<rparr>"
      using step by (auto simp: remove_at_def and_then_ok)
    then show ?thesis using convert_idx_range [of i s k] b cap by (auto intro!: shape)
  next
    case (OpRemoveBottom n)
    then have "n \<le> get_top s" "s' = s\<lparr>stack := take (stack_bottom s) (stack s) @ drop (stack_bottom s + n) (stack s)\<rparr>"
      using step by (auto simp: remove_bottom_def split: if_splits)
    then show ?thesis using b cap by (auto intro!: shape simp: get_top_def min_def)
  next
    case (OpReplace i)
    then obtain k where "convert_idx i s = Inr k"
      "s' = s\<lparr>stack := (if k < length (butlast (stack s)) then (butlast (stack s))[k := last (stack s)]
         else butlast (stack s))\<rparr>"
      using step by (auto simp: replace_at_def and_then_ok Let_def)
    then show ?thesis using convert_idx_range [of i s k] b cap
      by (auto intro!: shape simp: take_butlast)
  next
    case (OpCopy i j)
    then obtain k v where "convert_idx j s = Inr k" "s' = s\<lparr>stack := (stack s)[k := v]\<rparr>"
      using step by (auto simp: copy_val_def and_then_ok)
    then show ?thesis using convert_idx_range [of j s k] b cap by (auto intro!: shape)
  qed
qed

text \<open>
  C8 (vm/stack.rs): whatever sequence of host stack operations runs, and whichever of them
  fail, the slots below the frame's bottom and every other part of the state are unchanged,
  the bottom stays inside the stack and the stack stays within its cap.
\<close>

theorem host_stack_isolated:
  assumes "frame_inv s"
  shows "frame_inv (run_ops ops s) \<and> same_below s (run_ops ops s)"
  using assms
proof (induction ops arbitrary: s)
  case Nil
  then show ?case by (simp add: same_below_def)
next
  case (Cons op ops)
  let ?s = "case stack_step op s of Inl _ \<Rightarrow> s | Inr s' \<Rightarrow> s'"
  have "frame_inv ?s \<and> same_below s ?s"
    using stack_step_isolated [OF Cons.prems, of op] Cons.prems
    by (auto simp: same_below_def split: sum.split)
  then show ?case using Cons.IH [of ?s] same_below_trans by auto
qed

text \<open>
  C40 (vm/stack.rs, State::convert_idx): an index is valid exactly when it is nonzero and within
  the visible height in magnitude; the positive and the negative index of one slot convert to
  the same position, inside the frame.
\<close>

theorem stack_index_duality:
  assumes "stack_bottom s \<le> length (stack s)" and "0 < i" "i \<le> int (get_top s)"
  shows "convert_idx i s = convert_idx (i - int (get_top s) - 1) s
    \<and> convert_idx i s = Inr (stack_bottom s + nat (i - 1))
    \<and> (\<forall>j. (\<exists>e. convert_idx j s = Inl e) \<longleftrightarrow> j = 0 \<or> \<bar>j\<bar> > int (get_top s))"
  using assms by (auto simp: convert_idx_def get_top_def Let_def nat_eq_iff split: if_splits)

definition sample_state :: vm_state where
  "sample_state = \<lparr> stack = [VBool True, VNum 7, VNil], stack_bottom = 1, open_upvalues = [],
     upvalue_pool = pool_new, call_stack = [], vararg_stack = [], call_depth = 0,
     metamethod_depth = 0, interrupt = False, poisoned = False, fp_unsupported = False,
     native_call_depth = 0, active_rust_fn = None, closures = Map.empty, vm_cost = cost_new CostingOff,
     pending = 0, frames = [] \<rparr>"

theorem host_stack_isolated_witness:
  "stack (run_ops [OpPush (VNum 3), OpPop 9, OpInsert 1, OpRemove (- 1)] sample_state)
     = [VBool True, VNum 3, VNum 7]
   \<and> frame_inv (run_ops [OpPush (VNum 3), OpPop 9, OpInsert 1, OpRemove (- 1)] sample_state)"
proof -
  have "frame_inv sample_state" by (simp add: frame_inv_def sample_state_def MAX_STACK_SIZE_def)
  from host_stack_isolated [OF this, of "[OpPush (VNum 3), OpPop 9, OpInsert 1, OpRemove (- 1)]"]
  show ?thesis
    by (simp add: sample_state_def push_plain_def push_val_def check_usable_def check_stack_slot_def
        MAX_STACK_SIZE_def pop_def pop_n_def get_top_def insert_at_def remove_at_def convert_idx_def Let_def)
qed

theorem stack_index_duality_witness:
  "convert_idx 1 sample_state = convert_idx (- 2) sample_state \<and> convert_idx 1 sample_state = Inr 1"
proof -
  have "stack_bottom sample_state \<le> length (stack sample_state)" "get_top sample_state = 2"
    "stack_bottom sample_state = 1"
    by (simp_all add: sample_state_def get_top_def)
  with stack_index_duality [of sample_state 1] show ?thesis by auto
qed

end
