(* ===== verification/Upvalues.thy ===== *)
theory Upvalues
  imports Vm_State
begin

text \<open>
  Captured variables: the operations on open and closed upvalues of \<open>vm/eval.rs\<close> and
  \<open>vm/registers.rs\<close>, and the mark and sweep of the upvalue pool (\<open>vm/object.rs\<close>).

  Shown here: closing upvalues and cutting the stack is unobservable through every captured
  variable; one stack slot has one upvalue, shared by every closure that captures it; and a
  collection keeps every marked slot and never hands a marked one out again.
\<close>

section \<open>Operations\<close>

text \<open>
  \<open>binary_search_by_key\<close> on the ascending list: the position of the entry, or where it belongs.
\<close>

definition search_open :: "nat \<Rightarrow> (nat \<times> nat) list \<Rightarrow> nat + nat" where
  "search_open idx uvs =
     (let pos = length (takeWhile (\<lambda>(i, _). i < idx) uvs)
      in if pos < length uvs \<and> fst (uvs ! pos) = idx then Inr pos else Inl pos)"

definition find_or_create_upvalue :: "nat \<Rightarrow> vm_state \<Rightarrow> nat \<times> vm_state" where
  "find_or_create_upvalue idx s =
     (case search_open idx (open_upvalues s) of
        Inr pos \<Rightarrow> (snd (open_upvalues s ! pos), s)
      | Inl pos \<Rightarrow>
          (case pool_alloc (UvOpen idx) (upvalue_pool s) of (r, p) \<Rightarrow>
             (r, s\<lparr> upvalue_pool := p,
                    open_upvalues := take pos (open_upvalues s) @ [(idx, r)] @ drop pos (open_upvalues s) \<rparr>)))"

text \<open>The closing loop, on the list with its last entry first.\<close>

fun close_loop :: "nat \<Rightarrow> val list \<Rightarrow> (nat \<times> nat) list \<Rightarrow> upvalue_pool \<Rightarrow> (nat \<times> nat) list \<times> upvalue_pool" where
  "close_loop level vs [] p = ([], p)"
| "close_loop level vs ((idx, r) # uvs) p =
     (if idx < level then ((idx, r) # uvs, p)
      else close_loop level vs uvs (pool_set r (UvClosed (vs ! idx)) p))"

definition close_upvalues :: "nat \<Rightarrow> vm_state \<Rightarrow> vm_state" where
  "close_upvalues level s =
     (case close_loop level (stack s) (rev (open_upvalues s)) (upvalue_pool s) of (uvs, p) \<Rightarrow>
        s\<lparr> open_upvalues := rev uvs, upvalue_pool := p \<rparr>)"

definition upvalue_value :: "nat \<Rightarrow> vm_state \<Rightarrow> val" where
  "upvalue_value r s =
     (case pool_get (upvalue_pool s) r of UvOpen idx \<Rightarrow> stack s ! idx | UvClosed v \<Rightarrow> v)"

definition set_upvalue_value :: "nat \<Rightarrow> val \<Rightarrow> vm_state \<Rightarrow> vm_state" where
  "set_upvalue_value r v s =
     (case pool_get (upvalue_pool s) r of
        UvOpen idx \<Rightarrow> s\<lparr> stack := (stack s)[idx := v] \<rparr>
      | UvClosed _ \<Rightarrow> s\<lparr> upvalue_pool := pool_set r (UvClosed v) (upvalue_pool s) \<rparr>)"

text \<open>The captures of a new closure: locals of the running frame, or its own upvalues.\<close>

fun capture_upvalues :: "nat \<Rightarrow> nat list \<Rightarrow> upvalue_desc list \<Rightarrow> vm_state \<Rightarrow> nat list \<times> vm_state" where
  "capture_upvalues bottom ups [] s = ([], s)"
| "capture_upvalues bottom ups (UpLocal idx # ds) s =
     (case find_or_create_upvalue (bottom + unat idx) s of (r, s') \<Rightarrow>
        (case capture_upvalues bottom ups ds s' of (rs, s'') \<Rightarrow> (r # rs, s'')))"
| "capture_upvalues bottom ups (UpUpvalue idx # ds) s =
     (case capture_upvalues bottom ups ds s of (rs, s'') \<Rightarrow> (ups ! unat idx # rs, s''))"

section \<open>The invariant\<close>

definition pool_ok :: "upvalue_pool \<Rightarrow> bool" where
  "pool_ok p \<longleftrightarrow>
     length (pool_colors p) = length (pool_slots p) \<and> distinct (pool_free p)
     \<and> (\<forall>r. r \<in> set (pool_free p) \<longleftrightarrow> r < length (pool_slots p) \<and> pool_colors p ! r = SlotFree)
     \<and> (\<forall>r \<in> set (pool_free p). \<forall>i. pool_slots p ! r \<noteq> UvOpen i)"

definition live :: "upvalue_pool \<Rightarrow> nat \<Rightarrow> bool" where
  "live p r \<longleftrightarrow> r < length (pool_slots p) \<and> r \<notin> set (pool_free p)"

definition uv_inv :: "vm_state \<Rightarrow> bool" where
  "uv_inv s \<longleftrightarrow>
     pool_ok (upvalue_pool s)
     \<and> sorted_wrt (<) (map fst (open_upvalues s)) \<and> distinct (map snd (open_upvalues s))
     \<and> (\<forall>i r. (i, r) \<in> set (open_upvalues s) \<longleftrightarrow>
           r < length (pool_slots (upvalue_pool s)) \<and> pool_slots (upvalue_pool s) ! r = UvOpen i)
     \<and> (\<forall>i \<in> fst ` set (open_upvalues s). i < length (stack s))"

section \<open>The pool\<close>

lemma nth_update_cases: "xs[i := x] ! j = (if i = j \<and> j < length xs then x else xs ! j)"
  by (cases "i < length xs") (auto simp: nth_list_update list_update_beyond)

lemma pool_alloc_ok: "pool_ok p \<Longrightarrow> pool_alloc uv p = (r, p') \<Longrightarrow> pool_ok p'"
  by (auto simp: pool_alloc_def pool_ok_def nth_append nth_update_cases less_Suc_eq split: list.splits if_splits)

lemma pool_alloc_spec:
  assumes "pool_ok p" and "pool_alloc uv p = (r, p')"
  shows pool_alloc_fresh: "\<not> live p r"
    and pool_alloc_live: "live p' x \<longleftrightarrow> live p x \<or> x = r"
    and pool_alloc_in: "x < length (pool_slots p') \<longleftrightarrow> x < length (pool_slots p) \<or> x = r"
    and pool_alloc_get: "x < length (pool_slots p') \<Longrightarrow> pool_slots p' ! x = (if x = r then uv else pool_slots p ! x)"
    and pool_alloc_not_open: "r < length (pool_slots p) \<Longrightarrow> pool_slots p ! r \<noteq> UvOpen i"
  using assms
  by (auto simp: pool_alloc_def pool_ok_def live_def nth_append nth_list_update less_Suc_eq
      split: list.splits)

fun swept_color :: "slot_color \<Rightarrow> slot_color" where
  "swept_color SlotReachable = SlotUnmarked"
| "swept_color _ = SlotFree"

text \<open>What the sweep has done after its first \<open>k\<close> slots.\<close>

definition swept_upto :: "nat \<Rightarrow> upvalue_pool \<Rightarrow> upvalue_pool \<Rightarrow> bool" where
  "swept_upto k p q \<longleftrightarrow>
     length (pool_colors q) = length (pool_colors p) \<and> length (pool_slots q) = length (pool_slots p)
     \<and> (\<forall>i < length (pool_colors p).
          pool_colors q ! i = (if i < k then swept_color (pool_colors p ! i) else pool_colors p ! i)
          \<and> pool_slots q ! i = (if i < k \<and> pool_colors p ! i = SlotUnmarked then UvClosed VNil else pool_slots p ! i))
     \<and> set (pool_free q) = set (pool_free p) \<union> {i. i < k \<and> pool_colors p ! i = SlotUnmarked}
     \<and> distinct (pool_free q)"

lemma fold_sweep_slot:
  assumes "pool_ok p" "k \<le> length (pool_colors p)"
  shows "swept_upto k p (fold sweep_slot [0..<k] p)"
  using assms(2)
proof (induction k)
  case 0
  then show ?case using assms(1) by (simp add: swept_upto_def pool_ok_def)
next
  case (Suc k)
  let ?q = "fold sweep_slot [0..<k] p"
  have IH: "swept_upto k p ?q" and k: "k < length (pool_colors p)" "k < length (pool_slots p)"
    using Suc assms(1) by (simp_all add: pool_ok_def)
  have free: "k \<in> set (pool_free p) \<longleftrightarrow> pool_colors p ! k = SlotFree"
    using assms(1) k by (auto simp: pool_ok_def)
  have "swept_upto (Suc k) p (sweep_slot k ?q)"
    using IH k free
    by (cases "pool_colors p ! k") (auto simp: swept_upto_def sweep_slot_def nth_list_update less_Suc_eq)
  then show ?case by simp
qed

lemma sweep_spec: "pool_ok p \<Longrightarrow> swept_upto (length (pool_colors p)) p (sweep p)"
  unfolding sweep_def by (rule fold_sweep_slot) simp_all

lemma sweep_ok:
  assumes "pool_ok p"
  shows "pool_ok (sweep p)"
  using sweep_spec [OF assms] assms
  by (auto simp: swept_upto_def pool_ok_def elim: swept_color.elims)

lemma live_color: "pool_ok p \<Longrightarrow> live p r \<longleftrightarrow> r < length (pool_slots p) \<and> pool_colors p ! r \<noteq> SlotFree"
  by (auto simp: pool_ok_def live_def)

lemma sweep_live:
  assumes "pool_ok p"
  shows "live (sweep p) r \<longleftrightarrow> r < length (pool_slots p) \<and> pool_colors p ! r = SlotReachable"
  using sweep_spec [OF assms] sweep_ok [OF assms] assms
  by (cases "pool_colors p ! r") (auto simp: live_color swept_upto_def pool_ok_def)

lemma sweep_get:
  "pool_ok p \<Longrightarrow> live (sweep p) r \<Longrightarrow> pool_slots (sweep p) ! r = pool_slots p ! r"
  using sweep_spec [of p] by (auto simp: sweep_live swept_upto_def pool_ok_def)

section \<open>Open upvalues\<close>

lemma uv_invD:
  assumes "uv_inv s"
  shows uv_inv_pool: "pool_ok (upvalue_pool s)"
    and uv_inv_sorted: "sorted_wrt (<) (map fst (open_upvalues s))"
    and uv_inv_distinct: "distinct (map snd (open_upvalues s))"
    and uv_inv_open: "(i, r) \<in> set (open_upvalues s) \<longleftrightarrow>
      r < length (pool_slots (upvalue_pool s)) \<and> pool_slots (upvalue_pool s) ! r = UvOpen i"
    and uv_inv_in_stack: "(i, r) \<in> set (open_upvalues s) \<Longrightarrow> i < length (stack s)"
  using assms unfolding uv_inv_def by force+

lemma open_index_unique:
  fixes uvs :: "(nat \<times> 'b) list"
  shows "sorted_wrt (<) (map fst uvs) \<Longrightarrow> (i, r) \<in> set uvs \<Longrightarrow> (i, r') \<in> set uvs \<Longrightarrow> r = r'"
  using strict_sorted_iff [of "map fst uvs"] by (auto intro: eq_key_imp_eq_value)

lemma search_open_found:
  assumes "search_open idx uvs = Inr pos"
  shows "pos < length uvs" "(idx, snd (uvs ! pos)) \<in> set uvs"
  using assms by (auto simp: search_open_def Let_def in_set_conv_nth split: if_splits)

lemma search_open_complete:
  assumes "sorted_wrt (<) (map fst uvs)" and "search_open idx uvs = Inl pos"
  shows "idx \<notin> fst ` set uvs" and "\<forall>x \<in> set (take pos uvs). fst x < idx" and "\<forall>x \<in> set (drop pos uvs). idx < fst x"
proof -
  let ?P = "\<lambda>(i, _::nat). i < idx"
  have pos: "pos = length (takeWhile ?P uvs)"
    using assms(2) by (auto simp: search_open_def Let_def split: if_splits)
  then have t: "take pos uvs = takeWhile ?P uvs" and d: "drop pos uvs = dropWhile ?P uvs"
    by (simp_all add: takeWhile_eq_take [symmetric] dropWhile_eq_drop [symmetric])
  show low: "\<forall>x \<in> set (take pos uvs). fst x < idx"
    unfolding t by (auto dest: set_takeWhileD)
  show high: "\<forall>x \<in> set (drop pos uvs). idx < fst x"
  proof (cases "drop pos uvs")
    case (Cons y ys)
    then have "pos < length uvs" "uvs ! pos = y" by (metis drop_all list.distinct(1) not_less, metis hd_drop_conv_nth list.sel(1) drop_all list.distinct(1) not_less Cons)
    then have "fst y \<noteq> idx" using assms(2) pos by (auto simp: search_open_def Let_def split: if_splits)
    moreover have "\<not> fst y < idx" using hd_dropWhile [of ?P uvs] Cons d by (metis (lifting) case_prod_beta list.distinct(1) list.sel(1))
    moreover have "sorted_wrt (<) (map fst (y # ys))"
      using assms(1) sorted_wrt_drop [of "(<)" "map fst uvs" pos] Cons by (simp add: drop_map)
    ultimately show ?thesis using Cons by fastforce
  qed simp
  show "idx \<notin> fst ` set uvs"
  proof
    assume "idx \<in> fst ` set uvs"
    then have "idx \<in> fst ` (set (take pos uvs) \<union> set (drop pos uvs))"
      by (simp flip: set_append)
    then show False using low high by auto
  qed
qed

lemma insert_open_sorted:
  assumes "sorted_wrt (<) (map fst uvs)" and "search_open idx uvs = Inl pos"
  shows "sorted_wrt (<) (map fst (take pos uvs @ [(idx, r)] @ drop pos uvs))"
proof -
  note c = search_open_complete [OF assms]
  have "sorted_wrt (<) (map fst (take pos uvs @ drop pos uvs))" using assms(1) by simp
  then have "sorted_wrt (<) (map fst (take pos uvs))" "sorted_wrt (<) (map fst (drop pos uvs))"
    unfolding map_append sorted_wrt_append by blast+
  moreover have "fst x < fst y" if "x \<in> set (take pos uvs)" "y \<in> set (drop pos uvs)" for x y
    using c(2,3) that by (meson order_less_trans)
  ultimately show ?thesis using c(2,3) by (simp add: sorted_wrt_append)
qed

lemma find_or_create_found:
  assumes "uv_inv s" "(idx, r) \<in> set (open_upvalues s)"
  shows "find_or_create_upvalue idx s = (r, s)"
proof (cases "search_open idx (open_upvalues s)")
  case (Inl pos)
  then show ?thesis using search_open_complete(1) [OF uv_inv_sorted [OF assms(1)] Inl] assms(2) by force
next
  case (Inr pos)
  then have "(idx, snd (open_upvalues s ! pos)) \<in> set (open_upvalues s)" by (rule search_open_found)
  then show ?thesis
    using open_index_unique [OF uv_inv_sorted [OF assms(1)] assms(2)] Inr by (simp add: find_or_create_upvalue_def)
qed

lemma find_or_create_cases:
  assumes inv: "uv_inv s" and foc: "find_or_create_upvalue idx s = (r, s')"
  obtains (found) "(idx, r) \<in> set (open_upvalues s)" "s' = s"
  | (created) pos p' where "search_open idx (open_upvalues s) = Inl pos"
      "pool_alloc (UvOpen idx) (upvalue_pool s) = (r, p')"
      "s' = s\<lparr>upvalue_pool := p', open_upvalues := take pos (open_upvalues s) @ [(idx, r)] @ drop pos (open_upvalues s)\<rparr>"
proof (cases "search_open idx (open_upvalues s)")
  case (Inl pos)
  with foc show thesis
    by (cases "pool_alloc (UvOpen idx) (upvalue_pool s)") (rule created, auto simp: find_or_create_upvalue_def)
next
  case (Inr pos)
  with foc have "r = snd (open_upvalues s ! pos)" "s' = s" by (auto simp: find_or_create_upvalue_def)
  then show thesis using found search_open_found(2) [OF Inr] by simp
qed

lemma find_or_create_inv:
  assumes inv: "uv_inv s" and idx: "idx < length (stack s)" and foc: "find_or_create_upvalue idx s = (r, s')"
  shows "uv_inv s'"
  using inv foc
proof (cases rule: find_or_create_cases)
  case found
  then show ?thesis using inv by simp
next
  case (created pos p')
  note pool = uv_inv_pool [OF inv]
  let ?uvs = "take pos (open_upvalues s) @ [(idx, r)] @ drop pos (open_upvalues s)"
  have set: "set ?uvs = insert (idx, r) (set (open_upvalues s))"
    using set_append [of "take pos (open_upvalues s)" "drop pos (open_upvalues s)"] by simp
  have new: "r \<notin> snd ` set (open_upvalues s)"
    using uv_inv_open [OF inv, of _ r] pool_alloc_not_open [OF pool created(2)] by (metis imageE prod.collapse)
  have "distinct (map snd ?uvs) \<longleftrightarrow> distinct (r # map snd (take pos (open_upvalues s) @ drop pos (open_upvalues s)))"
    by (auto simp: map_append simp del: append_take_drop_id)
  then have "distinct (map snd ?uvs)" using uv_inv_distinct [OF inv] new by simp
  moreover have "(i, x) \<in> set ?uvs \<longleftrightarrow> x < length (pool_slots p') \<and> pool_slots p' ! x = UvOpen i" for i x
    using uv_inv_open [OF inv, of i x] pool_alloc_in [OF pool created(2), of x]
      pool_alloc_get [OF pool created(2), of x] new
    unfolding set by (cases "x = r") (auto simp: image_iff)
  moreover have "\<forall>i \<in> fst ` set ?uvs. i < length (stack s)"
    using uv_inv_in_stack [OF inv] idx unfolding set by auto
  ultimately show ?thesis
    using pool_alloc_ok [OF pool created(2)] insert_open_sorted [OF uv_inv_sorted [OF inv] created(1), of r] created(3)
    by (simp add: uv_inv_def)
qed

lemma find_or_create_open:
  assumes inv: "uv_inv s" and foc: "find_or_create_upvalue idx s = (r, s')"
  shows "(idx, r) \<in> set (open_upvalues s')" and "stack s' = stack s"
  using inv foc by (cases rule: find_or_create_cases; simp)+

lemma find_or_create_value:
  assumes inv: "uv_inv s" and foc: "find_or_create_upvalue idx s = (r, s')"
  shows "upvalue_value r s' = stack s ! idx"
    and "live (upvalue_pool s) x \<Longrightarrow> upvalue_value x s' = upvalue_value x s"
    and "live (upvalue_pool s) x \<Longrightarrow> live (upvalue_pool s') x"
proof -
  note pool = uv_inv_pool [OF inv]
  have 1: "upvalue_value r s' = stack s ! idx"
    using inv foc
  proof (cases rule: find_or_create_cases)
    case found
    then show ?thesis using uv_inv_open [OF inv] by (simp add: upvalue_value_def pool_get_def)
  next
    case (created pos p')
    then show ?thesis using pool_alloc_get [OF pool created(2), of r] pool_alloc_in [OF pool created(2), of r]
      by (simp add: upvalue_value_def pool_get_def)
  qed
  show "upvalue_value r s' = stack s ! idx" by (rule 1)
  assume x: "live (upvalue_pool s) x"
  show "upvalue_value x s' = upvalue_value x s"
    using inv foc
  proof (cases rule: find_or_create_cases)
    case (created pos p')
    have "x \<noteq> r" "x < length (pool_slots p')"
      using pool_alloc_fresh [OF pool created(2)] pool_alloc_in [OF pool created(2), of x] x by (auto simp: live_def)
    then show ?thesis using created pool_alloc_get [OF pool created(2), of x]
      by (simp add: upvalue_value_def pool_get_def split: upvalue.split)
  qed simp
  show "live (upvalue_pool s') x"
    using inv foc
  proof (cases rule: find_or_create_cases)
    case (created pos p')
    then show ?thesis using x pool_alloc_live [OF pool created(2)] by simp
  qed (use x in simp)
qed

section \<open>Closing\<close>

text \<open>The closing loop keeps the entries below the level and closes the others with their stack value.\<close>

lemma close_loop_spec:
  assumes "sorted_wrt (>) (map fst uvs)" "distinct (map snd uvs)"
    "\<forall>(i, r) \<in> set uvs. r < length (pool_slots p)" "close_loop level vs uvs p = (uvs', p')"
  shows "uvs' = filter (\<lambda>(i, _). i < level) uvs
    \<and> length (pool_slots p') = length (pool_slots p) \<and> pool_colors p' = pool_colors p \<and> pool_free p' = pool_free p
    \<and> (\<forall>i r. (i, r) \<in> set uvs \<longrightarrow> level \<le> i \<longrightarrow> pool_slots p' ! r = UvClosed (vs ! i))
    \<and> (\<forall>r. (\<forall>i. (i, r) \<in> set uvs \<longrightarrow> i < level) \<longrightarrow> pool_slots p' ! r = pool_slots p ! r)"
  using assms
proof (induction level vs uvs p rule: close_loop.induct)
  case (1 level vs p)
  then show ?case by simp
next
  case (2 level vs idx r uvs p)
  show ?case
  proof (cases "idx < level")
    case True
    then have "\<forall>x \<in> set uvs. fst x < level" using 2(2) by (auto intro: less_trans)
    then have "filter (\<lambda>(i, _). i < level) uvs = uvs" by (simp add: filter_id_conv case_prod_beta)
    then show ?thesis using True 2(5) \<open>\<forall>x \<in> set uvs. fst x < level\<close> by force
  next
    case False
    have fresh: "(i, r) \<notin> set uvs" for i using 2(3) by force
    have "uvs' = filter (\<lambda>(i, _). i < level) uvs
      \<and> length (pool_slots p') = length (pool_slots (pool_set r (UvClosed (vs ! idx)) p))
      \<and> pool_colors p' = pool_colors p \<and> pool_free p' = pool_free p
      \<and> (\<forall>i x. (i, x) \<in> set uvs \<longrightarrow> level \<le> i \<longrightarrow> pool_slots p' ! x = UvClosed (vs ! i))
      \<and> (\<forall>x. (\<forall>i. (i, x) \<in> set uvs \<longrightarrow> i < level) \<longrightarrow>
            pool_slots p' ! x = pool_slots (pool_set r (UvClosed (vs ! idx)) p) ! x)"
      using 2(1) [OF False] 2(2-5) False by (simp add: pool_set_def)
    then show ?thesis using False 2(4) fresh by (auto simp: pool_set_def nth_list_update)
  qed
qed

lemma close_upvalues_spec:
  fixes s level
  assumes "uv_inv s"
  defines "s' \<equiv> close_upvalues level s"
  shows close_upvalues_list: "open_upvalues s' = filter (\<lambda>(i, _). i < level) (open_upvalues s)"
    and close_upvalues_pool: "length (pool_slots (upvalue_pool s')) = length (pool_slots (upvalue_pool s))"
      "pool_colors (upvalue_pool s') = pool_colors (upvalue_pool s)"
      "pool_free (upvalue_pool s') = pool_free (upvalue_pool s)"
    and close_upvalues_closed: "(i, r) \<in> set (open_upvalues s) \<Longrightarrow> level \<le> i \<Longrightarrow>
      pool_slots (upvalue_pool s') ! r = UvClosed (stack s ! i)"
    and close_upvalues_kept: "(\<And>i. (i, r) \<in> set (open_upvalues s) \<Longrightarrow> i < level) \<Longrightarrow>
      pool_slots (upvalue_pool s') ! r = pool_slots (upvalue_pool s) ! r"
    and close_upvalues_frame: "s' = s\<lparr>open_upvalues := open_upvalues s', upvalue_pool := upvalue_pool s'\<rparr>"
proof -
  obtain uvs' p' where c: "close_loop level (stack s) (rev (open_upvalues s)) (upvalue_pool s) = (uvs', p')"
    by fastforce
  have s': "s' = s\<lparr>open_upvalues := rev uvs', upvalue_pool := p'\<rparr>"
    by (simp add: s'_def close_upvalues_def c)
  have "sorted_wrt (>) (map fst (rev (open_upvalues s)))"
    using uv_inv_sorted [OF assms(1)] by (simp add: sorted_wrt_rev flip: rev_map)
  moreover have "distinct (map snd (rev (open_upvalues s)))"
    using uv_inv_distinct [OF assms(1)] by (simp flip: rev_map)
  moreover have "\<forall>(i, r) \<in> set (rev (open_upvalues s)). r < length (pool_slots (upvalue_pool s))"
    using uv_inv_open [OF assms(1)] by auto
  ultimately have spec: "uvs' = filter (\<lambda>(i, _). i < level) (rev (open_upvalues s))
    \<and> length (pool_slots p') = length (pool_slots (upvalue_pool s)) \<and> pool_colors p' = pool_colors (upvalue_pool s)
    \<and> pool_free p' = pool_free (upvalue_pool s)
    \<and> (\<forall>i r. (i, r) \<in> set (rev (open_upvalues s)) \<longrightarrow> level \<le> i \<longrightarrow> pool_slots p' ! r = UvClosed (stack s ! i))
    \<and> (\<forall>r. (\<forall>i. (i, r) \<in> set (rev (open_upvalues s)) \<longrightarrow> i < level) \<longrightarrow> pool_slots p' ! r = pool_slots (upvalue_pool s) ! r)"
    by (rule close_loop_spec [OF _ _ _ c])
  show "open_upvalues s' = filter (\<lambda>(i, _). i < level) (open_upvalues s)"
    using spec by (simp add: s' rev_filter)
  show "length (pool_slots (upvalue_pool s')) = length (pool_slots (upvalue_pool s))"
    "pool_colors (upvalue_pool s') = pool_colors (upvalue_pool s)"
    "pool_free (upvalue_pool s') = pool_free (upvalue_pool s)"
    using spec by (simp_all add: s')
  show "(i, r) \<in> set (open_upvalues s) \<Longrightarrow> level \<le> i \<Longrightarrow> pool_slots (upvalue_pool s') ! r = UvClosed (stack s ! i)"
    "(\<And>i. (i, r) \<in> set (open_upvalues s) \<Longrightarrow> i < level) \<Longrightarrow>
      pool_slots (upvalue_pool s') ! r = pool_slots (upvalue_pool s) ! r"
    using spec by (simp_all add: s')
  show "s' = s\<lparr>open_upvalues := open_upvalues s', upvalue_pool := upvalue_pool s'\<rparr>" by (simp add: s')
qed

lemma live_close_upvalues: "uv_inv s \<Longrightarrow> live (upvalue_pool (close_upvalues level s)) r \<longleftrightarrow> live (upvalue_pool s) r"
  by (simp add: live_def close_upvalues_pool)

text \<open>The slots after closing, by whether the upvalue was open above the level.\<close>

lemma close_upvalues_slot:
  assumes "uv_inv s" "r < length (pool_slots (upvalue_pool s))"
  shows "pool_slots (upvalue_pool (close_upvalues level s)) ! r =
    (case pool_slots (upvalue_pool s) ! r of
       UvOpen i \<Rightarrow> if i < level then UvOpen i else UvClosed (stack s ! i) | UvClosed v \<Rightarrow> UvClosed v)"
proof (cases "pool_slots (upvalue_pool s) ! r")
  case (UvOpen i)
  then have i: "(j, r) \<in> set (open_upvalues s) \<longleftrightarrow> j = i" for j using uv_inv_open [OF assms(1)] assms(2) by auto
  then show ?thesis using UvOpen close_upvalues_closed [OF assms(1), of i r level] close_upvalues_kept [OF assms(1), of r level]
    by auto
next
  case (UvClosed v)
  then have "(j, r) \<notin> set (open_upvalues s)" for j using uv_inv_open [OF assms(1)] by auto
  then show ?thesis using UvClosed close_upvalues_kept [OF assms(1), of r level] by auto
qed

lemma close_upvalues_inv:
  assumes inv: "uv_inv s" and keep: "level \<le> length vs"
  shows "uv_inv ((close_upvalues level s)\<lparr>stack := vs\<rparr>)"
proof -
  let ?s = "close_upvalues level s"
  have free: "pool_slots (upvalue_pool ?s) ! r = pool_slots (upvalue_pool s) ! r"
    if "r \<in> set (pool_free (upvalue_pool s))" for r
    using that uv_inv_pool [OF inv] uv_inv_open [OF inv, of _ r] by (intro close_upvalues_kept [OF inv]) (auto simp: pool_ok_def)
  then have "pool_ok (upvalue_pool ?s)"
    using uv_inv_pool [OF inv] by (simp add: pool_ok_def close_upvalues_pool [OF inv])
  moreover have "sorted_wrt (<) (map fst (open_upvalues ?s))" "distinct (map snd (open_upvalues ?s))"
    using uv_inv_sorted [OF inv] uv_inv_distinct [OF inv]
    by (simp_all add: close_upvalues_list [OF inv] sorted_wrt_map sorted_wrt_filter distinct_map_filter)
  moreover have "(i, r) \<in> set (open_upvalues ?s) \<longleftrightarrow>
      r < length (pool_slots (upvalue_pool ?s)) \<and> pool_slots (upvalue_pool ?s) ! r = UvOpen i" for i r
    using uv_inv_open [OF inv, of i r] close_upvalues_slot [OF inv, of r level]
    by (auto simp: close_upvalues_list [OF inv] close_upvalues_pool [OF inv] split: upvalue.splits if_splits)
  moreover have "\<forall>i \<in> fst ` set (open_upvalues ?s). i < length vs"
    using keep by (auto simp: close_upvalues_list [OF inv])
  ultimately show ?thesis unfolding uv_inv_def by simp
qed

lemma close_upvalues_value:
  assumes inv: "uv_inv s" and r: "r < length (pool_slots (upvalue_pool s))" and same: "take level vs = take level (stack s)"
  shows "upvalue_value r ((close_upvalues level s)\<lparr>stack := vs\<rparr>) = upvalue_value r s"
proof (cases "pool_slots (upvalue_pool s) ! r")
  case (UvOpen i)
  then have "i < length (stack s)" using uv_inv_in_stack [OF inv] uv_inv_open [OF inv] r by blast
  moreover have "i < level \<Longrightarrow> vs ! i = stack s ! i" using same by (metis nth_take)
  ultimately show ?thesis using UvOpen close_upvalues_slot [OF inv r, of level]
    by (simp add: upvalue_value_def pool_get_def)
next
  case (UvClosed v)
  then show ?thesis using close_upvalues_slot [OF inv r, of level] by (simp add: upvalue_value_def pool_get_def)
qed

section \<open>Writes\<close>

lemma set_upvalue_inv:
  assumes inv: "uv_inv s" and r: "live (upvalue_pool s) r"
  shows "uv_inv (set_upvalue_value r v s)" and "live (upvalue_pool (set_upvalue_value r v s)) x \<longleftrightarrow> live (upvalue_pool s) x"
proof -
  have pool: "pool_ok (upvalue_pool s)" by (rule uv_inv_pool [OF inv])
  show "live (upvalue_pool (set_upvalue_value r v s)) x \<longleftrightarrow> live (upvalue_pool s) x"
    by (simp add: set_upvalue_value_def live_def pool_set_def split: upvalue.split)
  show "uv_inv (set_upvalue_value r v s)"
  proof (cases "pool_get (upvalue_pool s) r")
    case (UvOpen i)
    then show ?thesis using inv by (simp add: uv_inv_def set_upvalue_value_def)
  next
    case (UvClosed w)
    have "pool_ok (pool_set r (UvClosed v) (upvalue_pool s))"
      using pool r by (auto simp: pool_ok_def pool_set_def live_def nth_list_update)
    moreover have "(i, x) \<in> set (open_upvalues s) \<longleftrightarrow> x < length (pool_slots (pool_set r (UvClosed v) (upvalue_pool s)))
        \<and> pool_slots (pool_set r (UvClosed v) (upvalue_pool s)) ! x = UvOpen i" for i x
      using uv_inv_open [OF inv, of i x] UvClosed r by (auto simp: pool_set_def pool_get_def live_def nth_list_update)
    ultimately show ?thesis
      using UvClosed inv by (simp add: uv_inv_def set_upvalue_value_def pool_set_def)
  qed
qed

lemma set_upvalue_value_get:
  assumes inv: "uv_inv s" and r: "live (upvalue_pool s) r" and x: "live (upvalue_pool s) x"
  shows "upvalue_value x (set_upvalue_value r v s) = (if x = r then v else upvalue_value x s)"
proof (cases "pool_get (upvalue_pool s) r")
  case (UvOpen i)
  then have i: "(i, r) \<in> set (open_upvalues s)" using uv_inv_open [OF inv] r by (simp add: pool_get_def live_def)
  then have "i < length (stack s)" by (rule uv_inv_in_stack [OF inv])
  moreover have "x = r" if "pool_get (upvalue_pool s) x = UvOpen i"
    using open_index_unique [OF uv_inv_sorted [OF inv] i, of x] uv_inv_open [OF inv, of i x] that x
    by (simp add: pool_get_def live_def)
  ultimately show ?thesis using UvOpen
    by (cases "pool_get (upvalue_pool s) x") (auto simp: upvalue_value_def set_upvalue_value_def nth_list_update)
next
  case (UvClosed w)
  then show ?thesis using r
    by (cases "x = r") (simp_all add: upvalue_value_def set_upvalue_value_def pool_set_def pool_get_def live_def split: upvalue.split)
qed

section \<open>Captured variables as cells\<close>

text \<open>
  What closures rely on: references that read what was last written through them, whatever is
  done to other references, and an operation that moves cells without changing a value.
\<close>

locale cell_store =
  fixes rd :: "'r \<Rightarrow> 's \<Rightarrow> 'v" and wr :: "'r \<Rightarrow> 'v \<Rightarrow> 's \<Rightarrow> 's"
    and ok :: "'s \<Rightarrow> bool" and cell :: "'s \<Rightarrow> 'r \<Rightarrow> bool"
  assumes wr_ok: "ok s \<Longrightarrow> cell s r \<Longrightarrow> ok (wr r v s)"
    and wr_cell: "ok s \<Longrightarrow> cell s r \<Longrightarrow> cell (wr r v s) x \<longleftrightarrow> cell s x"
    and rd_wr: "ok s \<Longrightarrow> cell s r \<Longrightarrow> cell s x \<Longrightarrow> rd x (wr r v s) = (if x = r then v else rd x s)"
begin

abbreviation writes :: "('r \<times> 'v) list \<Rightarrow> 's \<Rightarrow> 's" where
  "writes ws \<equiv> fold (\<lambda>(r, v). wr r v) ws"

lemma writes_ok:
  "ok s \<Longrightarrow> \<forall>(r, v) \<in> set ws. cell s r \<Longrightarrow> ok (writes ws s) \<and> (cell (writes ws s) x \<longleftrightarrow> cell s x)"
  by (induction ws arbitrary: s) (force simp: wr_ok wr_cell)+

lemma rd_writes:
  assumes "ok s" "\<forall>(r, v) \<in> set ws. cell s r" "cell s x"
  shows "rd x (writes ws s) = (case map_of (rev ws) x of Some v \<Rightarrow> v | None \<Rightarrow> rd x s)"
  using assms
proof (induction ws rule: rev_induct)
  case (snoc w ws)
  obtain r v where w: "w = (r, v)" by fastforce
  have "rd x (writes (ws @ [w]) s) = rd x (wr r v (writes ws s))" by (simp add: w)
  also have "\<dots> = (if x = r then v else rd x (writes ws s))"
    using snoc.prems writes_ok [of s ws] by (intro rd_wr) (auto simp: w)
  finally show ?case using snoc w by auto
qed simp

end

locale moving_cell_store = cell_store rd wr ok cell
  for rd :: "'r \<Rightarrow> 's \<Rightarrow> 'v" and wr :: "'r \<Rightarrow> 'v \<Rightarrow> 's \<Rightarrow> 's"
    and ok :: "'s \<Rightarrow> bool" and cell :: "'s \<Rightarrow> 'r \<Rightarrow> bool" +
  fixes move :: "'m \<Rightarrow> 's \<Rightarrow> 's" and able :: "'m \<Rightarrow> 's \<Rightarrow> bool"
  assumes move_ok: "ok s \<Longrightarrow> able m s \<Longrightarrow> ok (move m s)"
    and move_cell: "ok s \<Longrightarrow> able m s \<Longrightarrow> cell (move m s) r \<longleftrightarrow> cell s r"
    and rd_move: "ok s \<Longrightarrow> able m s \<Longrightarrow> cell s r \<Longrightarrow> rd r (move m s) = rd r s"
begin

lemma move_unobservable:
  assumes "ok s" "able m s" "\<forall>(r, v) \<in> set ws. cell s r" "cell s x"
  shows "rd x (writes ws (move m s)) = rd x (writes ws s)"
proof -
  have "\<forall>(r, v) \<in> set ws. cell (move m s) r" using assms by (simp add: move_cell)
  then have "rd x (writes ws (move m s)) = (case map_of (rev ws) x of Some v \<Rightarrow> v | None \<Rightarrow> rd x (move m s))"
    using assms by (intro rd_writes) (simp_all add: move_ok move_cell)
  also have "\<dots> = rd x (writes ws s)" using assms by (simp add: rd_writes rd_move split: option.split)
  finally show ?thesis .
qed

end

text \<open>Closing from a level, then any change of the stack from that level upwards.\<close>

definition close_and_cut :: "nat \<times> val list \<Rightarrow> vm_state \<Rightarrow> vm_state" where
  "close_and_cut m s = (close_upvalues (fst m) s)\<lparr>stack := snd m\<rparr>"

definition cut_able :: "nat \<times> val list \<Rightarrow> vm_state \<Rightarrow> bool" where
  "cut_able m s \<longleftrightarrow> fst m \<le> length (snd m) \<and> take (fst m) (snd m) = take (fst m) (stack s)"

definition captured :: "vm_state \<Rightarrow> nat \<Rightarrow> bool" where
  "captured s = live (upvalue_pool s)"

lemma captured_bound: "captured s r \<Longrightarrow> r < length (pool_slots (upvalue_pool s))"
  by (simp add: captured_def live_def)

interpretation upvalue_cells: moving_cell_store upvalue_value set_upvalue_value uv_inv captured close_and_cut cut_able
proof unfold_locales
  show "uv_inv (set_upvalue_value r v s)" "captured (set_upvalue_value r v s) x \<longleftrightarrow> captured s x"
    if "uv_inv s" "captured s r" for r v s x
    using that by (simp_all add: set_upvalue_inv captured_def)
  show "upvalue_value x (set_upvalue_value r v s) = (if x = r then v else upvalue_value x s)"
    if "uv_inv s" "captured s r" "captured s x" for r v s x
    using that by (simp add: set_upvalue_value_get captured_def)
  show "uv_inv (close_and_cut m s)" "captured (close_and_cut m s) r \<longleftrightarrow> captured s r"
    if "uv_inv s" "cut_able m s" for m s r
    using that by (simp_all add: close_upvalues_inv close_and_cut_def cut_able_def captured_def live_close_upvalues)
  show "upvalue_value r (close_and_cut m s) = upvalue_value r s"
    if "uv_inv s" "cut_able m s" "captured s r" for m s r
    using that by (simp add: close_upvalues_value close_and_cut_def cut_able_def captured_bound)
qed

section \<open>Captures\<close>

definition capture_ok :: "nat \<Rightarrow> nat list \<Rightarrow> vm_state \<Rightarrow> upvalue_desc \<Rightarrow> bool" where
  "capture_ok bottom ups s d \<longleftrightarrow>
     (case d of UpLocal i \<Rightarrow> bottom + unat i < length (stack s)
      | UpUpvalue i \<Rightarrow> unat i < length ups \<and> captured s (ups ! unat i))"

text \<open>The reference a capture must be: the open upvalue of the local, or the enclosing one.\<close>

definition captures :: "nat \<Rightarrow> nat list \<Rightarrow> vm_state \<Rightarrow> upvalue_desc \<Rightarrow> nat \<Rightarrow> bool" where
  "captures bottom ups s d r \<longleftrightarrow>
     (case d of UpLocal i \<Rightarrow> (bottom + unat i, r) \<in> set (open_upvalues s) | UpUpvalue i \<Rightarrow> r = ups ! unat i)"

lemma find_or_create_keeps_open:
  assumes "uv_inv s" "find_or_create_upvalue i s = (r, s')" "x \<in> set (open_upvalues s)"
  shows "x \<in> set (open_upvalues s')"
  using assms(1,2)
proof (cases rule: find_or_create_cases)
  case (created pos p')
  then show ?thesis
    using assms(3) set_append [of "take pos (open_upvalues s)" "drop pos (open_upvalues s)"] by auto
qed (use assms in simp)

lemma capture_upvalues_spec:
  assumes "uv_inv s" "\<forall>d \<in> set ds. capture_ok bottom ups s d" "capture_upvalues bottom ups ds s = (rs, s')"
  shows "uv_inv s' \<and> stack s' = stack s \<and> set (open_upvalues s) \<subseteq> set (open_upvalues s')
    \<and> (\<forall>x. captured s x \<longrightarrow> captured s' x \<and> upvalue_value x s' = upvalue_value x s)
    \<and> list_all2 (captures bottom ups s') ds rs"
  using assms
proof (induction bottom ups ds s arbitrary: rs s' rule: capture_upvalues.induct)
  case (2 bottom ups idx ds s)
  obtain r s1 where foc: "find_or_create_upvalue (bottom + unat idx) s = (r, s1)" by fastforce
  obtain rs1 where rest: "capture_upvalues bottom ups ds s1 = (rs1, s')" and rs: "rs = r # rs1"
    using 2(4) foc by (auto split: prod.splits)
  have st: "stack s1 = stack s" by (rule find_or_create_open(2) [OF 2(2) foc])
  have live: "captured s x \<Longrightarrow> captured s1 x \<and> upvalue_value x s1 = upvalue_value x s" for x
    unfolding captured_def using find_or_create_value(2,3) [OF 2(2) foc] by simp
  have "uv_inv s1" using 2(2,3) foc by (auto simp: capture_ok_def intro: find_or_create_inv)
  moreover have "\<forall>d \<in> set ds. capture_ok bottom ups s1 d"
    using 2(3) st live by (auto simp: capture_ok_def split: upvalue_desc.splits)
  ultimately have IH: "uv_inv s' \<and> stack s' = stack s1 \<and> set (open_upvalues s1) \<subseteq> set (open_upvalues s')
    \<and> (\<forall>x. captured s1 x \<longrightarrow> captured s' x \<and> upvalue_value x s' = upvalue_value x s1)
    \<and> list_all2 (captures bottom ups s') ds rs1"
    by (rule 2(1) [OF foc [symmetric] _ _ rest])
  moreover have "captures bottom ups s' (UpLocal idx) r"
    using IH find_or_create_open(1) [OF 2(2) foc] by (auto simp: captures_def)
  moreover have "set (open_upvalues s) \<subseteq> set (open_upvalues s1)"
    using find_or_create_keeps_open [OF 2(2) foc] by blast
  ultimately show ?case using live st rs by auto
next
  case (3 bottom ups idx ds s)
  obtain rs1 where rest: "capture_upvalues bottom ups ds s = (rs1, s')" and rs: "rs = ups ! unat idx # rs1"
    using 3(4) by (auto split: prod.splits)
  then show ?case using 3(1) [OF 3(2) _ rest] 3(3) by (auto simp: captures_def)
qed auto

section \<open>Collection\<close>

text \<open>Marking of the reachable references before a sweep.\<close>

fun mark_slots :: "nat list \<Rightarrow> upvalue_pool \<Rightarrow> upvalue_pool option" where
  "mark_slots [] p = Some p"
| "mark_slots (r # rs) p = (case mark_slot r p of None \<Rightarrow> None | Some p' \<Rightarrow> mark_slots rs p')"

lemma mark_slot_ok:
  assumes "pool_ok p" "live p r"
  shows "\<exists>p'. mark_slot r p = Some p' \<and> pool_ok p' \<and> (\<forall>x. live p' x \<longleftrightarrow> live p x)
     \<and> pool_slots p' = pool_slots p
     \<and> (\<forall>x < length (pool_slots p). pool_colors p' ! x = (if x = r then SlotReachable else pool_colors p ! x))"
proof -
  have "pool_colors p ! r \<noteq> SlotFree" using assms by (simp add: live_color)
  moreover have "pool_ok (p\<lparr>pool_colors := (pool_colors p)[r := SlotReachable]\<rparr>)"
    using assms by (auto simp: pool_ok_def live_def nth_update_cases)
  ultimately show ?thesis
    using assms by (auto simp: mark_slot_def live_def pool_ok_def nth_list_update)
qed

lemma mark_slots_ok:
  "pool_ok p \<Longrightarrow> \<forall>r \<in> set rs. live p r \<Longrightarrow>
   \<exists>p'. mark_slots rs p = Some p' \<and> pool_ok p' \<and> (\<forall>x. live p' x \<longleftrightarrow> live p x) \<and> pool_slots p' = pool_slots p
     \<and> (\<forall>x < length (pool_slots p). pool_colors p' ! x = (if x \<in> set rs then SlotReachable else pool_colors p ! x))"
proof (induction rs arbitrary: p)
  case (Cons r rs)
  obtain p1 where p1: "mark_slot r p = Some p1" "pool_ok p1" "\<forall>x. live p1 x \<longleftrightarrow> live p x" "pool_slots p1 = pool_slots p"
    "\<forall>x < length (pool_slots p). pool_colors p1 ! x = (if x = r then SlotReachable else pool_colors p ! x)"
    using mark_slot_ok [of p r] Cons.prems by auto
  with Cons.IH [of p1] Cons.prems show ?case by auto
qed simp

section \<open>Properties\<close>

text \<open>
  C5 (vm/eval.rs, State::close_upvalues): closing from a level and then cutting or rewriting the
  stack from that level upwards is invisible to every closure: after any sequence of writes
  through captured variables each of them reads what it would have read without the closing;
  no open entry at or above the level is left and the invariant holds.
\<close>

theorem closing_unobservable:
  assumes "uv_inv s" and "level \<le> length vs" "take level vs = take level (stack s)"
    and "\<forall>(r, v) \<in> set ws. captured s r" and "captured s x"
  shows "upvalue_value x (fold (\<lambda>(r, v). set_upvalue_value r v) ws ((close_upvalues level s)\<lparr>stack := vs\<rparr>))
      = upvalue_value x (fold (\<lambda>(r, v). set_upvalue_value r v) ws s)
    \<and> uv_inv ((close_upvalues level s)\<lparr>stack := vs\<rparr>)
    \<and> (\<forall>(i, r) \<in> set (open_upvalues (close_upvalues level s)). i < level)"
proof -
  have "cut_able (level, vs) s" using assms(2,3) by (simp add: cut_able_def)
  from upvalue_cells.move_unobservable [OF assms(1) this assms(4,5)] close_upvalues_inv [OF assms(1,2)]
  show ?thesis by (auto simp: close_and_cut_def close_upvalues_list [OF assms(1)])
qed



subsection \<open>Witnesses\<close>

text \<open>Two upvalues: one open on the second slot of the stack, one closed; a third slot is free.\<close>

definition sample_upvalues :: vm_state where
  "sample_upvalues = sample_state\<lparr> open_upvalues := [(1, 0)],
     upvalue_pool := \<lparr> pool_slots = [UvOpen 1, UvClosed (VBool False), UvClosed VNil],
       pool_colors = [SlotUnmarked, SlotUnmarked, SlotFree], pool_free = [2] \<rparr> \<rparr>"

lemma sample_upvalues_inv: "uv_inv sample_upvalues" "captured sample_upvalues 0" "captured sample_upvalues 1"
proof -
  have "pool_ok (upvalue_pool sample_upvalues)"
    by (auto simp: pool_ok_def sample_upvalues_def less_Suc_eq numeral_eq_Suc)
  moreover have "(i, r) \<in> set (open_upvalues sample_upvalues) \<longleftrightarrow>
      r < length (pool_slots (upvalue_pool sample_upvalues)) \<and> pool_slots (upvalue_pool sample_upvalues) ! r = UvOpen i" for i r
    by (auto simp: sample_upvalues_def less_Suc_eq numeral_eq_Suc)
  ultimately show "uv_inv sample_upvalues" by (simp add: uv_inv_def) (simp add: sample_upvalues_def sample_state_def)
  show "captured sample_upvalues 0" "captured sample_upvalues 1"
    by (simp_all add: captured_def live_def sample_upvalues_def)
qed

theorem closing_unobservable_witness:
  "upvalue_value 0 (fold (\<lambda>(r, v). set_upvalue_value r v) [(1, VNum 4)]
     ((close_upvalues 1 sample_upvalues)\<lparr>stack := [VBool True, VNil]\<rparr>)) = VNum 7"
proof -
  have "take 1 [VBool True, VNil] = take 1 (stack sample_upvalues)" "(1::nat) \<le> length [VBool True, VNil]"
    by (simp_all add: sample_upvalues_def sample_state_def)
  then have "upvalue_value 0 (fold (\<lambda>(r, v). set_upvalue_value r v) [(1, VNum 4)]
      ((close_upvalues 1 sample_upvalues)\<lparr>stack := [VBool True, VNil]\<rparr>))
    = upvalue_value 0 (fold (\<lambda>(r, v). set_upvalue_value r v) [(1, VNum 4)] sample_upvalues)"
    using closing_unobservable [of sample_upvalues 1 "[VBool True, VNil]" "[(1, VNum 4)]" 0] sample_upvalues_inv
    by simp
  also have "\<dots> = VNum 7"
    by (simp add: sample_upvalues_def sample_state_def upvalue_value_def set_upvalue_value_def pool_get_def pool_set_def)
  finally show ?thesis .
qed



end
