(* ===== verification/Calls.thy ===== *)
theory Calls
  imports Upvalues
begin

text \<open>
  Calls and returns (\<open>vm/eval.rs\<close>, \<open>vm/frame.rs\<close>): the admission of a Lua call, the resolution of
  callable objects, Rust callbacks, tail calls, returns and the unwinding of an invocation.

  An operation is a state transformer with three outcomes: a value, an error of the source's
  \<open>Result\<close>, or a panic, which is what an index out of range, an underflow of a counter, a failed
  \<open>expect\<close> or the unwinding of a poisoned state is. A fourth outcome says that the fuel of a
  dispatch loop ran out. Location and reporting of errors are not
  modelled. What the operations need of the rest of the program is the record \<open>world\<close>: host and
  library functions, and the \<open>__call\<close> handler of a value that is not a function.
\<close>

section \<open>Outcomes\<close>

datatype 'a outcome = Done 'a | Failed vm_error | Panicked | Timeout

type_synonym 'a vm = "vm_state \<Rightarrow> 'a outcome \<times> vm_state"

definition return_vm :: "'a \<Rightarrow> 'a vm" where
  "return_vm x s = (Done x, s)"

definition fail_vm :: "vm_error \<Rightarrow> 'a vm" where
  "fail_vm e s = (Failed e, s)"

definition panic_vm :: "'a vm" where
  "panic_vm s = (Panicked, s)"

definition bind_vm :: "'a vm \<Rightarrow> ('a \<Rightarrow> 'b vm) \<Rightarrow> 'b vm" where
  "bind_vm m f s =
     (case m s of (Done x, s') \<Rightarrow> f x s' | (Failed e, s') \<Rightarrow> (Failed e, s')
      | (Panicked, s') \<Rightarrow> (Panicked, s') | (Timeout, s') \<Rightarrow> (Timeout, s'))"

definition update_vm :: "(vm_state \<Rightarrow> vm_state) \<Rightarrow> unit vm" where
  "update_vm f s = (Done (), f s)"

definition read_vm :: "(vm_state \<Rightarrow> 'a) \<Rightarrow> 'a vm" where
  "read_vm f s = (Done (f s), s)"

text \<open>A query that may fail, an operation that may fail, and an assertion.\<close>

definition try_vm :: "(vm_state \<Rightarrow> vm_error + 'a) \<Rightarrow> 'a vm" where
  "try_vm q s = (case q s of Inl e \<Rightarrow> (Failed e, s) | Inr x \<Rightarrow> (Done x, s))"

definition apply_vm :: "(vm_state \<Rightarrow> vm_error + vm_state) \<Rightarrow> unit vm" where
  "apply_vm f s = (case f s of Inl e \<Rightarrow> (Failed e, s) | Inr s' \<Rightarrow> (Done (), s'))"

definition expect_vm :: "(vm_state \<Rightarrow> bool) \<Rightarrow> unit vm" where
  "expect_vm P s = (if P s then (Done (), s) else (Panicked, s))"

section \<open>Limits and the world\<close>

definition FRAME_HEADROOM :: nat where
  "FRAME_HEADROOM = 4"

definition MAX_CALL_DEPTH :: nat where
  "MAX_CALL_DEPTH = 1000"

definition MAX_NATIVE_CALL_DEPTH :: nat where
  "MAX_NATIVE_CALL_DEPTH = 150"

definition MAX_METAMETHOD_DEPTH :: nat where
  "MAX_METAMETHOD_DEPTH = 200"

text \<open>
  The code of the program outside this model: host and library functions, the handler lookup of
  a callable object, arithmetic on doubles, the order of strings, the table, global, string and length
  operations up to the point where they call a handler (the resolvers push its call window and
  return), the inlined iterators of generic loops, and the allocation of closures.
\<close>

datatype index_outcome = IndexValue val | IndexCall nat

record world =
  w_rust_fn :: "nat \<Rightarrow> vm_state \<Rightarrow> (vm_error + u8) \<times> vm_state"
  w_call_handler :: "val \<Rightarrow> vm_state \<Rightarrow> val"
  w_arith :: "arith_fn \<Rightarrow> u64 \<Rightarrow> u64 \<Rightarrow> u64"
  w_string_cmp :: "nat \<Rightarrow> nat \<Rightarrow> vm_state \<Rightarrow> cmp_ordering"
  w_value :: "instr \<Rightarrow> val list \<Rightarrow> vm_state \<Rightarrow> (vm_error + val) \<times> vm_state"
  w_store :: "instr \<Rightarrow> val list \<Rightarrow> vm_state \<Rightarrow> (vm_error + unit) \<times> vm_state"
  w_index :: "instr \<Rightarrow> val \<Rightarrow> val \<Rightarrow> vm_state \<Rightarrow> (vm_error + index_outcome) \<times> vm_state"
  w_newindex :: "instr \<Rightarrow> val \<Rightarrow> val \<Rightarrow> val \<Rightarrow> vm_state \<Rightarrow> (vm_error + nat option) \<times> vm_state"
  w_length :: "val \<Rightarrow> vm_state \<Rightarrow> (vm_error + val option) \<times> vm_state"
  w_iterate :: "nat \<Rightarrow> val \<Rightarrow> val \<Rightarrow> vm_state \<Rightarrow> (val \<times> val option) option"
  w_runtime :: "bytecode \<Rightarrow> vm_state \<Rightarrow> (vm_error + val list) \<times> vm_state"
  w_alloc_closure :: "closure \<Rightarrow> vm_state \<Rightarrow> nat \<times> vm_state"

section \<open>Safepoints and windows\<close>

definition poll_interrupt :: "vm_state \<Rightarrow> vm_error + unit" where
  "poll_interrupt s = ensure (\<not> interrupt s) Interrupted"

text \<open>\<open>Frame::flush_local_cost\<close> on the state's meter.\<close>

definition flush_pending :: "unit vm" where
  "flush_pending s =
     (case flush_local_cost (vm_cost s) (pending s) of
        (Inl e, c, l) \<Rightarrow> (Failed (VmBudgetExceeded e), s\<lparr> vm_cost := c, pending := l \<rparr>)
      | (Inr _, c, l) \<Rightarrow> (Done (), s\<lparr> vm_cost := c, pending := l \<rparr>))"

definition record_call_site :: "nat \<Rightarrow> vm_state \<Rightarrow> vm_state" where
  "record_call_site ip s =
     (case call_stack s of [] \<Rightarrow> s | ci # cis \<Rightarrow> s\<lparr> call_stack := ci\<lparr> ci_ip := ip \<rparr> # cis \<rparr>)"

definition check_window :: "nat \<Rightarrow> vm_state \<Rightarrow> vm_error + unit" where
  "check_window first s =
     ensure (\<not> (open_upvalues s \<noteq> [] \<and> fst (last (open_upvalues s)) \<ge> first)) WindowOverlapsOpenUpvalue"

text \<open>\<open>close_upvalues\<close> reads the stack slot of every entry it closes.\<close>

definition close_vm :: "nat \<Rightarrow> unit vm" where
  "close_vm level =
     bind_vm (expect_vm (\<lambda>s. list_all (\<lambda>(i, _). level \<le> i \<longrightarrow> i < length (stack s)) (open_upvalues s))) (\<lambda>_.
     update_vm (close_upvalues level))"

definition truncate_stack :: "nat \<Rightarrow> vm_state \<Rightarrow> vm_state" where
  "truncate_stack n s = s\<lparr> stack := take n (stack s) \<rparr>"

definition call_window :: "nat \<Rightarrow> arg_count \<Rightarrow> u8 vm" where
  "call_window callee args =
     bind_vm (try_vm (check_window callee)) (\<lambda>_.
       case args of
         ArgFixed n \<Rightarrow> bind_vm (update_vm (truncate_stack (callee + 1 + unat n))) (\<lambda>_. return_vm n)
       | ArgDynamic \<Rightarrow>
           bind_vm (expect_vm (\<lambda>s. callee + 1 \<le> length (stack s))) (\<lambda>_.
           bind_vm (read_vm (\<lambda>s. length (stack s) - callee - 1)) (\<lambda>actual.
             if actual \<le> 255 then return_vm (of_nat actual) else fail_vm (TooManyArguments MAX_ARGUMENTS))))"

definition call_base :: "u8 \<Rightarrow> vm_state \<Rightarrow> vm_error + nat" where
  "call_base num_args s =
     (let required = unat num_args + 1
      in if required \<le> get_top s then Inr (stack_bottom s + (get_top s - required))
         else Inl (InvalidStackIndex (- int (unat num_args) - 1)))"

section \<open>Activation records\<close>

definition release_chain_charges :: "nat \<Rightarrow> unit vm" where
  "release_chain_charges charges =
     bind_vm (expect_vm (\<lambda>s. charges \<le> metamethod_depth s)) (\<lambda>_.
     update_vm (\<lambda>s. s\<lparr> metamethod_depth := metamethod_depth s - charges \<rparr>))"

definition pop_activation :: "unit vm" where
  "pop_activation s =
     (case call_stack s of
        [] \<Rightarrow> (Panicked, s)
      | info # rest \<Rightarrow>
          bind_vm (release_chain_charges (unat (chain_units (ci_chain info)))) (\<lambda>_.
          bind_vm (update_vm (\<lambda>s. s\<lparr> vararg_stack := take (ci_vararg_start info) (vararg_stack s),
                                     call_stack := rest \<rparr>)) (\<lambda>_.
          bind_vm (expect_vm (\<lambda>s. 0 < call_depth s)) (\<lambda>_.
          update_vm (\<lambda>s. s\<lparr> call_depth := call_depth s - 1 \<rparr>)))) s)"

definition collect_varargs :: "nat \<Rightarrow> vm_state \<Rightarrow> vm_state" where
  "collect_varargs start s =
     s\<lparr> vararg_stack := vararg_stack s @ drop start (stack s), stack := take start (stack s) \<rparr>"

definition reject_admission :: "vm_error \<Rightarrow> nat \<Rightarrow> nat \<Rightarrow> unit vm" where
  "reject_admission e frame_bottom old_stack_bottom =
     bind_vm (update_vm (\<lambda>s. (truncate_stack frame_bottom s)\<lparr> stack_bottom := old_stack_bottom \<rparr>)) (\<lambda>_.
     bind_vm pop_activation (\<lambda>_. fail_vm e))"

text \<open>What admission writes before it reserves the frame.\<close>

definition push_activation :: "bytecode \<Rightarrow> u8 \<Rightarrow> vm_state \<Rightarrow> vm_state" where
  "push_activation bc num_args s =
     (let n = unat num_args; params = unat (num_params (body bc));
          frame_bottom = length (stack s) - n; vararg = is_vararg (body bc);
          vararg_start = length (vararg_stack s);
          s1 = s\<lparr> call_depth := call_depth s + 1, stack_bottom := frame_bottom \<rparr>;
          s2 = (if vararg \<and> num_args > num_params (body bc)
                then collect_varargs (length (stack s) - (n - params)) s1 else s1);
          s3 = s2\<lparr> call_stack := \<lparr> ci_bytecode = bc, ci_ip = 0, ci_vararg_start = vararg_start, ci_chain = 0 \<rparr>
                                   # call_stack s2 \<rparr>
      in if num_args > num_params (body bc) \<and> \<not> vararg then truncate_stack (frame_bottom + params) s3 else s3)"

definition admit_lua_call :: "bytecode \<Rightarrow> u8 \<Rightarrow> nat \<Rightarrow> bool \<Rightarrow> unit vm" where
  "admit_lua_call bc num_args old_stack_bottom tail =
     bind_vm (expect_vm (\<lambda>s. tail \<longrightarrow> 0 < call_depth s)) (\<lambda>_.
     bind_vm (read_vm (\<lambda>s. call_depth s - (if tail then 1 else 0))) (\<lambda>depth.
       if depth \<ge> MAX_CALL_DEPTH then fail_vm (CallDepthExceeded depth MAX_CALL_DEPTH)
       else
         bind_vm (try_vm poll_interrupt) (\<lambda>_.
         bind_vm (expect_vm (\<lambda>s. unat num_args \<le> length (stack s))) (\<lambda>_.
         bind_vm (update_vm (push_activation bc num_args)) (\<lambda>_.
         bind_vm (read_vm (\<lambda>s. (stack_bottom s, stack_bottom s + unat (max_stack (body bc)), s)))
           (\<lambda>(frame_bottom, frame_top, s).
             case check_stack_space (frame_top + FRAME_HEADROOM - length (stack s)) s of
               Inl e \<Rightarrow> reject_admission e frame_bottom old_stack_bottom
             | Inr _ \<Rightarrow> update_vm (\<lambda>s. s\<lparr> stack := vec_resize frame_top (stack s) \<rparr>)))))))"

definition lua_function :: "val \<Rightarrow> vm_state \<Rightarrow> closure option" where
  "lua_function v s = (case v of VObj p \<Rightarrow> closures s p | _ \<Rightarrow> None)"

definition admitted_frame :: "frame vm" where
  "admitted_frame s =
     (if 0 < stack_bottom s \<and> stack_bottom s \<le> length (stack s)
      then (case lua_function (stack s ! (stack_bottom s - 1)) s of
              Some c \<Rightarrow> (Done (frame_new (cl_bytecode c) (cl_literals c) (cl_upvalues c) (stack_bottom s)), s)
            | None \<Rightarrow> (Panicked, s))
      else (Panicked, s))"

section \<open>Starting a call\<close>

text \<open>\<open>CallShape\<close>: a method call and a tail call are flag bits of one byte.\<close>

definition SHAPE_HOST :: u8 where
  "SHAPE_HOST = 0"

definition shape_from_lua :: "bool \<Rightarrow> bool \<Rightarrow> u8" where
  "shape_from_lua m t = (of_bool m * 1) OR (of_bool t * 2)"

definition shape_method :: "u8 \<Rightarrow> bool" where
  "shape_method c \<longleftrightarrow> c AND 1 \<noteq> 0"

definition shape_tail :: "u8 \<Rightarrow> bool" where
  "shape_tail c \<longleftrightarrow> c AND 2 \<noteq> 0"

text \<open>The tail of \<open>invoke_rust_fn\<close>: the top \<open>reported\<close> values become the results at \<open>base\<close>.\<close>

definition keep_results :: "nat \<Rightarrow> u8 \<Rightarrow> nat \<Rightarrow> u8 vm" where
  "keep_results base reported old_stack_bottom s =
     (let available = get_top s in
      if \<not> stack_bottom s \<le> length (stack s) then (Panicked, s)
      else if unat reported > available
      then (Failed (ResultCountExceedsStack reported available), s\<lparr> stack_bottom := old_stack_bottom \<rparr>)
      else if unat reported < available \<and> base + unat reported > length (stack s) then (Panicked, s)
      else (Done reported,
            s\<lparr> stack := (if unat reported < available
                         then take base (stack s) @ drop (length (stack s) - unat reported) (stack s)
                         else stack s),
               stack_bottom := old_stack_bottom \<rparr>))"

definition invoke_rust_fn :: "world \<Rightarrow> nat \<Rightarrow> nat \<Rightarrow> u8 vm" where
  "invoke_rust_fn W f base =
     bind_vm (try_vm poll_interrupt) (\<lambda>_ s.
       case w_rust_fn W f (s\<lparr> stack_bottom := base, active_rust_fn := Some f \<rparr>) of (result, s1) \<Rightarrow>
         if poisoned s1 then (Panicked, s1)
         else
           (let s2 = s1\<lparr> active_rust_fn := active_rust_fn s \<rparr>
            in case result of
                 Inl e \<Rightarrow> (Failed e, s2\<lparr> stack_bottom := stack_bottom s \<rparr>)
               | Inr n \<Rightarrow> if fp_unsupported s1
                          then (Failed FloatEnvironment, s2\<lparr> stack_bottom := stack_bottom s \<rparr>)
                          else keep_results base n (stack_bottom s) s2))"

definition remove_slot :: "nat \<Rightarrow> vm_state \<Rightarrow> vm_state" where
  "remove_slot idx s = s\<lparr> stack := take idx (stack s) @ drop (Suc idx) (stack s) \<rparr>"

definition map_outcome :: "('a \<Rightarrow> 'b) \<Rightarrow> 'a outcome \<times> 's \<Rightarrow> 'b outcome \<times> 's" where
  "map_outcome f r = (case r of (Done x, s) \<Rightarrow> (Done (f x), s) | (Failed e, s) \<Rightarrow> (Failed e, s)
     | (Panicked, s) \<Rightarrow> (Panicked, s) | (Timeout, s) \<Rightarrow> (Timeout, s))"

definition transfer_charges :: "nat \<Rightarrow> vm_state \<Rightarrow> vm_state" where
  "transfer_charges charges s =
     (case call_stack s of [] \<Rightarrow> s
      | ci # cis \<Rightarrow> s\<lparr> call_stack := ci\<lparr> ci_chain := with_units 0 (of_nat charges) \<rparr> # cis \<rparr>)"

fun as_rust_fn :: "val \<Rightarrow> nat option" where
  "as_rust_fn (VRustFn f) = Some f"
| "as_rust_fn _ = None"

definition is_function :: "val \<Rightarrow> vm_state \<Rightarrow> bool" where
  "is_function v s \<longleftrightarrow> as_rust_fn v \<noteq> None \<or> lua_function v s \<noteq> None"

definition insert_receiver :: "nat \<Rightarrow> val \<Rightarrow> vm_state \<Rightarrow> vm_state" where
  "insert_receiver idx handler s =
     s\<lparr> stack := take idx (stack s) @ [handler, stack s ! idx] @ drop (Suc idx) (stack s) \<rparr>"

text \<open>
  The resolution loop of \<open>begin_callable_call\<close>, with the chain units it still owns. The argument
  count grows in every round, so it ends.
\<close>

function callable_loop ::
  "world \<Rightarrow> nat \<Rightarrow> nat \<Rightarrow> u8 \<Rightarrow> u8 \<Rightarrow> nat \<Rightarrow> vm_state \<Rightarrow> u8 option outcome \<times> nat \<times> vm_state" where
  "callable_loop W idx old_stack_bottom shape num_args charges s =
     (if \<not> idx < length (stack s) then (Panicked, charges, s)
      else case as_rust_fn (stack s ! idx) of
        Some f \<Rightarrow>
          (case map_outcome Some (invoke_rust_fn W f idx (remove_slot idx s)) of (r, s') \<Rightarrow> (r, charges, s'))
      | None \<Rightarrow>
          (case lua_function (stack s ! idx) s of
             Some c \<Rightarrow>
               (case admit_lua_call (cl_bytecode c) num_args old_stack_bottom (shape_tail shape) s of
                  (Done _, s') \<Rightarrow> (Done None, 0, transfer_charges charges s')
                | (Failed e, s') \<Rightarrow> (Failed e, charges, s')
                | (_, s') \<Rightarrow> (Panicked, charges, s'))
           | None \<Rightarrow>
               (let handler = w_call_handler W (stack s ! idx) s in
                if handler = VNil then (Failed (NotCallable (stack s ! idx)), charges, s)
                else if num_args = 255 then (Failed (TooManyArguments MAX_ARGUMENTS), charges, s)
                else case check_stack_space 1 s of
                  Inl e \<Rightarrow> (Failed e, charges, s)
                | Inr _ \<Rightarrow>
                    (let s1 = insert_receiver idx handler s in
                     if is_function handler s
                     then callable_loop W idx old_stack_bottom shape (num_args + 1) charges s1
                     else if metamethod_depth s \<ge> MAX_METAMETHOD_DEPTH
                     then (Failed (MetamethodDepthExceeded (metamethod_depth s) MAX_METAMETHOD_DEPTH), charges, s1)
                     else callable_loop W idx old_stack_bottom shape (num_args + 1) (charges + 1)
                            (s1\<lparr> metamethod_depth := metamethod_depth s + 1 \<rparr>)))))"
  by pat_completeness auto

lemma arg_count_below: "num_args \<noteq> 255 \<Longrightarrow> unat num_args < 255" for num_args :: u8
proof -
  assume "num_args \<noteq> 255"
  then have "unat num_args \<noteq> unat (255 :: u8)" by (simp only: word_unat_eq_iff not_False_eq_True)
  moreover have "unat num_args < 256" using unsigned_less [of num_args, where 'a = nat] by simp
  ultimately show ?thesis by simp
qed

lemma next_arg_count: "num_args \<noteq> 255 \<Longrightarrow> unat (num_args + 1) = unat num_args + 1" for num_args :: u8
  using arg_count_below [of num_args] by (simp add: unat_word_ariths)

termination callable_loop
  by (relation "measure (\<lambda>(_, _, _, _, n, _, _). 255 - unat n)") (auto simp: next_arg_count dest: arg_count_below)

declare callable_loop.simps [simp del]

definition begin_callable_call :: "world \<Rightarrow> nat \<Rightarrow> u8 \<Rightarrow> nat \<Rightarrow> u8 \<Rightarrow> u8 option vm" where
  "begin_callable_call W idx num_args old_stack_bottom shape s =
     (case callable_loop W idx old_stack_bottom shape num_args 0 s of
        (Panicked, _, s') \<Rightarrow> (Panicked, s')
      | (result, charges, s') \<Rightarrow>
          bind_vm (release_chain_charges charges) (\<lambda>_ s''. (result, s'')) s')"

text \<open>A Rust callee runs to completion; a Lua callee is admitted, which is the result \<^const>\<open>None\<close>.\<close>

definition begin_call :: "world \<Rightarrow> nat \<Rightarrow> u8 \<Rightarrow> nat \<Rightarrow> u8 \<Rightarrow> u8 option vm" where
  "begin_call W idx num_args old_stack_bottom shape s =
     (if \<not> idx < length (stack s) then (Panicked, s)
      else case as_rust_fn (stack s ! idx) of
        Some f \<Rightarrow> map_outcome Some (invoke_rust_fn W f idx (remove_slot idx s))
      | None \<Rightarrow>
          (case lua_function (stack s ! idx) s of
             Some c \<Rightarrow>
               bind_vm (admit_lua_call (cl_bytecode c) num_args old_stack_bottom (shape_tail shape))
                 (\<lambda>_. return_vm None) s
           | None \<Rightarrow> begin_callable_call W idx num_args old_stack_bottom shape s))"

definition finish_call :: "ret_count \<Rightarrow> u8 \<Rightarrow> unit vm" where
  "finish_call expected actual =
     (case expected of
        RetAll \<Rightarrow> return_vm ()
      | RetFixed n \<Rightarrow>
          if n = actual then return_vm ()
          else bind_vm (expect_vm (\<lambda>s. unat actual \<le> length (stack s))) (\<lambda>_.
               apply_vm (\<lambda>s. resize_stack (length (stack s) - unat actual + unat n) s)))"

text \<open>\<^const>\<open>True\<close>: a Lua callee was admitted.\<close>

definition call_from_lua :: "world \<Rightarrow> u8 \<Rightarrow> ret_count \<Rightarrow> bool \<Rightarrow> bool vm" where
  "call_from_lua W num_args expected is_method =
     bind_vm (try_vm (call_base num_args)) (\<lambda>idx.
     bind_vm (read_vm stack_bottom) (\<lambda>old_stack_bottom.
     bind_vm (begin_call W idx num_args old_stack_bottom (shape_from_lua is_method False)) (\<lambda>r.
       case r of
         Some n \<Rightarrow> bind_vm (finish_call expected n) (\<lambda>_. return_vm False)
       | None \<Rightarrow> return_vm True)))"

text \<open>The caller's chain units are released when a tail call ends its activation.\<close>

definition release_caller_chain :: "unit vm" where
  "release_caller_chain s =
     (case call_stack s of
        [] \<Rightarrow> (Panicked, s)
      | ci # cis \<Rightarrow>
          release_chain_charges (unat (chain_units (ci_chain ci)))
            (s\<lparr> call_stack := ci\<lparr> ci_chain := with_units (ci_chain ci) 0 \<rparr> # cis \<rparr>))"

definition tail_call_from_lua :: "world \<Rightarrow> instr \<Rightarrow> nat \<Rightarrow> nat \<Rightarrow> u8 option vm" where
  "tail_call_from_lua W inst ra ip =
     bind_vm (update_vm (record_call_site ip)) (\<lambda>_.
     bind_vm flush_pending (\<lambda>_.
     bind_vm (call_window ra (call_args inst)) (\<lambda>num_args.
     bind_vm (try_vm (call_base num_args)) (\<lambda>callee.
     bind_vm (expect_vm (\<lambda>s. 0 < stack_bottom s)) (\<lambda>_.
     bind_vm (read_vm (\<lambda>s. stack_bottom s - 1)) (\<lambda>destination.
     bind_vm (read_vm stack_bottom) (\<lambda>caller_bottom.
     bind_vm (close_vm caller_bottom) (\<lambda>_.
     bind_vm (expect_vm (\<lambda>s. destination \<le> callee \<and> callee \<le> length (stack s))) (\<lambda>_.
     bind_vm (update_vm (\<lambda>s. s\<lparr> stack := take destination (stack s) @ drop callee (stack s) \<rparr>)) (\<lambda>_.
     bind_vm release_caller_chain (\<lambda>_.
     bind_vm (update_vm (\<lambda>s. s\<lparr> stack_bottom := destination \<rparr>)) (\<lambda>_.
     begin_call W destination num_args destination (shape_from_lua (call_is_method inst) True)))))))))))))"

section \<open>Returning\<close>

definition push_frame :: "unit vm" where
  "push_frame = bind_vm admitted_frame (\<lambda>f. update_vm (\<lambda>s. s\<lparr> frames := f # frames s \<rparr>))"

definition pop_frame :: "vm_state \<Rightarrow> vm_state" where
  "pop_frame s = s\<lparr> frames := tl (frames s) \<rparr>"

definition replace_tail_caller :: "unit vm" where
  "replace_tail_caller s =
     (case call_stack s of
        callee # caller # rest \<Rightarrow>
          if ci_vararg_start caller \<le> ci_vararg_start callee \<and> ci_vararg_start callee \<le> length (vararg_stack s)
             \<and> 0 < call_depth s \<and> frames s \<noteq> []
          then push_frame
                 (pop_frame (s\<lparr> vararg_stack := take (ci_vararg_start caller) (vararg_stack s)
                                                 @ drop (ci_vararg_start callee) (vararg_stack s),
                               call_stack := callee\<lparr> ci_vararg_start := ci_vararg_start caller,
                                                     ci_chain := marked_tail_called (ci_chain callee) \<rparr> # rest,
                               call_depth := call_depth s - 1 \<rparr>))
          else (Panicked, s)
      | _ \<Rightarrow> (Panicked, s))"

definition results_count :: "nat \<Rightarrow> vm_error + u8" where
  "results_count count = (if count \<le> 255 then Inr (of_nat count) else Inl (TooManyResults MAX_RESULTS))"

definition collect_returns :: "frame \<Rightarrow> nat \<Rightarrow> nat \<Rightarrow> u8 vm" where
  "collect_returns fr first count =
     bind_vm (try_vm (\<lambda>_. results_count count)) (\<lambda>returned.
     bind_vm (close_vm (fr_bottom fr)) (\<lambda>_.
     bind_vm (update_vm (truncate_stack (first + count))) (\<lambda>_.
     bind_vm (expect_vm (\<lambda>s. 0 < fr_bottom fr \<and> fr_bottom fr - 1 \<le> first \<and> first \<le> length (stack s))) (\<lambda>_.
     bind_vm (update_vm (\<lambda>s. s\<lparr> stack := take (fr_bottom fr - 1) (stack s) @ drop first (stack s) \<rparr>)) (\<lambda>_.
     return_vm returned)))))"

definition pending_call_results :: "frame \<Rightarrow> ret_count option" where
  "pending_call_results fr =
     (if 0 < fr_ip fr \<and> fr_ip fr \<le> length (code (body (fr_bytecode fr)))
      then Some (call_results (code (body (fr_bytecode fr)) ! (fr_ip fr - 1))) else None)"

definition return_to_caller :: "nat \<Rightarrow> nat \<Rightarrow> unit vm" where
  "return_to_caller first count s =
     (case frames s of
        fr # caller # rest \<Rightarrow>
          bind_vm (collect_returns fr first count) (\<lambda>n.
          bind_vm pop_activation (\<lambda>_.
          bind_vm (update_vm pop_frame) (\<lambda>_.
          bind_vm (update_vm (\<lambda>s. s\<lparr> stack_bottom := fr_bottom caller \<rparr>)) (\<lambda>_.
            case pending_call_results caller of
              None \<Rightarrow> panic_vm
            | Some expected \<Rightarrow>
                bind_vm (finish_call expected n) (\<lambda>_.
                update_vm (\<lambda>s. case expected of
                                  RetFixed _ \<Rightarrow> s\<lparr> stack := vec_resize (fr_top caller) (stack s) \<rparr>
                                | RetAll \<Rightarrow> s)))))) s
      | _ \<Rightarrow> (Panicked, s))"

text \<open>The loop of \<open>unwind_invocation\<close> over the frames it still has to leave.\<close>

fun unwind_frames :: "frame list \<Rightarrow> unit vm" where
  "unwind_frames [] = return_vm ()"
| "unwind_frames (fr # frs) =
     bind_vm (close_vm (fr_bottom fr)) (\<lambda>_.
     bind_vm (update_vm (truncate_stack (fr_bottom fr))) (\<lambda>_.
     bind_vm pop_activation (\<lambda>_.
     bind_vm (update_vm pop_frame) (\<lambda>_.
     bind_vm (update_vm (\<lambda>s. case frs of [] \<Rightarrow> s | caller # _ \<Rightarrow> s\<lparr> stack_bottom := fr_bottom caller \<rparr>)) (\<lambda>_.
     unwind_frames frs)))))"

definition unwind_invocation :: "vm_error \<Rightarrow> nat \<Rightarrow> 'a vm" where
  "unwind_invocation e old_stack_bottom =
     bind_vm (read_vm frames) (\<lambda>frs.
     bind_vm (unwind_frames frs) (\<lambda>_.
     bind_vm (update_vm (\<lambda>s. s\<lparr> stack_bottom := old_stack_bottom \<rparr>)) (\<lambda>_.
     fail_vm e)))"

text \<open>\<open>fail_call\<close>: the operands of a failed call are removed.\<close>

definition fail_call :: "vm_error \<Rightarrow> nat \<Rightarrow> nat \<Rightarrow> 'a vm" where
  "fail_call e idx old_stack_bottom s =
     (Failed e, (truncate_stack idx s)\<lparr> stack_bottom := old_stack_bottom \<rparr>)"

end
