(* ===== verification/Floats.thy ===== *)
theory Floats
  imports Vm_State
begin

text \<open>
  The comparisons of doubles that the VM's control flow depends on, on their bit patterns: the
  order of IEEE 754 with unordered NaNs and equal zeros, negation, the equality and the ordering
  of Lua values (\<open>vm/lua_val.rs\<close>, \<open>vm/registers.rs\<close>) and the continuation test of numeric loops
  (\<open>vm/eval_control.rs\<close>). The order of two strings is an argument, the heap holding their bytes.

  Shown here: the six comparisons on numbers and the exact condition under which a loop continues.
\<close>

section \<open>Doubles\<close>

definition f64_magnitude :: "u64 \<Rightarrow> u64" where
  "f64_magnitude x = x AND 0x7FFFFFFFFFFFFFFF"

definition f64_is_nan :: "u64 \<Rightarrow> bool" where
  "f64_is_nan x \<longleftrightarrow> f64_magnitude x > 0x7FF0000000000000"

text \<open>The position of a number in the order of the doubles; both zeros are at 0.\<close>

definition f64_key :: "u64 \<Rightarrow> int" where
  "f64_key x = (if bit x 63 then - uint (f64_magnitude x) else uint (f64_magnitude x))"

definition f64_partial_cmp :: "u64 \<Rightarrow> u64 \<Rightarrow> cmp_ordering option" where
  "f64_partial_cmp x y =
     (if f64_is_nan x \<or> f64_is_nan y then None
      else Some (if f64_key x < f64_key y then OrderLess
                 else if f64_key x = f64_key y then OrderEqual else OrderGreater))"

definition f64_eq :: "u64 \<Rightarrow> u64 \<Rightarrow> bool" where
  "f64_eq x y \<longleftrightarrow> f64_partial_cmp x y = Some OrderEqual"

definition f64_lt :: "u64 \<Rightarrow> u64 \<Rightarrow> bool" where
  "f64_lt x y \<longleftrightarrow> f64_partial_cmp x y = Some OrderLess"

definition f64_le :: "u64 \<Rightarrow> u64 \<Rightarrow> bool" where
  "f64_le x y \<longleftrightarrow> f64_partial_cmp x y \<in> {Some OrderLess, Some OrderEqual}"

definition f64_neg :: "u64 \<Rightarrow> u64" where
  "f64_neg x = x XOR push_bit 63 1"

section \<open>Values\<close>

fun val_eq :: "val \<Rightarrow> val \<Rightarrow> bool" where
  "val_eq VNil VNil = True"
| "val_eq (VBool a) (VBool b) = (a = b)"
| "val_eq (VNum a) (VNum b) = f64_eq a b"
| "val_eq (VRustFn a) (VRustFn b) = (a = b)"
| "val_eq (VObj a) (VObj b) = (a = b)"
| "val_eq (VStr a) (VStr b) = (a = b)"
| "val_eq _ _ = False"

definition compare_vals ::
  "(nat \<Rightarrow> nat \<Rightarrow> cmp_ordering) \<Rightarrow> compare_op \<Rightarrow> val \<Rightarrow> val \<Rightarrow> vm_error + bool" where
  "compare_vals string_cmp op lhs rhs =
     (case compare_ordering op of
        None \<Rightarrow> Inr (val_eq lhs rhs = (op = CmpEq))
      | Some (target, negate) \<Rightarrow>
          and_then
            (case (lhs, rhs) of
               (VNum x, VNum y) \<Rightarrow> Inr (map_option (\<lambda>cmp. cmp = target) (f64_partial_cmp x y))
             | (VStr a, VStr b) \<Rightarrow> Inr (Some (string_cmp a b = target))
             | _ \<Rightarrow> Inl (ComparisonOfTypes lhs rhs))
            (\<lambda>result. Inr (case result of Some r \<Rightarrow> (if negate then \<not> r else r) | None \<Rightarrow> False)))"

section \<open>Numeric loops\<close>

definition check_numeric_for_condition :: "u64 \<Rightarrow> u64 \<Rightarrow> u64 \<Rightarrow> bool" where
  "check_numeric_for_condition var bound step =
     (if f64_eq step 0 then False
      else if f64_lt 0 step then f64_le var bound
      else f64_le bound var)"

lemma f64_cmp_swap:
  "f64_partial_cmp y x = map_option (\<lambda>c. case c of OrderLess \<Rightarrow> OrderGreater | OrderEqual \<Rightarrow> OrderEqual
     | OrderGreater \<Rightarrow> OrderLess) (f64_partial_cmp x y)"
  by (auto simp: f64_partial_cmp_def)

lemma f64_zeros: "f64_eq (push_bit 63 1) 0" "f64_eq 0 (push_bit 63 1)"
  by (simp_all add: f64_eq_def f64_partial_cmp_def f64_is_nan_def f64_key_def f64_magnitude_def)

text \<open>
  C38 (vm/registers.rs, compare_vals; vm/lua_val.rs): on two numbers the six comparisons are those
  of Lua: \<open>a <= b\<close> is the negation of \<open>a > b\<close> exactly for ordered numbers, every comparison with a NaN
  but inequality is false, \<open>>\<close> and \<open>>=\<close> are \<open><\<close> and \<open><=\<close> with the operands exchanged, and no
  comparison of numbers fails.
\<close>

theorem number_comparisons:
  "compare_vals sc CmpLt (VNum x) (VNum y) = Inr (f64_lt x y)
   \<and> compare_vals sc CmpLe (VNum x) (VNum y) = Inr (f64_le x y)
   \<and> compare_vals sc CmpGt (VNum x) (VNum y) = Inr (f64_lt y x)
   \<and> compare_vals sc CmpGe (VNum x) (VNum y) = Inr (f64_le y x)
   \<and> compare_vals sc CmpEq (VNum x) (VNum y) = Inr (f64_eq x y)
   \<and> compare_vals sc CmpNe (VNum x) (VNum y) = Inr (\<not> f64_eq x y)
   \<and> (f64_is_nan x \<or> f64_is_nan y \<or> (f64_le x y \<longleftrightarrow> \<not> f64_lt y x))
   \<and> \<not> (f64_is_nan x \<and> (f64_lt x y \<or> f64_le x y \<or> f64_eq x y))"
  by (auto simp: compare_vals_def f64_lt_def f64_le_def f64_eq_def f64_partial_cmp_def)

text \<open>
  C39 (vm/eval_control.rs, check_numeric_for_condition): a numeric loop does not run when the
  variable or the limit is NaN or the step is a zero of either sign; otherwise it runs while the
  variable has not passed the limit, in the direction of the step. A NaN step counts as negative.
\<close>

theorem numeric_for_condition:
  "check_numeric_for_condition var bound step \<longleftrightarrow>
     \<not> f64_is_nan var \<and> \<not> f64_is_nan bound
     \<and> (if f64_is_nan step then f64_key bound \<le> f64_key var
        else if f64_key step = 0 then False
        else if 0 < f64_key step then f64_key var \<le> f64_key bound
        else f64_key bound \<le> f64_key var)"
proof -
  have "\<not> f64_is_nan 0" "f64_key 0 = 0"
    by (simp_all add: f64_is_nan_def f64_key_def f64_magnitude_def)
  then show ?thesis
    by (auto simp: check_numeric_for_condition_def f64_eq_def f64_lt_def f64_le_def f64_partial_cmp_def)
qed

end
