(* ===== verification/Dispatch.thy ===== *)
theory Dispatch
  imports Calls Floats Verify
begin

text \<open>
  The dispatch loop (\<open>vm/frame.rs\<close>), the instruction handlers (\<open>vm/registers.rs\<close>,
  \<open>vm/eval_control.rs\<close>) and the driver of an invocation (\<open>vm/eval.rs\<close>). Every arm of \<open>run_frame\<close> is
  modelled with its cost, its register accesses (out of range is a panic), its jumps and its
  calls; the heap operations in the middle of an arm are arguments (\<open>world\<close>). A handler that an arm
  calls, and a Lua function that Rust calls, runs in a nested invocation: the argument \<open>call\<close> of the
  arms, which \<open>call_unguarded\<close> ties to the loop itself. Fuel bounds the instructions of every loop
  and the nesting of invocations.

  The theorems about it are in the theories that follow.
\<close>

section \<open>Registers, pools and jumps\<close>

definition get_reg :: "nat \<Rightarrow> val vm" where
  "get_reg i s = (if i < length (stack s) then (Done (stack s ! i), s) else (Panicked, s))"

definition set_reg :: "nat \<Rightarrow> val \<Rightarrow> unit vm" where
  "set_reg i v s = (if i < length (stack s) then (Done (), s\<lparr> stack := (stack s)[i := v] \<rparr>) else (Panicked, s))"

text \<open>A slice of registers, and its \<open>fill(Val::Nil)\<close> or \<open>copy_from_slice\<close>.\<close>

definition get_regs :: "nat \<Rightarrow> nat \<Rightarrow> val list vm" where
  "get_regs i n s = (if i + n \<le> length (stack s) then (Done (take n (drop i (stack s))), s) else (Panicked, s))"

definition set_regs :: "nat \<Rightarrow> val list \<Rightarrow> unit vm" where
  "set_regs i vs s =
     (if i + length vs \<le> length (stack s)
      then (Done (), s\<lparr> stack := take i (stack s) @ vs @ drop (i + length vs) (stack s) \<rparr>)
      else (Panicked, s))"

definition nth_vm :: "'a list \<Rightarrow> nat \<Rightarrow> 'a vm" where
  "nth_vm xs i s = (if i < length xs then (Done (xs ! i), s) else (Panicked, s))"

definition get_number_constant :: "frame \<Rightarrow> u16 \<Rightarrow> u64 vm" where
  "get_number_constant fr i = nth_vm (number_literals (body (fr_bytecode fr))) (unat i)"

definition frame_literal :: "frame \<Rightarrow> u16 \<Rightarrow> val vm" where
  "frame_literal fr i = nth_vm (fr_literals fr) (unat i)"

text \<open>Operations of the world, lifted.\<close>

definition world_vm :: "(vm_state \<Rightarrow> (vm_error + 'a) \<times> vm_state) \<Rightarrow> 'a vm" where
  "world_vm f s = (case f s of (Inl e, s') \<Rightarrow> (Failed e, s') | (Inr x, s') \<Rightarrow> (Done x, s'))"

definition set_ip :: "nat \<Rightarrow> vm_state \<Rightarrow> vm_state" where
  "set_ip ip s = (case frames s of [] \<Rightarrow> s | f # fs \<Rightarrow> s\<lparr> frames := f\<lparr> fr_ip := ip \<rparr> # fs \<rparr>)"

definition jumped :: "nat \<Rightarrow> int \<Rightarrow> nat option" where
  "jumped ip offset =
     (if offset \<ge> 0 then Some (ip + nat offset)
      else if nat (- offset) \<le> ip then Some (ip - nat (- offset)) else None)"

definition jump_to :: "nat \<Rightarrow> int \<Rightarrow> unit vm" where
  "jump_to ip offset =
     (case jumped ip offset of None \<Rightarrow> panic_vm | Some target \<Rightarrow> update_vm (set_ip target))"

definition branch :: "nat \<Rightarrow> int \<Rightarrow> unit vm" where
  "branch ip offset =
     bind_vm (if offset < 0 then try_vm poll_interrupt else return_vm ()) (\<lambda>_. jump_to ip offset)"

section \<open>Cost\<close>

definition cost_vm :: "(cost_state \<Rightarrow> u64 \<Rightarrow> (cost_error + unit) \<times> cost_state \<times> u64) \<Rightarrow> unit vm" where
  "cost_vm f s =
     (case f (vm_cost s) (pending s) of
        (Inl e, c, l) \<Rightarrow> (Failed (VmBudgetExceeded e), s\<lparr> vm_cost := c, pending := l \<rparr>)
      | (Inr _, c, l) \<Rightarrow> (Done (), s\<lparr> vm_cost := c, pending := l \<rparr>))"

definition opcode_cost :: "u8 \<Rightarrow> unit vm" where
  "opcode_cost op = cost_vm (fixed_cost COST_CHECK_INTERVAL (fixed_charge op))"

definition set_list_cost :: "nat \<Rightarrow> unit vm" where
  "set_list_cost count =
     cost_vm (\<lambda>c l. let units = cost_of c SET_LIST_ELEMENT_CHARGE (of_nat count)
                    in if units \<noteq> 0 then add_cost COST_CHECK_INTERVAL units c l else (Inr (), c, l))"

section \<open>Register instructions\<close>

text \<open>An upvalue of the running closure.\<close>

definition upvalue_ref :: "frame \<Rightarrow> u16 \<Rightarrow> nat vm" where
  "upvalue_ref fr i =
     bind_vm (nth_vm (fr_upvalues fr) (unat i)) (\<lambda>r.
     bind_vm (expect_vm (\<lambda>s. r < length (pool_slots (upvalue_pool s))
                \<and> (case pool_get (upvalue_pool s) r of UvOpen idx \<Rightarrow> idx < length (stack s) | UvClosed _ \<Rightarrow> True)))
       (\<lambda>_. return_vm r))"

definition arith_rr :: "world \<Rightarrow> arith_fn \<Rightarrow> nat \<Rightarrow> val \<Rightarrow> val \<Rightarrow> unit vm" where
  "arith_rr W f dst lhs rhs =
     (case (as_num lhs, as_num rhs) of
        (Some x, Some y) \<Rightarrow> set_reg dst (VNum (w_arith W f x y))
      | _ \<Rightarrow> fail_vm ArithmeticOnNonNumber)"

definition arith_arm :: "world \<Rightarrow> frame \<Rightarrow> instr \<Rightarrow> nat \<Rightarrow> arith_fn \<Rightarrow> arith_operands \<Rightarrow> unit vm" where
  "arith_arm W fr inst base f operands =
     bind_vm (case operands of
                ConstReg \<Rightarrow> bind_vm (get_number_constant fr (field_b inst)) (\<lambda>x. return_vm (VNum x))
              | _ \<Rightarrow> get_reg (base + unat (field_b inst))) (\<lambda>lhs.
     bind_vm (case operands of
                RegConst \<Rightarrow> bind_vm (get_number_constant fr (field_c inst)) (\<lambda>y. return_vm (VNum y))
              | _ \<Rightarrow> get_reg (base + unat (field_c inst))) (\<lambda>rhs.
     arith_rr W f (base + unat (field_a inst)) lhs rhs))"

definition compare_arm :: "world \<Rightarrow> compare_op \<Rightarrow> val \<Rightarrow> val \<Rightarrow> bool vm" where
  "compare_arm W op lhs rhs = try_vm (\<lambda>s. compare_vals (\<lambda>a b. w_string_cmp W a b s) op lhs rhs)"

section \<open>Table and length instructions\<close>

text \<open>\<open>pop_into\<close>: a handler's one result goes from the top into a register.\<close>

definition pop_into :: "nat \<Rightarrow> unit vm" where
  "pop_into dst =
     bind_vm (expect_vm (\<lambda>s. stack s \<noteq> [])) (\<lambda>_.
     bind_vm (read_vm (\<lambda>s. last (stack s))) (\<lambda>v.
     bind_vm (update_vm (\<lambda>s. s\<lparr> stack := butlast (stack s) \<rparr>)) (\<lambda>_.
     set_reg dst v)))"

text \<open>The units of a resolution are returned whatever the outcome of the handler's call.\<close>

definition releasing :: "nat \<Rightarrow> unit vm \<Rightarrow> unit vm" where
  "releasing units m s =
     (case m s of
        (Panicked, s') \<Rightarrow> (Panicked, s')
      | (Timeout, s') \<Rightarrow> (Timeout, s')
      | (r, s') \<Rightarrow> bind_vm (release_chain_charges units) (\<lambda>_ s''. (r, s'')) s')"

definition index_call :: "(u8 \<Rightarrow> ret_count \<Rightarrow> unit vm) \<Rightarrow> nat \<Rightarrow> nat \<Rightarrow> nat \<Rightarrow> unit vm" where
  "index_call call dst units ip =
     bind_vm (update_vm (record_call_site ip)) (\<lambda>_.
     bind_vm (releasing units (call 2 (RetFixed 1))) (\<lambda>_.
     pop_into dst))"

definition index_arm ::
  "world \<Rightarrow> (u8 \<Rightarrow> ret_count \<Rightarrow> unit vm) \<Rightarrow> instr \<Rightarrow> nat \<Rightarrow> nat \<Rightarrow> val \<Rightarrow> val \<Rightarrow> unit vm" where
  "index_arm W call inst ip dst receiver key =
     bind_vm (world_vm (w_index W inst receiver key)) (\<lambda>r.
       case r of IndexValue v \<Rightarrow> set_reg dst v | IndexCall units \<Rightarrow> index_call call dst units ip)"

definition newindex_call :: "(u8 \<Rightarrow> ret_count \<Rightarrow> unit vm) \<Rightarrow> nat \<Rightarrow> nat \<Rightarrow> unit vm" where
  "newindex_call call units ip =
     bind_vm (update_vm (record_call_site ip)) (\<lambda>_. releasing units (call 3 (RetFixed 0)))"

definition newindex_arm ::
  "world \<Rightarrow> (u8 \<Rightarrow> ret_count \<Rightarrow> unit vm) \<Rightarrow> instr \<Rightarrow> nat \<Rightarrow> val \<Rightarrow> val \<Rightarrow> val \<Rightarrow> unit vm" where
  "newindex_arm W call inst ip receiver key v =
     bind_vm (world_vm (w_newindex W inst receiver key v)) (\<lambda>r.
       case r of None \<Rightarrow> return_vm () | Some units \<Rightarrow> newindex_call call units ip)"

definition len_call :: "(u8 \<Rightarrow> ret_count \<Rightarrow> unit vm) \<Rightarrow> nat \<Rightarrow> nat \<Rightarrow> unit vm" where
  "len_call call dst ip =
     bind_vm (update_vm (record_call_site ip)) (\<lambda>_.
     bind_vm (call 2 (RetFixed 1)) (\<lambda>_. pop_into dst))"

definition reg_len :: "world \<Rightarrow> (u8 \<Rightarrow> ret_count \<Rightarrow> unit vm) \<Rightarrow> nat \<Rightarrow> nat \<Rightarrow> val \<Rightarrow> unit vm" where
  "reg_len W call ip dst v =
     bind_vm (world_vm (w_length W v)) (\<lambda>r.
       case r of Some len \<Rightarrow> set_reg dst len | None \<Rightarrow> len_call call dst ip)"

definition set_list_arm :: "world \<Rightarrow> frame \<Rightarrow> instr \<Rightarrow> nat \<Rightarrow> unit vm" where
  "set_list_arm W fr inst ra =
     bind_vm (case set_list_count inst of
                Some n \<Rightarrow> return_vm (unat n)
              | None \<Rightarrow> bind_vm (expect_vm (\<lambda>s. ra + 1 \<le> length (stack s))) (\<lambda>_.
                        read_vm (\<lambda>s. length (stack s) - (ra + 1)))) (\<lambda>count.
     bind_vm (set_list_cost count) (\<lambda>_.
     bind_vm (get_reg ra) (\<lambda>table.
     bind_vm (get_regs (ra + 1) count) (\<lambda>vs.
     bind_vm (world_vm (w_store W inst (table # vs))) (\<lambda>_.
       if set_list_count inst = None
       then update_vm (\<lambda>s. s\<lparr> stack := vec_resize (fr_top fr) (stack s) \<rparr>)
       else return_vm ())))))"

section \<open>Loops\<close>

definition instr_for_prep :: "nat \<Rightarrow> nat \<Rightarrow> int \<Rightarrow> unit vm" where
  "instr_for_prep slot ip body_len =
     bind_vm (get_reg slot) (\<lambda>start_val.
     bind_vm (get_reg (slot + 1)) (\<lambda>end_val.
     bind_vm (get_reg (slot + 2)) (\<lambda>step_val.
       case as_num step_val of None \<Rightarrow> fail_vm NumericForStep
       | Some step \<Rightarrow>
         (case as_num end_val of None \<Rightarrow> fail_vm NumericForLimit
          | Some bound \<Rightarrow>
            (case as_num start_val of None \<Rightarrow> fail_vm NumericForInitialValue
             | Some start \<Rightarrow>
                 if check_numeric_for_condition start bound step
                 then set_regs slot [VNum start, VNum bound, VNum step, VNum start]
                 else jump_to ip body_len)))))"

text \<open>\<open>w_arith W LuaAdd\<close> is the addition of doubles, \<open>var += step\<close>.\<close>

definition instr_for_loop :: "world \<Rightarrow> nat \<Rightarrow> nat \<Rightarrow> int \<Rightarrow> unit vm" where
  "instr_for_loop W slot ip offset =
     bind_vm (get_reg slot) (\<lambda>a. bind_vm (get_reg (slot + 1)) (\<lambda>b. bind_vm (get_reg (slot + 2)) (\<lambda>c.
       case (as_num a, as_num b, as_num c) of
         (Some v, Some bound, Some step) \<Rightarrow>
           (let var = w_arith W LuaAdd v step in
            if check_numeric_for_condition var bound step
            then bind_vm (branch ip offset) (\<lambda>_.
                 bind_vm (set_reg slot (VNum var)) (\<lambda>_. set_reg (slot + 3) (VNum var)))
            else return_vm ())
       | _ \<Rightarrow> fail_vm NumericForControlsNotNumeric)))"

text \<open>The loop variables of a generic loop: surplus results are dropped, missing ones are nil.\<close>

definition fit_results :: "nat \<Rightarrow> val list \<Rightarrow> val list" where
  "fit_results n vs = take n vs @ replicate (n - length vs) VNil"

definition take_tfor_results :: "nat \<Rightarrow> u8 \<Rightarrow> nat \<Rightarrow> nat \<Rightarrow> unit vm" where
  "take_tfor_results base num_vars call_base_idx returned =
     bind_vm (get_regs call_base_idx (min (unat num_vars) returned)) (\<lambda>vs.
     bind_vm (set_regs (base + 3) (fit_results (unat num_vars) vs)) (\<lambda>_.
     update_vm (truncate_stack call_base_idx)))"

definition write_tfor_results :: "nat \<Rightarrow> u8 \<Rightarrow> val \<Rightarrow> val option \<Rightarrow> unit vm" where
  "write_tfor_results base num_vars first second =
     set_regs (base + 3) (fit_results (unat num_vars) [first, case second of Some v \<Rightarrow> v | None \<Rightarrow> VNil])"

definition push_window :: "val list \<Rightarrow> unit vm" where
  "push_window vs =
     bind_vm (try_vm (check_stack_space (length vs))) (\<lambda>_.
     update_vm (\<lambda>s. s\<lparr> stack := stack s @ vs \<rparr>))"

definition instr_tfor_call_rust_fn :: "world \<Rightarrow> nat \<Rightarrow> nat \<Rightarrow> val \<Rightarrow> val \<Rightarrow> u8 \<Rightarrow> unit vm" where
  "instr_tfor_call_rust_fn W f base state control num_vars =
     bind_vm (read_vm (\<lambda>s. length (stack s))) (\<lambda>call_base_idx.
     bind_vm (push_window [state, control]) (\<lambda>_.
     bind_vm (invoke_rust_fn W f call_base_idx) (\<lambda>n.
     take_tfor_results base num_vars call_base_idx (unat n))))"

definition instr_tfor_call :: "world \<Rightarrow> (u8 \<Rightarrow> ret_count \<Rightarrow> unit vm) \<Rightarrow> nat \<Rightarrow> u8 \<Rightarrow> unit vm" where
  "instr_tfor_call W call base num_vars =
     bind_vm (get_reg base) (\<lambda>iter. bind_vm (get_reg (base + 1)) (\<lambda>state. bind_vm (get_reg (base + 2)) (\<lambda>control.
       case as_rust_fn iter of
         Some f \<Rightarrow>
           bind_vm (read_vm (w_iterate W f state control)) (\<lambda>r.
             case r of
               Some (first, second) \<Rightarrow> write_tfor_results base num_vars first second
             | None \<Rightarrow> instr_tfor_call_rust_fn W f base state control num_vars)
       | None \<Rightarrow>
           bind_vm (read_vm (\<lambda>s. length (stack s))) (\<lambda>call_base_idx.
           bind_vm (push_window [iter, state, control]) (\<lambda>_.
           bind_vm (call 2 RetAll) (\<lambda>_.
           bind_vm (expect_vm (\<lambda>s. call_base_idx \<le> length (stack s))) (\<lambda>_.
           bind_vm (read_vm (\<lambda>s. length (stack s) - call_base_idx)) (\<lambda>returned.
           take_tfor_results base num_vars call_base_idx returned))))))))"

definition instr_tfor_loop :: "nat \<Rightarrow> nat \<Rightarrow> int \<Rightarrow> unit vm" where
  "instr_tfor_loop base ip offset =
     bind_vm (get_reg (base + 3)) (\<lambda>v.
       if v = VNil then jump_to ip offset else set_reg (base + 2) v)"

section \<open>Closures, varargs, calls and returns\<close>

definition capture_one :: "frame \<Rightarrow> upvalue_desc \<Rightarrow> nat vm" where
  "capture_one fr d =
     (case d of
        UpLocal i \<Rightarrow> (\<lambda>s. case find_or_create_upvalue (fr_bottom fr + unat i) s of (r, s') \<Rightarrow> (Done r, s'))
      | UpUpvalue i \<Rightarrow> nth_vm (fr_upvalues fr) (unat i))"

fun capture_vm :: "frame \<Rightarrow> upvalue_desc list \<Rightarrow> nat list vm" where
  "capture_vm fr [] = return_vm []"
| "capture_vm fr (d # ds) =
     bind_vm (capture_one fr d) (\<lambda>r. bind_vm (capture_vm fr ds) (\<lambda>rs. return_vm (r # rs)))"

definition reg_closure :: "world \<Rightarrow> frame \<Rightarrow> nat \<Rightarrow> u16 \<Rightarrow> unit vm" where
  "reg_closure W fr dst i =
     bind_vm (nth_vm (nested (fr_bytecode fr)) (unat i)) (\<lambda>bc.
     bind_vm (world_vm (w_runtime W bc)) (\<lambda>literals.
     bind_vm (capture_vm fr (upvalues (body bc))) (\<lambda>refs.
     bind_vm (\<lambda>s. case w_alloc_closure W \<lparr> cl_bytecode = bc, cl_literals = literals, cl_upvalues = refs \<rparr> s of
                    (p, s') \<Rightarrow> (Done p, s')) (\<lambda>p.
     set_reg dst (VObj p)))))"

definition reg_vararg :: "nat \<Rightarrow> ret_count \<Rightarrow> unit vm" where
  "reg_vararg dst count s =
     (case call_stack s of
        [] \<Rightarrow> (Panicked, s)
      | ci # _ \<Rightarrow>
          if \<not> ci_vararg_start ci \<le> length (vararg_stack s) then (Panicked, s)
          else
            (let varargs = drop (ci_vararg_start ci) (vararg_stack s) in
             case count of
               RetFixed n \<Rightarrow> set_regs dst (fit_results (unat n) varargs) s
             | RetAll \<Rightarrow>
                 bind_vm (try_vm (check_window dst)) (\<lambda>_.
                 bind_vm (try_vm (\<lambda>s. check_stack_space (length varargs - (length (stack s) - dst)) s)) (\<lambda>_.
                 update_vm (\<lambda>s. s\<lparr> stack := take dst (stack s) @ varargs \<rparr>))) s))"

datatype leave = LeaveCall | LeaveTailCall | LeaveReturn nat nat

definition call_arm :: "world \<Rightarrow> frame \<Rightarrow> instr \<Rightarrow> nat \<Rightarrow> nat \<Rightarrow> leave option vm" where
  "call_arm W fr inst ra ip =
     bind_vm (update_vm (record_call_site ip)) (\<lambda>_.
     bind_vm flush_pending (\<lambda>_.
     bind_vm (call_window ra (call_args inst)) (\<lambda>args.
     bind_vm (call_from_lua W args (call_results inst) (call_is_method inst)) (\<lambda>lua.
       if lua then return_vm (Some LeaveCall)
       else case call_results inst of
              RetFixed _ \<Rightarrow> bind_vm (update_vm (\<lambda>s. s\<lparr> stack := vec_resize (fr_top fr) (stack s) \<rparr>)) (\<lambda>_. return_vm None)
            | RetAll \<Rightarrow> return_vm None))))"

definition return_arm :: "instr \<Rightarrow> nat \<Rightarrow> leave option vm" where
  "return_arm inst ra =
     bind_vm flush_pending (\<lambda>_.
       case return_count inst of
         RetFixed n \<Rightarrow> return_vm (Some (LeaveReturn ra (unat n)))
       | RetAll \<Rightarrow> bind_vm (expect_vm (\<lambda>s. ra \<le> length (stack s))) (\<lambda>_.
                   read_vm (\<lambda>s. Some (LeaveReturn ra (length (stack s) - ra)))))"

definition tail_call_arm :: "world \<Rightarrow> instr \<Rightarrow> nat \<Rightarrow> nat \<Rightarrow> nat \<Rightarrow> leave option vm" where
  "tail_call_arm W inst base ra ip =
     bind_vm (tail_call_from_lua W inst ra ip) (\<lambda>r.
       case r of
         Some count \<Rightarrow> return_vm (Some (LeaveReturn (base - 1) (unat count)))
       | None \<Rightarrow> return_vm (Some LeaveTailCall))"

section \<open>The arms of the dispatch loop\<close>

text \<open>An arm that goes on with the next instruction.\<close>

definition continue_vm :: "unit vm \<Rightarrow> leave option vm" where
  "continue_vm m = bind_vm m (\<lambda>_. return_vm None)"

text \<open>The arms for moves, constants, upvalues, globals and new tables.\<close>

definition move_arm :: "world \<Rightarrow> frame \<Rightarrow> instr \<Rightarrow> unit vm" where
  "move_arm W fr inst =
     (let base = fr_bottom fr; ra = base + unat (field_a inst); rb = base + unat (field_b inst); op = opcode inst
      in if op = OP_MOVE then bind_vm (get_reg rb) (set_reg ra)
         else if op = OP_LOAD_NIL then set_regs ra (replicate (unat (field_b inst)) VNil)
         else if op = OP_LOAD_BOOL then set_reg ra (VBool (field_b inst \<noteq> 0))
         else if op = OP_LOAD_NUM then bind_vm (get_number_constant fr (field_b inst)) (\<lambda>n. set_reg ra (VNum n))
         else if op = OP_LOAD_STR then bind_vm (frame_literal fr (field_b inst)) (set_reg ra)
         else if op = OP_GET_UPVAL
         then bind_vm (upvalue_ref fr (field_b inst)) (\<lambda>r. bind_vm (read_vm (upvalue_value r)) (set_reg ra))
         else if op = OP_SET_UPVAL
         then bind_vm (get_reg ra) (\<lambda>v. bind_vm (upvalue_ref fr (field_b inst)) (\<lambda>r. update_vm (set_upvalue_value r v)))
         else if op = OP_CLOSE then close_vm ra
         else if op = OP_GET_GLOBAL
         then bind_vm (frame_literal fr (field_b inst)) (\<lambda>k. bind_vm (world_vm (w_value W inst [k])) (set_reg ra))
         else if op = OP_SET_GLOBAL
         then bind_vm (get_reg ra) (\<lambda>v. bind_vm (frame_literal fr (field_b inst)) (\<lambda>k. world_vm (w_store W inst [k, v])))
         else if op = OP_GET_BUILTIN then bind_vm (world_vm (w_value W inst [])) (set_reg ra)
         else if op = OP_SET_BUILTIN then bind_vm (get_reg ra) (\<lambda>v. world_vm (w_store W inst [v]))
         else if op \<in> {OP_NEW_TABLE, OP_NEW_TABLE_PRESIZED} then bind_vm (world_vm (w_value W inst [])) (set_reg ra)
         else if op = OP_NEW_TABLE_TEMPLATE
         then bind_vm (nth_vm (table_templates (body (fr_bytecode fr))) (unat (field_b inst))) (\<lambda>_.
              bind_vm (world_vm (w_value W inst (fr_literals fr))) (set_reg ra))
         else panic_vm)"

text \<open>The arms for table reads and writes.\<close>

definition table_arm ::
  "world \<Rightarrow> (u8 \<Rightarrow> ret_count \<Rightarrow> unit vm) \<Rightarrow> frame \<Rightarrow> instr \<Rightarrow> nat \<Rightarrow> unit vm" where
  "table_arm W call fr inst ip =
     (let base = fr_bottom fr; ra = base + unat (field_a inst); rb = base + unat (field_b inst);
          rc = base + unat (field_c inst); op = opcode inst
      in if op = OP_GET_FIELD
         then bind_vm (get_reg rb) (\<lambda>t. bind_vm (frame_literal fr (field_c inst)) (\<lambda>k. index_arm W call inst ip ra t k))
         else if op = OP_SELF
         then bind_vm (get_reg rb) (\<lambda>t. bind_vm (set_reg (ra + 1) t) (\<lambda>_.
              bind_vm (frame_literal fr (field_c inst)) (\<lambda>k. index_arm W call inst ip ra t k)))
         else if op = OP_GET_TABLE
         then bind_vm (get_reg rb) (\<lambda>t. bind_vm (get_reg rc) (\<lambda>k. index_arm W call inst ip ra t k))
         else if op = OP_SET_FIELD
         then bind_vm (get_reg ra) (\<lambda>t. bind_vm (get_reg rc) (\<lambda>v.
              bind_vm (frame_literal fr (field_b inst)) (\<lambda>k. newindex_arm W call inst ip t k v)))
         else if op = OP_SET_TABLE
         then bind_vm (get_reg rb) (\<lambda>k. bind_vm (get_reg rc) (\<lambda>v. bind_vm (get_reg ra) (\<lambda>t.
              newindex_arm W call inst ip t k v)))
         else if op \<in> {OP_INIT_FIELD, OP_INIT_FIELD_PINNED}
         then bind_vm (frame_literal fr (field_b inst)) (\<lambda>k. bind_vm (get_reg rc) (\<lambda>v. bind_vm (get_reg ra) (\<lambda>t.
              world_vm (w_store W inst [t, k, v]))))
         else if op = OP_INIT_INDEX
         then bind_vm (get_reg rb) (\<lambda>k. bind_vm (get_reg rc) (\<lambda>v. bind_vm (get_reg ra) (\<lambda>t.
              world_vm (w_store W inst [t, k, v]))))
         else if op = OP_SET_LIST then set_list_arm W fr inst ra
         else panic_vm)"

text \<open>The arms for operators, jumps and loops.\<close>

definition operator_arm ::
  "world \<Rightarrow> (u8 \<Rightarrow> ret_count \<Rightarrow> unit vm) \<Rightarrow> frame \<Rightarrow> instr \<Rightarrow> nat \<Rightarrow> unit vm" where
  "operator_arm W call fr inst ip =
     (let base = fr_bottom fr; ra = base + unat (field_a inst); rb = base + unat (field_b inst);
          rc = base + unat (field_c inst); op = opcode inst; offset = sint (sj inst)
      in if op = OP_UNM
         then bind_vm (get_reg rb) (\<lambda>v. case as_num v of
                Some n \<Rightarrow> set_reg ra (VNum (f64_neg n)) | None \<Rightarrow> fail_vm ArithmeticOnNonNumber)
         else if op = OP_NOT then bind_vm (get_reg rb) (\<lambda>v. set_reg ra (VBool (\<not> truthy v)))
         else if op = OP_LEN then bind_vm (get_reg rb) (reg_len W call ip ra)
         else if op = OP_CONCAT
         then bind_vm (get_regs rb (unat (field_c inst))) (\<lambda>vs. bind_vm (world_vm (w_value W inst vs)) (set_reg ra))
         else if op \<in> {OP_LT, OP_LE, OP_GT, OP_GE, OP_EQ, OP_NE}
         then (case from_value_opcode op of
                 None \<Rightarrow> panic_vm
               | Some cmp \<Rightarrow> bind_vm (get_reg rb) (\<lambda>l. bind_vm (get_reg rc) (\<lambda>r.
                               bind_vm (compare_arm W cmp l r) (\<lambda>b. set_reg ra (VBool b)))))
         else if op = OP_JMP then branch ip offset
         else if op \<in> {OP_BR_LT, OP_BR_LE, OP_BR_GT, OP_BR_GE, OP_BR_EQ, OP_BR_NE}
         then (case from_branch_opcode op of
                 None \<Rightarrow> panic_vm
               | Some cmp \<Rightarrow> bind_vm (get_reg ra) (\<lambda>l. bind_vm (get_reg rb) (\<lambda>r.
                               bind_vm (compare_arm W cmp l r) (\<lambda>b. if \<not> b then branch ip offset else return_vm ()))))
         else if op = OP_TEST_FALSE
         then bind_vm (get_reg ra) (\<lambda>v. if \<not> truthy v then branch ip offset else return_vm ())
         else if op = OP_TEST_TRUE
         then bind_vm (get_reg ra) (\<lambda>v. if truthy v then branch ip offset else return_vm ())
         else if op = OP_FOR_PREP then instr_for_prep ra ip offset
         else if op = OP_FOR_LOOP then instr_for_loop W ra ip offset
         else if op = OP_TFOR_CALL
         then bind_vm (update_vm (record_call_site ip)) (\<lambda>_. bind_vm flush_pending (\<lambda>_.
              instr_tfor_call W call ra (ucast (field_b inst))))
         else if op = OP_TFOR_LOOP then instr_tfor_loop ra ip offset
         else if op = OP_CLOSURE then reg_closure W fr ra (field_b inst)
         else if op = OP_VARARG then reg_vararg ra (vararg_count inst)
         else panic_vm)"

definition arm ::
  "world \<Rightarrow> (u8 \<Rightarrow> ret_count \<Rightarrow> unit vm) \<Rightarrow> frame \<Rightarrow> instr \<Rightarrow> nat \<Rightarrow> leave option vm" where
  "arm W call fr inst ip =
     bind_vm (opcode_cost (opcode inst)) (\<lambda>_.
       let base = fr_bottom fr; ra = base + unat (field_a inst); op = opcode inst
       in if op = OP_CALL then call_arm W fr inst ra ip
          else if op = OP_RETURN then return_arm inst ra
          else if op = OP_TAILCALL then tail_call_arm W inst base ra ip
          else case arith_decode op of
                 Some (_, operands) \<Rightarrow>
                   (case arithmetic_op op of
                      Some f \<Rightarrow> continue_vm (arith_arm W fr inst base f operands)
                    | None \<Rightarrow> panic_vm)
               | None \<Rightarrow>
                   if op \<le> OP_NEW_TABLE_TEMPLATE then continue_vm (move_arm W fr inst)
                   else if op \<le> OP_SELF then continue_vm (table_arm W call fr inst ip)
                   else continue_vm (operator_arm W call fr inst ip))"

section \<open>The loop\<close>

text \<open>One round of \<open>eval_batched\<close>; \<^const>\<open>Some\<close> when the entry frame has returned.\<close>

definition leave_frame :: "leave \<Rightarrow> (nat \<times> nat) option vm" where
  "leave_frame l =
     (case l of
        LeaveCall \<Rightarrow> bind_vm push_frame (\<lambda>_. return_vm None)
      | LeaveTailCall \<Rightarrow> bind_vm replace_tail_caller (\<lambda>_. return_vm None)
      | LeaveReturn first count \<Rightarrow>
          bind_vm (read_vm frames) (\<lambda>frs.
            if length frs = 1 then return_vm (Some (first, count))
            else bind_vm (return_to_caller first count) (\<lambda>_. return_vm None)))"

definition exec_instr :: "world \<Rightarrow> (u8 \<Rightarrow> ret_count \<Rightarrow> unit vm) \<Rightarrow> (nat \<times> nat) option vm" where
  "exec_instr W call s =
     (case frames s of
        [] \<Rightarrow> (Panicked, s)
      | fr # _ \<Rightarrow>
          bind_vm (nth_vm (code (body (fr_bytecode fr))) (fr_ip fr)) (\<lambda>inst.
          bind_vm (update_vm (set_ip (fr_ip fr + 1))) (\<lambda>_.
          bind_vm (arm W call fr inst (fr_ip fr + 1)) (\<lambda>r.
            case r of None \<Rightarrow> return_vm None | Some l \<Rightarrow> leave_frame l))) s)"

fun eval_batched :: "world \<Rightarrow> (u8 \<Rightarrow> ret_count \<Rightarrow> unit vm) \<Rightarrow> nat \<Rightarrow> (nat \<times> nat) vm" where
  "eval_batched W call 0 s = (Timeout, s)"
| "eval_batched W call (Suc n) s =
     bind_vm (exec_instr W call) (\<lambda>r.
       case r of Some result \<Rightarrow> return_vm result | None \<Rightarrow> eval_batched W call n) s"

text \<open>\<open>Frame::run\<close>: an error that leaves the loop settles the pending cost.\<close>

definition frame_run :: "world \<Rightarrow> (u8 \<Rightarrow> ret_count \<Rightarrow> unit vm) \<Rightarrow> nat \<Rightarrow> (nat \<times> nat) vm" where
  "frame_run W call n s =
     (case eval_batched W call n (s\<lparr> pending := 0 \<rparr>) of
        (Failed e, s') \<Rightarrow>
          (Failed e, if pending s' > 0
                     then s'\<lparr> vm_cost := end_borrow (vm_cost s') (snd (consume (pending s') (meter (vm_cost s')))) \<rparr>
                     else s')
      | r \<Rightarrow> r)"

text \<open>The invocation's own frames and pending cost end with it.\<close>

definition restore_locals :: "vm_state \<Rightarrow> vm_state \<Rightarrow> vm_state" where
  "restore_locals outer s = s\<lparr> frames := frames outer, pending := pending outer \<rparr>"

definition run_invocation :: "world \<Rightarrow> (u8 \<Rightarrow> ret_count \<Rightarrow> unit vm) \<Rightarrow> nat \<Rightarrow> nat \<Rightarrow> u8 vm" where
  "run_invocation W call n old_stack_bottom outer =
     (case bind_vm (update_vm (\<lambda>s. s\<lparr> frames := [] \<rparr>)) (\<lambda>_. bind_vm push_frame (\<lambda>_. frame_run W call n)) outer of
        (Done (first, count), s) \<Rightarrow>
          (case frames s of
             [] \<Rightarrow> (Panicked, s)
           | fr # _ \<Rightarrow>
               (case collect_returns fr first count s of
                  (Done k, s1) \<Rightarrow>
                    bind_vm pop_activation (\<lambda>_.
                    bind_vm (update_vm (\<lambda>s. (restore_locals outer s)\<lparr> stack_bottom := old_stack_bottom \<rparr>)) (\<lambda>_.
                    return_vm k)) s1
                | (Failed e, s1) \<Rightarrow>
                    (case unwind_invocation e old_stack_bottom s1 of (r, s2) \<Rightarrow> (r, restore_locals outer s2))
                | (Panicked, s1) \<Rightarrow> (Panicked, s1)
                | (Timeout, s1) \<Rightarrow> (Timeout, s1)))
      | (Failed e, s) \<Rightarrow>
          (case unwind_invocation e old_stack_bottom s of (r, s2) \<Rightarrow> (r, restore_locals outer s2))
      | (Panicked, s) \<Rightarrow> (Panicked, s)
      | (Timeout, s) \<Rightarrow> (Timeout, s))"

text \<open>\<open>call_unguarded\<close> with fixed arguments. The fuel bounds the nesting and every loop.\<close>

fun call_unguarded :: "world \<Rightarrow> nat \<Rightarrow> u8 \<Rightarrow> ret_count \<Rightarrow> unit vm" where
  "call_unguarded W 0 num_args expected s = (Timeout, s)"
| "call_unguarded W (Suc n) num_args expected s =
     bind_vm (try_vm (call_base num_args)) (\<lambda>idx.
     bind_vm (read_vm stack_bottom) (\<lambda>old_stack_bottom s.
       case (if native_call_depth s \<ge> MAX_NATIVE_CALL_DEPTH
             then (Failed (NativeCallDepthExceeded (native_call_depth s) MAX_NATIVE_CALL_DEPTH), s)
             else
               (case bind_vm (begin_call W idx num_args old_stack_bottom SHAPE_HOST) (\<lambda>admitted.
                     bind_vm (case admitted of
                                Some k \<Rightarrow> return_vm k
                              | None \<Rightarrow> run_invocation W (call_unguarded W n) n old_stack_bottom) (\<lambda>actual.
                     finish_call expected actual)) (s\<lparr> native_call_depth := native_call_depth s + 1 \<rparr>) of
                  (Panicked, s1) \<Rightarrow> (Panicked, s1)
                | (Timeout, s1) \<Rightarrow> (Timeout, s1)
                | (r, s1) \<Rightarrow>
                    if native_call_depth s1 = 0 then (Panicked, s1)
                    else (r, s1\<lparr> native_call_depth := native_call_depth s1 - 1 \<rparr>))) of
         (Failed e, s1) \<Rightarrow> fail_call e idx old_stack_bottom s1
       | r \<Rightarrow> r)) s"

end
