(* ===== verification/Vm_Logic.thy ===== *)
theory Vm_Logic
  imports Dispatch Finalize
begin

text \<open>
  A program logic for the virtual machine and its invariant: weakest preconditions of the
  operations of \<open>vm_state\<close> (no panic, a condition on results, one on the states errors leave), the
  invariant between operations (verified functions, live upvalues, activation records that account
  for the depth counters and the vararg arena), what a callee leaves of its caller, the frames of
  an invocation, and the steps of a running frame that keep all of it.
\<close>

section \<open>Weakest preconditions\<close>

text \<open>
  The operation does not panic, what it returns satisfies \<open>Q\<close>, and the state it fails in satisfies
  \<open>E\<close>. The flag \<open>tm\<close> says whether it may run out of fuel.
\<close>

definition wp :: "bool \<Rightarrow> 'a vm \<Rightarrow> ('a \<Rightarrow> vm_state \<Rightarrow> bool) \<Rightarrow> (vm_state \<Rightarrow> bool) \<Rightarrow> vm_state \<Rightarrow> bool" where
  "wp tm m Q E s =
     (case m s of (Done x, s') \<Rightarrow> Q x s' | (Failed _, s') \<Rightarrow> E s' | (Panicked, _) \<Rightarrow> False | (Timeout, _) \<Rightarrow> tm)"

named_theorems wp_rules \<open>weakest preconditions of the basic operations\<close>

lemma wp_basic [wp_rules]:
  "wp tm (return_vm x) Q E s \<longleftrightarrow> Q x s"
  "wp tm (fail_vm e) Q E s \<longleftrightarrow> E s"
  "wp tm panic_vm Q E s \<longleftrightarrow> False"
  "wp tm (update_vm f) Q' E s \<longleftrightarrow> Q' () (f s)"
  "wp tm (read_vm g) Q E s \<longleftrightarrow> Q (g s) s"
  "wp tm (expect_vm P) Q' E s \<longleftrightarrow> P s \<and> Q' () s"
  by (simp_all add: wp_def return_vm_def fail_vm_def panic_vm_def update_vm_def read_vm_def expect_vm_def)

lemma wp_bind [wp_rules]: "wp tm (bind_vm m f) Q E s \<longleftrightarrow> wp tm m (\<lambda>x. wp tm (f x) Q E) E s"
  by (auto simp: wp_def bind_vm_def split: prod.split outcome.split)

lemma wp_try [wp_rules]: "wp tm (try_vm q) Q E s \<longleftrightarrow> (\<forall>x. q s = Inr x \<longrightarrow> Q x s) \<and> (\<forall>e. q s = Inl e \<longrightarrow> E s)"
  by (cases "q s") (simp_all add: wp_def try_vm_def)

lemma wp_apply [wp_rules]:
  "wp tm (apply_vm f) Q E s \<longleftrightarrow> (\<forall>s'. f s = Inr s' \<longrightarrow> Q () s') \<and> (\<forall>e. f s = Inl e \<longrightarrow> E s)"
  by (cases "f s") (simp_all add: wp_def apply_vm_def)

lemma wp_registers [wp_rules]:
  "wp tm (get_reg i) Q E s \<longleftrightarrow> i < length (stack s) \<and> Q (stack s ! i) s"
  "wp tm (set_reg i v) Q' E s \<longleftrightarrow> i < length (stack s) \<and> Q' () (s\<lparr>stack := (stack s)[i := v]\<rparr>)"
  "wp tm (get_regs i n) Q2 E s \<longleftrightarrow> i + n \<le> length (stack s) \<and> Q2 (take n (drop i (stack s))) s"
  "wp tm (set_regs i vs) Q' E s \<longleftrightarrow> i + length vs \<le> length (stack s)
     \<and> Q' () (s\<lparr>stack := take i (stack s) @ vs @ drop (i + length vs) (stack s)\<rparr>)"
  "wp tm (nth_vm xs j) Q3 E s \<longleftrightarrow> j < length xs \<and> Q3 (xs ! j) s"
  by (simp_all add: wp_def get_reg_def set_reg_def get_regs_def set_regs_def nth_vm_def)

lemma wp_world [wp_rules]:
  "wp tm (world_vm f) Q E s \<longleftrightarrow> (case f s of (Inl e, s') \<Rightarrow> E s' | (Inr x, s') \<Rightarrow> Q x s')"
  by (auto simp: wp_def world_vm_def split: prod.split sum.split)

lemma wp_mono:
  assumes "wp tm m Q E s" "\<And>x s'. Q x s' \<Longrightarrow> Q' x s'" "\<And>s'. E s' \<Longrightarrow> E' s'"
  shows "wp tm m Q' E' s"
  using assms by (auto simp: wp_def split: prod.splits outcome.splits)

lemma wp_cost [wp_rules]:
  "wp tm (cost_vm f) Q' E s \<longleftrightarrow>
     (case f (vm_cost s) (pending s) of (r, c, l) \<Rightarrow>
        (case r of Inl e \<Rightarrow> E (s\<lparr>vm_cost := c, pending := l\<rparr>) | Inr _ \<Rightarrow> Q' () (s\<lparr>vm_cost := c, pending := l\<rparr>)))"
  by (auto simp: wp_def cost_vm_def split: prod.split sum.split)

lemma flush_as_cost: "flush_pending = cost_vm flush_local_cost"
  by (simp add: fun_eq_iff flush_pending_def cost_vm_def)

text \<open>Settling cost changes only the cost components.\<close>

lemma wp_cost_any:
  assumes "\<And>c l. Q () (s\<lparr>vm_cost := c, pending := l\<rparr>)" "\<And>c l. E (s\<lparr>vm_cost := c, pending := l\<rparr>)"
  shows "wp tm (cost_vm f) Q E s" "wp tm flush_pending Q E s" "wp tm (opcode_cost op) Q E s" "wp tm (set_list_cost n) Q E s"
  using assms unfolding flush_as_cost opcode_cost_def set_list_cost_def wp_cost
  by (auto split: prod.split sum.split)

section \<open>The invariant of the machine\<close>

definition closure_ok :: "vm_state \<Rightarrow> closure \<Rightarrow> bool" where
  "closure_ok s c \<longleftrightarrow>
     (\<exists>d. admitted d (cl_bytecode c))
     \<and> length (cl_literals c) = length (string_literals (body (cl_bytecode c)))
     \<and> length (cl_upvalues c) = length (upvalues (body (cl_bytecode c)))
     \<and> (\<forall>r \<in> set (cl_upvalues c). captured s r)"

definition vm_ok :: "vm_state \<Rightarrow> bool" where
  "vm_ok s \<longleftrightarrow> uv_inv s \<and> (\<forall>c \<in> ran (closures s). closure_ok s c) \<and> \<not> poisoned s"

definition record_units :: "call_info list \<Rightarrow> nat" where
  "record_units cis = (\<Sum>ci \<leftarrow> cis. unat (chain_units (ci_chain ci)))"

text \<open>The depth counters and the vararg arena agree with the activation records.\<close>

definition accounted :: "vm_state \<Rightarrow> bool" where
  "accounted s \<longleftrightarrow>
     call_depth s = length (call_stack s)
     \<and> record_units (call_stack s) \<le> metamethod_depth s
     \<and> sorted_wrt (\<ge>) (length (vararg_stack s) # map ci_vararg_start (call_stack s))"

text \<open>
  What a callee leaves of its caller: the slots below \<open>k\<close> that no open upvalue points at, the
  functions they hold, the open upvalues below \<open>k\<close>.
\<close>

definition open_below :: "nat \<Rightarrow> vm_state \<Rightarrow> (nat \<times> nat) list" where
  "open_below k s = filter (\<lambda>(i, _). i < k) (open_upvalues s)"

definition kept :: "nat \<Rightarrow> vm_state \<Rightarrow> vm_state \<Rightarrow> bool" where
  "kept k s0 s \<longleftrightarrow>
     k \<le> length (stack s) \<and> open_below k s = open_below k s0
     \<and> (\<forall>i < k. i \<notin> fst ` set (open_upvalues s0) \<longrightarrow>
          stack s ! i = stack s0 ! i \<and> (\<forall>p. stack s0 ! i = VObj p \<longrightarrow> closures s p = closures s0 p))
     \<and> (interrupt s0 \<longrightarrow> interrupt s)
     \<and> native_call_depth s = native_call_depth s0 \<and> active_rust_fn s = active_rust_fn s0"

lemma open_below_index: "i < k \<Longrightarrow> open_below k s = open_below k s0 \<Longrightarrow>
    i \<in> fst ` set (open_upvalues s) \<longleftrightarrow> i \<in> fst ` set (open_upvalues s0)"
proof -
  assume "i < k" "open_below k s = open_below k s0"
  then have "(i, r) \<in> set (open_upvalues t) \<longleftrightarrow> (i, r) \<in> set (open_below k t)" for r t
    by (simp add: open_below_def)
  then have "(i, r) \<in> set (open_upvalues s) \<longleftrightarrow> (i, r) \<in> set (open_upvalues s0)" for r
    using \<open>open_below k s = open_below k s0\<close> by simp
  then show ?thesis by force
qed

lemma open_below_mono: "open_below k s = open_below k s0 \<Longrightarrow> j \<le> k \<Longrightarrow> open_below j s = open_below j s0"
proof -
  assume a: "open_below k s = open_below k s0" and "j \<le> k"
  then have "filter (\<lambda>(i, _). i < j) (open_upvalues t) = filter (\<lambda>(i, _). i < j) (open_below k t)" for t
    by (auto simp: open_below_def filter_filter case_prod_beta intro!: filter_cong)
  then show ?thesis using a unfolding open_below_def [of j] by simp
qed

lemma kept_refl: "k \<le> length (stack s) \<Longrightarrow> kept k s s"
  by (simp add: kept_def)

lemma kept_trans: "kept k s0 s1 \<Longrightarrow> kept k s1 s2 \<Longrightarrow> kept k s0 s2"
  unfolding kept_def using open_below_index [of _ k s1 s0] by metis

lemma kept_mono: "kept k s0 s \<Longrightarrow> j \<le> k \<Longrightarrow> kept j s0 s"
  unfolding kept_def using open_below_mono [of k s s0 j] by (metis le_trans less_le_trans)

section \<open>Frames\<close>

abbreviation fr_code :: "frame \<Rightarrow> instr list" where
  "fr_code f \<equiv> code (body (fr_bytecode f))"

abbreviation fr_size :: "frame \<Rightarrow> nat" where
  "fr_size f \<equiv> unat (max_stack (body (fr_bytecode f)))"

text \<open>A frame is the frame of the closure in its function slot, which no upvalue captures.\<close>

definition frame_ok :: "vm_state \<Rightarrow> frame \<Rightarrow> bool" where
  "frame_ok s f \<longleftrightarrow>
     0 < fr_bottom f \<and> fr_bottom f \<le> length (stack s) \<and> fr_top f = fr_bottom f + fr_size f
     \<and> fr_bottom f - 1 \<notin> fst ` set (open_upvalues s)
     \<and> (\<exists>p c. stack s ! (fr_bottom f - 1) = VObj p \<and> closures s p = Some c
          \<and> fr_bytecode f = cl_bytecode c \<and> fr_literals f = cl_literals c \<and> fr_upvalues f = cl_upvalues c)"

text \<open>A suspended frame waits at a call whose function slot is its callee's.\<close>

definition waits_for :: "frame \<Rightarrow> frame \<Rightarrow> bool" where
  "waits_for f g \<longleftrightarrow>
     0 < fr_ip g \<and> fr_ip g \<le> length (fr_code g) \<and> opcode (fr_code g ! (fr_ip g - 1)) = OP_CALL
     \<and> fr_bottom f = fr_bottom g + unat (field_a (fr_code g ! (fr_ip g - 1))) + 1"

fun frames_ok :: "vm_state \<Rightarrow> frame list \<Rightarrow> bool" where
  "frames_ok s [] = True"
| "frames_ok s [f] = frame_ok s f"
| "frames_ok s (f # g # fs) = (frame_ok s f \<and> waits_for f g \<and> frames_ok s (g # fs))"

text \<open>
  An invocation entered from \<open>s0\<close> with the callee in slot \<open>k\<close>: what holds in every state of it, also
  where an error leaves it to be unwound.
\<close>

definition entered :: "nat \<Rightarrow> vm_state \<Rightarrow> vm_state \<Rightarrow> bool" where
  "entered k s0 s \<longleftrightarrow>
     vm_ok s \<and> accounted s \<and> kept k s0 s
     \<and> frames s \<noteq> [] \<and> (\<forall>f \<in> set (frames s). k < fr_bottom f)
     \<and> fr_bottom (last (frames s)) = k + 1 \<and> k \<notin> fst ` set (open_upvalues s)
     \<and> length (frames s) \<le> length (call_stack s)
     \<and> drop (length (frames s)) (call_stack s) = call_stack s0
     \<and> metamethod_depth s = metamethod_depth s0 + record_units (take (length (frames s)) (call_stack s))
     \<and> ci_vararg_start (call_stack s ! (length (frames s) - 1)) = length (vararg_stack s0)
     \<and> take (length (vararg_stack s0)) (vararg_stack s) = vararg_stack s0"

text \<open>The same with a running frame on top.\<close>

definition running :: "nat \<Rightarrow> vm_state \<Rightarrow> vm_state \<Rightarrow> bool" where
  "running k s0 s \<longleftrightarrow>
     entered k s0 s \<and> frames_ok s (frames s) \<and> stack_bottom s = fr_bottom (hd (frames s))
     \<and> (\<forall>(i, _) \<in> set (open_upvalues s). i < fr_top (hd (frames s)))"

text \<open>
  The running frame is at an instruction. The stack ends with the frame, or, at a consumer of
  open results, at or above the first of them.
\<close>

definition positioned :: "frame \<Rightarrow> nat \<Rightarrow> nat \<Rightarrow> bool" where
  "positioned f ip len \<longleftrightarrow>
     ip < length (fr_code f)
     \<and> (if consumes_open (fr_code f ! ip)
        then 0 < ip \<and> fr_bottom f + unat (field_a (fr_code f ! (ip - 1))) \<le> len
        else len = fr_top f)"

definition ready :: "nat \<Rightarrow> vm_state \<Rightarrow> vm_state \<Rightarrow> bool" where
  "ready k s0 s \<longleftrightarrow>
     running k s0 s \<and> positioned (hd (frames s)) (fr_ip (hd (frames s))) (length (stack s))"

section \<open>What keeps the invariant\<close>

lemma frames_ok_hd: "frames_ok s (f # fs) \<Longrightarrow> frame_ok s f"
  by (cases fs) simp_all

lemma frames_ok_tl: "frames_ok s (f # fs) \<Longrightarrow> frames_ok s fs"
  by (cases fs) simp_all

lemma frames_ok_all: "frames_ok s fs \<Longrightarrow> f \<in> set fs \<Longrightarrow> frame_ok s f"
  by (induction fs arbitrary: f rule: frames_ok.induct) auto

lemma frames_ok_bottoms: "frames_ok s (f # fs) \<Longrightarrow> g \<in> set fs \<Longrightarrow> fr_bottom g < fr_bottom f"
proof (induction fs arbitrary: f)
  case (Cons h fs)
  then have "fr_bottom h < fr_bottom f" "frames_ok s (h # fs)" by (auto simp: waits_for_def)
  with Cons.IH [of h] Cons.prems(2) show ?case by auto
qed simp

lemma frames_ok_mono:
  "frames_ok s fs \<Longrightarrow> (\<And>f. f \<in> set fs \<Longrightarrow> frame_ok s f \<Longrightarrow> frame_ok s' f) \<Longrightarrow> frames_ok s' fs"
  by (induction fs rule: frames_ok.induct) auto

lemma frame_ok_ip [simp]: "frame_ok s (f\<lparr>fr_ip := ip\<rparr>) \<longleftrightarrow> frame_ok s f" "waits_for (f\<lparr>fr_ip := ip\<rparr>) g \<longleftrightarrow> waits_for f g"
  by (simp_all add: frame_ok_def waits_for_def)

lemma frames_ok_ip: "frames_ok s (f # fs) \<Longrightarrow> frames_ok s (f\<lparr>fr_ip := ip\<rparr> # fs)"
  by (cases fs) simp_all

lemma frame_ok_kept:
  assumes "frame_ok s f" "kept j s s'" "fr_bottom f \<le> j"
  shows "frame_ok s' f"
proof -
  let ?i = "fr_bottom f - 1"
  have i: "?i < j" "?i \<notin> fst ` set (open_upvalues s)" using assms by (auto simp: frame_ok_def)
  have "?i \<notin> fst ` set (open_upvalues s')"
    using open_below_index [of ?i j s' s] assms(2) i by (simp add: kept_def)
  moreover have "stack s' ! ?i = stack s ! ?i" "\<And>p. stack s ! ?i = VObj p \<Longrightarrow> closures s' p = closures s p"
    using assms(2) i by (auto simp: kept_def)
  moreover have "fr_bottom f \<le> length (stack s')" using assms by (simp add: kept_def)
  ultimately show ?thesis using assms(1) unfolding frame_ok_def by metis
qed

text \<open>A step of the running frame changes no other frame and no record but its own call site.\<close>

definition flight_step :: "vm_state \<Rightarrow> vm_state \<Rightarrow> bool" where
  "flight_step s s' \<longleftrightarrow>
     (\<exists>ip. frames s' = (hd (frames s))\<lparr>fr_ip := ip\<rparr> # tl (frames s))
     \<and> (\<exists>ip. call_stack s' = (hd (call_stack s))\<lparr>ci_ip := ip\<rparr> # tl (call_stack s))
     \<and> vararg_stack s' = vararg_stack s \<and> call_depth s' = call_depth s
     \<and> metamethod_depth s' = metamethod_depth s \<and> stack_bottom s' = stack_bottom s"

lemma map_hd_ip: "xs \<noteq> [] \<Longrightarrow> h (g (hd xs)) = h (hd xs) \<Longrightarrow> map h (g (hd xs) # tl xs) = map h xs"
  by (cases xs) auto

lemma record_units_hd: "cis \<noteq> [] \<Longrightarrow> record_units (take n ((hd cis)\<lparr>ci_ip := ip\<rparr> # tl cis)) = record_units (take n cis)"
  by (cases cis; cases n) (auto simp: record_units_def)

lemma record_units_all: "record_units cis = record_units (take (length cis) cis)"
  by simp

lemma accounted_step:
  assumes "accounted s" "flight_step s s'" "call_stack s \<noteq> []"
  shows "accounted s'"
proof -
  obtain ip where cs: "call_stack s' = (hd (call_stack s))\<lparr>ci_ip := ip\<rparr> # tl (call_stack s)"
    using assms(2) by (auto simp: flight_step_def)
  have "length (call_stack s') = length (call_stack s)" using cs assms(3) by simp
  moreover have "map ci_vararg_start (call_stack s') = map ci_vararg_start (call_stack s)"
    unfolding cs using assms(3) by (intro map_hd_ip) simp_all
  moreover have "record_units (call_stack s') = record_units (call_stack s)"
    using record_units_hd [of "call_stack s" "length (call_stack s)" ip] assms(3) cs
    by (metis calculation(1) order_refl take_all)
  ultimately show ?thesis using assms(1,2) by (simp add: accounted_def flight_step_def)
qed

lemma nth_hd_ip: "cis \<noteq> [] \<Longrightarrow> j < length cis \<Longrightarrow> ci_vararg_start (((hd cis)\<lparr>ci_ip := ip\<rparr> # tl cis) ! j) = ci_vararg_start (cis ! j)"
  by (cases cis; cases j) auto

lemma entered_step:
  assumes "entered k s0 s" "flight_step s s'" "kept k s s'" "vm_ok s'" "k \<notin> fst ` set (open_upvalues s')"
  shows "entered k s0 s'"
proof -
  have ne: "frames s \<noteq> []" "call_stack s \<noteq> []" using assms(1) by (auto simp: entered_def)
  obtain ip where fs: "frames s' = (hd (frames s))\<lparr>fr_ip := ip\<rparr> # tl (frames s)"
    using assms(2) by (auto simp: flight_step_def)
  obtain ip' where cs: "call_stack s' = (hd (call_stack s))\<lparr>ci_ip := ip'\<rparr> # tl (call_stack s)"
    using assms(2) by (auto simp: flight_step_def)
  have len: "length (frames s') = length (frames s)" "length (call_stack s') = length (call_stack s)"
    using ne fs cs by simp_all
  have "drop (length (frames s)) (call_stack s') = drop (length (frames s)) (call_stack s)"
    using ne cs by (cases "call_stack s"; cases "frames s") auto
  moreover have "\<forall>f \<in> set (frames s'). k < fr_bottom f"
    using assms(1) fs ne by (cases "frames s") (auto simp: entered_def)
  moreover have "fr_bottom (last (frames s')) = k + 1"
    using assms(1) fs ne by (cases "frames s") (auto simp: entered_def split: if_splits)
  moreover have "accounted s'" using accounted_step [OF _ assms(2) ne(2)] assms(1) by (simp add: entered_def)
  moreover have "kept k s0 s'" using assms(1,3) kept_trans by (auto simp: entered_def)
  moreover have "length (frames s) - 1 < length (call_stack s)"
    using assms(1) ne by (cases "frames s") (simp_all add: entered_def)
  ultimately show ?thesis
    using assms(1,2,4,5) len fs nth_hd_ip [OF ne(2)] record_units_hd [OF ne(2)]
    by (simp add: entered_def flight_step_def cs)
qed

lemma running_step:
  assumes "running k s0 s" "flight_step s s'" "kept (stack_bottom s) s s'" "vm_ok s'"
    and "\<forall>(i, _) \<in> set (open_upvalues s'). i < fr_top (hd (frames s))"
  shows "running k s0 s'"
proof -
  have ent: "entered k s0 s" and ok: "frames_ok s (frames s)" and bot: "stack_bottom s = fr_bottom (hd (frames s))"
    using assms(1) by (simp_all add: running_def)
  obtain f fs where fs: "frames s = f # fs" using ent by (cases "frames s") (auto simp: entered_def)
  obtain ip where fs': "frames s' = f\<lparr>fr_ip := ip\<rparr> # fs" using assms(2) fs by (auto simp: flight_step_def)
  have "k < fr_bottom f" using ent fs by (auto simp: entered_def)
  then have "kept k s s'" using kept_mono [OF assms(3), of k] bot fs by simp
  moreover have "k \<notin> fst ` set (open_upvalues s')"
    using open_below_index [of k "stack_bottom s" s' s] assms(3) ent bot fs \<open>k < fr_bottom f\<close> by (simp add: kept_def entered_def)
  ultimately have "entered k s0 s'" by (rule entered_step [OF ent assms(2) _ assms(4)])
  moreover have "frames_ok s' (f # fs)"
  proof (rule frames_ok_mono [OF ok [unfolded fs]])
    fix g assume g: "g \<in> set (f # fs)" "frame_ok s g"
    then have "fr_bottom g \<le> stack_bottom s" using frames_ok_bottoms [OF ok [unfolded fs], of g] bot fs by auto
    then show "frame_ok s' g" using frame_ok_kept [OF g(2) assms(3)] by simp
  qed
  then have "frames_ok s' (frames s')" unfolding fs' by (rule frames_ok_ip)
  moreover have "stack_bottom s' = fr_bottom (hd (frames s'))" using assms(2) bot fs fs' by (simp add: flight_step_def)
  moreover have "fr_top (hd (frames s')) = fr_top (hd (frames s))" using fs fs' by simp
  ultimately show ?thesis using assms(5) unfolding running_def by simp
qed

lemma flight_step_refl: "frames s \<noteq> [] \<Longrightarrow> call_stack s \<noteq> [] \<Longrightarrow> flight_step s s"
  unfolding flight_step_def
  by (intro conjI exI [of _ "fr_ip (hd (frames s))"] exI [of _ "ci_ip (hd (call_stack s))"]) simp_all

section \<open>Contracts of the world\<close>

text \<open>
  What a heap operation that calls nothing may do: allocate and collect (the pool and the
  functions change, the values on the stack keep theirs), charge cost; and the interrupt, which
  another thread sets, may have been triggered meanwhile.
\<close>

definition quiet :: "vm_state \<Rightarrow> vm_state \<Rightarrow> bool" where
  "quiet s s' \<longleftrightarrow>
     s' = s\<lparr> upvalue_pool := upvalue_pool s', closures := closures s', vm_cost := vm_cost s',
             pending := pending s', interrupt := interrupt s' \<rparr>
     \<and> (interrupt s \<longrightarrow> interrupt s') \<and> (vm_ok s \<longrightarrow> vm_ok s')
     \<and> (\<forall>p. VObj p \<in> set (stack s) \<longrightarrow> closures s' p = closures s p)"

text \<open>A resolver that ends at a handler pushes its call window and holds chain units for it.\<close>

definition window_pushed :: "nat \<Rightarrow> nat \<Rightarrow> vm_state \<Rightarrow> vm_state \<Rightarrow> bool" where
  "window_pushed n units s s' \<longleftrightarrow>
     (\<exists>s1 vs. quiet s s1 \<and> length vs = n
        \<and> s' = s1\<lparr> stack := stack s1 @ vs, metamethod_depth := metamethod_depth s1 + units \<rparr>)"

text \<open>What a callee may do that owns the slots from \<open>k\<close> upwards, once it has returned.\<close>

definition calm :: "nat \<Rightarrow> vm_state \<Rightarrow> vm_state \<Rightarrow> bool" where
  "calm k s s' \<longleftrightarrow>
     kept k s s' \<and> vm_ok s' \<and> open_upvalues s' = open_upvalues s \<and> stack_bottom s' = stack_bottom s
     \<and> frames s' = frames s \<and> pending s' = pending s \<and> call_stack s' = call_stack s
     \<and> vararg_stack s' = vararg_stack s \<and> call_depth s' = call_depth s
     \<and> metamethod_depth s' = metamethod_depth s"

text \<open>Every open upvalue is below the slots a callee gets.\<close>

definition opens_below :: "nat \<Rightarrow> vm_state \<Rightarrow> bool" where
  "opens_below k s \<longleftrightarrow> (\<forall>(i, _) \<in> set (open_upvalues s). i < k)"

definition callbacks_calm :: "world \<Rightarrow> bool" where
  "callbacks_calm W \<longleftrightarrow>
     (\<forall>f s. vm_ok s \<longrightarrow> accounted s \<longrightarrow> stack_bottom s \<le> length (stack s) \<longrightarrow> opens_below (stack_bottom s) s \<longrightarrow>
        calm (stack_bottom s) s (snd (w_rust_fn W f s)))"

definition world_quiet :: "world \<Rightarrow> bool" where
  "world_quiet W \<longleftrightarrow>
     (\<forall>i vs s. quiet s (snd (w_value W i vs s)) \<and> quiet s (snd (w_store W i vs s)))
     \<and> (\<forall>i a b s. case w_index W i a b s of
          (Inr (IndexCall units), s') \<Rightarrow> window_pushed 3 units s s' | (_, s') \<Rightarrow> quiet s s')
     \<and> (\<forall>i a b c s. case w_newindex W i a b c s of
          (Inr (Some units), s') \<Rightarrow> window_pushed 4 units s s' | (_, s') \<Rightarrow> quiet s s')
     \<and> (\<forall>v s. case w_length W v s of (Inr None, s') \<Rightarrow> window_pushed 3 0 s s' | (_, s') \<Rightarrow> quiet s s')
     \<and> (\<forall>bc s. case w_runtime W bc s of
          (Inr ls, s') \<Rightarrow> quiet s s' \<and> length ls = length (string_literals (body bc)) | (Inl _, s') \<Rightarrow> quiet s s')
     \<and> (\<forall>c s. vm_ok s \<longrightarrow> closure_ok s c \<longrightarrow>
          (case w_alloc_closure W c s of (p, s') \<Rightarrow> quiet s s' \<and> closures s' p = Some c))"

lemma quiet_fields:
  assumes "quiet s s'"
  shows "stack s' = stack s" "stack_bottom s' = stack_bottom s" "open_upvalues s' = open_upvalues s"
    "call_stack s' = call_stack s" "vararg_stack s' = vararg_stack s" "call_depth s' = call_depth s"
    "metamethod_depth s' = metamethod_depth s" "frames s' = frames s" "native_call_depth s' = native_call_depth s"
    "active_rust_fn s' = active_rust_fn s" "poisoned s' = poisoned s" "fp_unsupported s' = fp_unsupported s"
proof -
  note eq = assms [unfolded quiet_def, THEN conjunct1]
  show "stack s' = stack s" using arg_cong [OF eq, of stack] by simp
  show "stack_bottom s' = stack_bottom s" using arg_cong [OF eq, of stack_bottom] by simp
  show "open_upvalues s' = open_upvalues s" using arg_cong [OF eq, of open_upvalues] by simp
  show "call_stack s' = call_stack s" using arg_cong [OF eq, of call_stack] by simp
  show "vararg_stack s' = vararg_stack s" using arg_cong [OF eq, of vararg_stack] by simp
  show "call_depth s' = call_depth s" using arg_cong [OF eq, of call_depth] by simp
  show "metamethod_depth s' = metamethod_depth s" using arg_cong [OF eq, of metamethod_depth] by simp
  show "frames s' = frames s" using arg_cong [OF eq, of frames] by simp
  show "native_call_depth s' = native_call_depth s" using arg_cong [OF eq, of native_call_depth] by simp
  show "active_rust_fn s' = active_rust_fn s" using arg_cong [OF eq, of active_rust_fn] by simp
  show "poisoned s' = poisoned s" using arg_cong [OF eq, of poisoned] by simp
  show "fp_unsupported s' = fp_unsupported s" using arg_cong [OF eq, of fp_unsupported] by simp
qed

lemma quiet_kept:
  assumes "quiet s s'" "j \<le> length (stack s)"
  shows "kept j s s'"
proof -
  have "closures s' p = closures s p" if "i < j" "stack s ! i = VObj p" for i p
    using that assms nth_mem [of i "stack s"] by (simp add: quiet_def)
  then show ?thesis using quiet_fields [OF assms(1)] assms
    by (simp add: kept_def open_below_def) (simp add: quiet_def)
qed

lemma quiet_vm_ok: "quiet s s' \<Longrightarrow> vm_ok s \<Longrightarrow> vm_ok s'"
  by (simp add: quiet_def)

section \<open>Steps of the running frame\<close>

text \<open>
  The invocation runs frame \<open>f\<close>, which is at \<open>ip\<close>, above the frames \<open>gs\<close>, with a stack of length
  \<open>len\<close>. The flag \<open>b\<close> says that the interrupt is known to be set.
\<close>

definition running_at :: "nat \<Rightarrow> vm_state \<Rightarrow> frame \<Rightarrow> frame list \<Rightarrow> bool \<Rightarrow> nat \<Rightarrow> nat \<Rightarrow> vm_state \<Rightarrow> bool" where
  "running_at k s0 f gs b ip len s \<longleftrightarrow>
     running k s0 s \<and> frames s = f\<lparr>fr_ip := ip\<rparr> # gs \<and> length (stack s) = len \<and> (b \<longrightarrow> interrupt s)"

lemma running_entered: "running k s0 s \<Longrightarrow> entered k s0 s"
  by (simp add: running_def)

lemma running_at_entered: "running_at k s0 f gs b ip len s \<Longrightarrow> entered k s0 s"
  by (simp add: running_at_def running_def)

lemma running_atD:
  assumes "running_at k s0 f gs b ip len s"
  shows "running k s0 s" "frames s = f\<lparr>fr_ip := ip\<rparr> # tl (frames s)" "call_stack s \<noteq> []" "vm_ok s" "accounted s"
    "stack_bottom s = fr_bottom f" "frame_ok s f" "fr_bottom f \<le> length (stack s)" "length (stack s) = len"
    "\<forall>(i, _) \<in> set (open_upvalues s). i < fr_top f" "0 < fr_bottom f" "fr_top f = fr_bottom f + fr_size f"
proof -
  have run: "running k s0 s" and hd: "hd (frames s) = f\<lparr>fr_ip := ip\<rparr>" and len: "length (stack s) = len"
    using assms by (simp_all add: running_at_def)
  then have ne: "frames s \<noteq> []" by (simp add: running_def entered_def)
  show fs: "frames s = f\<lparr>fr_ip := ip\<rparr> # tl (frames s)" using ne hd by (metis list.collapse)
  have "frames_ok s (f\<lparr>fr_ip := ip\<rparr> # tl (frames s))" using run fs by (simp add: running_def)
  then show ok: "frame_ok s f" by (auto dest: frames_ok_hd)
  show "running k s0 s" "length (stack s) = len" by fact+
  show "call_stack s \<noteq> []" "vm_ok s" "accounted s" "stack_bottom s = fr_bottom f"
    "\<forall>(i, _) \<in> set (open_upvalues s). i < fr_top f"
    using run hd by (auto simp: running_def entered_def)
  show "fr_bottom f \<le> length (stack s)" "0 < fr_bottom f" "fr_top f = fr_bottom f + fr_size f"
    using ok by (simp_all add: frame_ok_def)
qed

text \<open>The general step: one of the conditions on the new state per part of the invariant.\<close>

lemma running_at_step:
  assumes at: "running_at k s0 f gs b ip len s"
    and fs: "frames s' = f\<lparr>fr_ip := ip'\<rparr> # tl (frames s)"
    and cs: "\<exists>j. call_stack s' = (hd (call_stack s))\<lparr>ci_ip := j\<rparr> # tl (call_stack s)"
    and rest: "vararg_stack s' = vararg_stack s" "call_depth s' = call_depth s"
      "metamethod_depth s' = metamethod_depth s" "stack_bottom s' = stack_bottom s"
    and kept: "kept (fr_bottom f) s s'" and ok: "vm_ok s'"
    and op: "\<forall>(i, _) \<in> set (open_upvalues s'). i < fr_top f" and len: "length (stack s') = len'"
  shows "running_at k s0 f gs b ip' len' s'"
proof -
  note d = running_atD [OF at]
  have "hd (frames s) = f\<lparr>fr_ip := ip\<rparr>" using at by (simp add: running_at_def)
  then have "\<exists>ip. frames s' = (hd (frames s))\<lparr>fr_ip := ip\<rparr> # tl (frames s)"
    using fs by (intro exI [of _ ip']) simp
  then have "flight_step s s'" using cs rest unfolding flight_step_def by blast
  then have "running k s0 s'"
    using running_step [OF d(1)] d(6) kept ok op \<open>hd (frames s) = f\<lparr>fr_ip := ip\<rparr>\<close> by simp
  moreover have "interrupt s \<longrightarrow> interrupt s'" using kept by (simp add: kept_def)
  ultimately show ?thesis using fs len at by (auto simp: running_at_def)
qed

lemma call_stack_hd: "cis \<noteq> [] \<Longrightarrow> \<exists>j. cis = (hd cis)\<lparr>ci_ip := j\<rparr> # tl cis"
  by (rule exI [of _ "ci_ip (hd cis)"]) simp

lemma captured_stack [simp]: "captured (s\<lparr>stack := vs\<rparr>) = captured s"
  "closure_ok (s\<lparr>stack := vs\<rparr>) = closure_ok s"
  by (simp_all add: captured_def fun_eq_iff closure_ok_def)

lemma vm_ok_stack: "vm_ok s \<Longrightarrow> \<forall>(i, _) \<in> set (open_upvalues s). i < length vs \<Longrightarrow> vm_ok (s\<lparr>stack := vs\<rparr>)"
  by (auto simp: vm_ok_def uv_inv_def)

lemma kept_stack:
  assumes "take j vs = take j (stack s)" "j \<le> length vs"
  shows "kept j s (s\<lparr>stack := vs\<rparr>)"
proof -
  have "vs ! i = stack s ! i" if "i < j" for i using assms(1) that by (metis nth_take)
  then show ?thesis using assms(2) by (simp add: kept_def open_below_def)
qed

lemma at_stack:
  assumes at: "running_at k s0 f gs b ip len s" and "take (fr_bottom f) vs = take (fr_bottom f) (stack s)"
    and "fr_bottom f \<le> length vs" "\<forall>(i, _) \<in> set (open_upvalues s). i < length vs"
  shows "running_at k s0 f gs b ip (length vs) (s\<lparr>stack := vs\<rparr>)"
  using running_atD [OF at] assms
  by (intro running_at_step [OF at]) (simp_all add: call_stack_hd vm_ok_stack kept_stack)

lemma opens_in_stack: "vm_ok s \<Longrightarrow> \<forall>(i, _) \<in> set (open_upvalues s). i < length (stack s)"
  by (auto simp: vm_ok_def uv_inv_def)

lemma at_same_size:
  assumes at: "running_at k s0 f gs b ip len s" and "take (fr_bottom f) vs = take (fr_bottom f) (stack s)"
    and "length vs = len"
  shows "running_at k s0 f gs b ip len (s\<lparr>stack := vs\<rparr>)"
  using at_stack [OF at assms(2)] running_atD [OF at] assms(3) opens_in_stack by auto

lemma at_resize_top:
  assumes at: "running_at k s0 f gs b ip len s"
  shows "running_at k s0 f gs b ip (fr_top f) (s\<lparr>stack := vec_resize (fr_top f) (stack s)\<rparr>)"
  using at_stack [OF at, of "vec_resize (fr_top f) (stack s)"] running_atD [OF at]
  by (simp add: take_vec_resize)

lemma at_quiet:
  assumes at: "running_at k s0 f gs b ip len s" and q: "quiet s s'"
  shows "running_at k s0 f gs b ip len s'"
  using running_atD [OF at] quiet_fields [OF q] q
  by (intro running_at_step [OF at]) (simp_all add: call_stack_hd quiet_kept quiet_vm_ok)

lemma quiet_refl: "quiet s s"
  by (cases s) (simp add: quiet_def)

lemma quiet_cost: "quiet s (s\<lparr>vm_cost := c, pending := l\<rparr>)"
proof -
  have "vm_ok (s\<lparr>vm_cost := c, pending := l\<rparr>) = vm_ok s"
    by (simp add: vm_ok_def uv_inv_def closure_ok_def captured_def)
  then show ?thesis by (cases s) (simp add: quiet_def)
qed

lemma vm_ok_flight [simp]:
  "vm_ok (s\<lparr>frames := fs\<rparr>) = vm_ok s" "vm_ok (s\<lparr>call_stack := cis\<rparr>) = vm_ok s"
  "vm_ok (s\<lparr>stack_bottom := b\<rparr>) = vm_ok s" "vm_ok (s\<lparr>metamethod_depth := m\<rparr>) = vm_ok s"
  "vm_ok (s\<lparr>vararg_stack := vs\<rparr>) = vm_ok s" "vm_ok (s\<lparr>call_depth := d\<rparr>) = vm_ok s"
  "vm_ok (s\<lparr>pending := p\<rparr>) = vm_ok s" "vm_ok (s\<lparr>vm_cost := c\<rparr>) = vm_ok s"
  "vm_ok (s\<lparr>native_call_depth := n\<rparr>) = vm_ok s" "vm_ok (s\<lparr>active_rust_fn := r\<rparr>) = vm_ok s"
  by (simp_all add: vm_ok_def uv_inv_def closure_ok_def captured_def)

lemma kept_flight [simp]:
  "kept j s (s'\<lparr>frames := fs\<rparr>) = kept j s s'" "kept j s (s'\<lparr>call_stack := cis\<rparr>) = kept j s s'"
  "kept j s (s'\<lparr>stack_bottom := b\<rparr>) = kept j s s'" "kept j s (s'\<lparr>metamethod_depth := m\<rparr>) = kept j s s'"
  "kept j s (s'\<lparr>vararg_stack := vs\<rparr>) = kept j s s'" "kept j s (s'\<lparr>call_depth := d\<rparr>) = kept j s s'"
  "kept j s (s'\<lparr>pending := p\<rparr>) = kept j s s'" "kept j s (s'\<lparr>vm_cost := c\<rparr>) = kept j s s'"
  by (simp_all add: kept_def open_below_def)

lemma at_set_ip:
  assumes at: "running_at k s0 f gs b ip len s"
  shows "running_at k s0 f gs b ip' len (set_ip ip' s)"
proof -
  obtain fs where fs: "frames s = f\<lparr>fr_ip := ip\<rparr> # fs" using running_atD(2) [OF at] by blast
  then have "set_ip ip' s = s\<lparr>frames := f\<lparr>fr_ip := ip'\<rparr> # fs\<rparr>" by (simp add: set_ip_def)
  then show ?thesis
    using running_atD [OF at] fs by (intro running_at_step [OF at]) (simp_all add: call_stack_hd kept_refl)
qed

lemma at_record:
  assumes at: "running_at k s0 f gs b ip len s"
  shows "running_at k s0 f gs b ip len (record_call_site j s)"
proof -
  obtain ci cis where cs: "call_stack s = ci # cis" using running_atD(3) [OF at] by (cases "call_stack s") auto
  then have "record_call_site j s = s\<lparr>call_stack := ci\<lparr>ci_ip := j\<rparr> # cis\<rparr>" by (simp add: record_call_site_def)
  then show ?thesis
    using running_atD [OF at] cs by (intro running_at_step [OF at]) (auto simp: kept_refl)
qed

section \<open>Verification conditions\<close>

text \<open>Rules that carry \<open>running_at\<close> through an operation; an error may leave any entered state.\<close>

named_theorems vc \<open>operations of the running frame\<close>

lemma vc_get_reg [vc]:
  "running_at k s0 f gs b ip len s \<Longrightarrow> i < len \<Longrightarrow> (\<And>v. Q v s) \<Longrightarrow> wp tm (get_reg i) Q E s"
  by (simp add: wp_rules running_at_def)

lemma vc_get_regs [vc]:
  "running_at k s0 f gs b ip len s \<Longrightarrow> i + n \<le> len \<Longrightarrow> (\<And>vs. length vs = n \<Longrightarrow> Q vs s) \<Longrightarrow> wp tm (get_regs i n) Q E s"
  by (simp add: wp_rules running_at_def)

lemma vc_set_reg [vc]:
  assumes at: "running_at k s0 f gs b ip len s" and i: "fr_bottom f \<le> i" "i < len"
    and Q: "\<And>s'. running_at k s0 f gs b ip len s' \<Longrightarrow> Q () s'"
  shows "wp tm (set_reg i v) Q E s"
  using at_same_size [OF at, of "(stack s)[i := v]"] running_atD [OF at] i Q by (simp add: wp_rules)

lemma vc_set_regs [vc]:
  assumes at: "running_at k s0 f gs b ip len s" and i: "fr_bottom f \<le> i" "i + length vs \<le> len"
    and Q: "\<And>s'. running_at k s0 f gs b ip len s' \<Longrightarrow> Q () s'"
  shows "wp tm (set_regs i vs) Q E s"
proof -
  have "take (fr_bottom f) (take i (stack s) @ vs @ drop (i + length vs) (stack s)) = take (fr_bottom f) (stack s)"
    using running_atD [OF at] i by (simp add: min_def)
  then show ?thesis
    using at_same_size [OF at, of "take i (stack s) @ vs @ drop (i + length vs) (stack s)"] running_atD [OF at] i Q
    by (simp add: wp_rules)
qed

lemma vc_nth [vc]: "i < length xs \<Longrightarrow> Q (xs ! i) s \<Longrightarrow> wp tm (nth_vm xs i) Q E s"
  by (simp add: wp_rules)

lemma vc_cost [vc]:
  assumes at: "running_at k s0 f gs b ip len s" and Q: "\<And>s'. running_at k s0 f gs b ip len s' \<Longrightarrow> Q () s'"
    and E: "\<And>s'. entered k s0 s' \<Longrightarrow> E s'"
  shows "wp tm flush_pending Q E s" "wp tm (opcode_cost op) Q E s" "wp tm (set_list_cost n) Q E s"
  using at_quiet [OF at quiet_cost] Q E running_at_entered by (intro wp_cost_any; blast)+

lemma vc_jump [vc]:
  assumes at: "running_at k s0 f gs b ip len s" and j: "jumped ip0 offset = Some t"
    and Q: "\<And>s'. running_at k s0 f gs b t len s' \<Longrightarrow> Q () s'"
  shows "wp tm (jump_to ip0 offset) Q E s"
  using at_set_ip [OF at, of t] j Q by (simp add: jump_to_def wp_rules)

text \<open>A backward branch polls the interrupt.\<close>

lemma vc_branch [vc]:
  assumes at: "running_at k s0 f gs b ip len s" and j: "jumped ip0 offset = Some t"
    and Q: "\<And>s'. running_at k s0 f gs b t len s' \<Longrightarrow> b \<longrightarrow> 0 \<le> offset \<Longrightarrow> Q () s'" and E: "\<And>s'. entered k s0 s' \<Longrightarrow> E s'"
  shows "wp tm (branch ip0 offset) Q E s"
proof -
  have "interrupt s" if b using at that by (simp add: running_at_def)
  then have "wp tm (jump_to ip0 offset) Q E s" if "0 \<le> offset \<or> \<not> interrupt s"
    using that by (intro vc_jump [OF at j] Q) auto
  then show ?thesis
    using E [OF running_at_entered [OF at]]
    by (auto simp: branch_def wp_rules poll_interrupt_def ensure_def split: if_splits)
qed

lemma vc_value [vc]:
  assumes W: "world_quiet W" and at: "running_at k s0 f gs b ip len s"
    and Q: "\<And>v s'. running_at k s0 f gs b ip len s' \<Longrightarrow> Q v s'" and E: "\<And>s'. entered k s0 s' \<Longrightarrow> E s'"
  shows "wp tm (world_vm (w_value W i vs)) Q E s"
proof -
  have "quiet s (snd (w_value W i vs s))" using W by (simp add: world_quiet_def)
  from at_quiet [OF at this] show ?thesis
    using Q E running_at_entered by (auto simp: wp_rules split: prod.split sum.split)
qed

lemma vc_store [vc]:
  assumes W: "world_quiet W" and at: "running_at k s0 f gs b ip len s"
    and Q: "\<And>s'. running_at k s0 f gs b ip len s' \<Longrightarrow> Q () s'" and E: "\<And>s'. entered k s0 s' \<Longrightarrow> E s'"
  shows "wp tm (world_vm (w_store W i vs)) Q E s"
proof -
  have "quiet s (snd (w_store W i vs s))" using W by (simp add: world_quiet_def)
  from at_quiet [OF at this] show ?thesis
    using Q E running_at_entered by (auto simp: wp_rules split: prod.split sum.split)
qed

lemma vc_fail [vc]: "running_at k s0 f gs b ip len s \<Longrightarrow> (\<And>s'. entered k s0 s' \<Longrightarrow> E s') \<Longrightarrow> wp tm (fail_vm e) Q E s"
  by (auto simp: wp_rules intro: running_at_entered)

lemma vc_compare [vc]:
  "running_at k s0 f gs b ip len s \<Longrightarrow> (\<And>b. Q b s) \<Longrightarrow> (\<And>s'. entered k s0 s' \<Longrightarrow> E s') \<Longrightarrow> wp tm (compare_arm W op l r) Q E s"
  by (auto simp: compare_arm_def wp_rules intro: running_at_entered)

lemma vc_return [vc]: "Q x s \<Longrightarrow> wp tm (return_vm x) Q E s"
  by (simp add: wp_rules)

lemma vc_bind [vc]: "wp tm m (\<lambda>x. wp tm (g x) Q E) E s \<Longrightarrow> wp tm (bind_vm m g) Q E s"
  by (simp add: wp_rules)

end
