(* ===== verification/Vm_Arms.thy ===== *)
theory Vm_Arms
  imports Vm_Logic
begin

text \<open>
  The arms of the dispatch loop that stay in the running frame: constants, globals, fields, indices,
  upvalues, closures, varargs, arithmetic, comparisons, loops, table constructors. Each keeps the
  invariant of the invocation, at the register and slot bounds that verification established,
  whether it returns or fails; handlers and Rust functions are called under their contract.
\<close>

section \<open>What admission gives the dispatch loop\<close>

lemma inst_at_view: "pc < length (code (body bc)) \<Longrightarrow> inst_at (view_of bc) pc = code (body bc) ! pc"
  by (simp add: inst_at_def view_of_def Let_def from_raw_def)

lemma code_len_view [simp]: "code_len (view_of bc) = length (code (body bc))"
  by (simp add: code_len_def view_of_def Let_def)

lemma view_fields [simp]:
  "view_numbers (view_of bc) = length (number_literals (body bc))"
  "view_strings (view_of bc) = string_literals (body bc)"
  "view_templates (view_of bc) = table_templates (body bc)"
  "view_max_stack (view_of bc) = max_stack (body bc)" "view_nested (view_of bc) = length (nested bc)"
  "view_upvalues (view_of bc) = upvalues (body bc)" "view_vararg (view_of bc) = is_vararg (body bc)"
  "view_params (view_of bc) = num_params (body bc)" "view_locals (view_of bc) = num_locals (body bc)"
  by (simp_all add: view_of_def Let_def)

lemma admitted_verified: "admitted d bc \<Longrightarrow> validate_bytecode (view_of bc) = Inr ()"
  by (cases bc) simp

lemma admitted_nested:
  "admitted d bc \<Longrightarrow> b \<in> set (nested bc) \<Longrightarrow> admitted (d + 1) b \<and> validate_child (view_of bc) (view_of b) = Inr ()"
  by (cases bc) (auto simp: list_all_iff)

text \<open>The checks of one instruction, and of the jump marks.\<close>

lemma admitted_instr:
  assumes "admitted d bc" "pc < length (code (body bc))"
  obtains t st st' where "jump_targets (view_of bc) = Inr t"
    "\<And>q. q < length (code (body bc)) \<Longrightarrow> \<exists>st st'. check_instr (view_of bc) t q st = Inr st'"
    "check_instr (view_of bc) t pc st = Inr st'"
proof -
  obtain t ss where t: "jump_targets (view_of bc) = Inr t"
    "\<And>q. q < code_len (view_of bc) \<Longrightarrow> check_instr (view_of bc) t q (ss q) = Inr (ss (Suc q))"
    by (rule validate_bytecodeE [OF admitted_verified [OF assms(1)]]) blast
  have all: "\<exists>st st'. check_instr (view_of bc) t q st = Inr st'" if "q < length (code (body bc))" for q
    using t(2) [of q] that by auto
  have this_one: "check_instr (view_of bc) t pc (ss pc) = Inr (ss (Suc pc))" using t(2) [of pc] assms(2) by simp
  show thesis by (rule that, fact t(1), erule all, fact this_one)
qed

lemma admitted_sizes:
  assumes "admitted d bc"
  shows "unat (num_params (body bc)) + unat (num_locals (body bc)) \<le> unat (max_stack (body bc))"
    and "0 < length (code (body bc))"
    and "opcode (code (body bc) ! (length (code (body bc)) - 1)) = OP_RETURN"
proof -
  from admitted_verified [OF assms] have lim: "validate_limits (view_of bc) = Inr ()"
    and ret: "validate_final_return (view_of bc) = Inr ()"
    by (elim validate_bytecodeE; simp)+
  show "unat (num_params (body bc)) + unat (num_locals (body bc)) \<le> unat (max_stack (body bc))"
    and "0 < length (code (body bc))"
    using lim by (simp_all add: validate_limits_def Let_def result_simps)
  then show "opcode (code (body bc) ! (length (code (body bc)) - 1)) = OP_RETURN"
    using ret by (simp add: validate_final_return_def inst_at_view)
qed

lemma admitted_next:
  assumes "admitted d bc" "pc < length (code (body bc))" "opcode (code (body bc) ! pc) \<noteq> OP_RETURN"
  shows "pc + 1 < length (code (body bc))"
    and "consumes_open (code (body bc) ! (pc + 1)) \<longleftrightarrow> produces_open (code (body bc) ! pc)"
proof -
  show nx: "pc + 1 < length (code (body bc))"
    using admitted_sizes(3) [OF assms(1)] assms(2,3) by (cases "pc = length (code (body bc)) - 1") auto
  obtain t st st' where t: "\<And>q. q < length (code (body bc)) \<Longrightarrow> \<exists>st st'. check_instr (view_of bc) t q st = Inr st'"
    using admitted_instr [OF assms(1,2)] by metis
  have o: "check_open (view_of bc) t q (inst_at (view_of bc) q) = Inr ()" if "q < length (code (body bc))" for q
    using t [OF that] check_instr_open by blast
  show "consumes_open (code (body bc) ! (pc + 1)) \<longleftrightarrow> produces_open (code (body bc) ! pc)"
    using o [OF assms(2)] o [OF nx] nx assms(2) by (auto simp: check_open_def inst_at_view result_simps)
qed

lemma admitted_consumer:
  assumes "admitted d bc" "pc < length (code (body bc))" "consumes_open (code (body bc) ! pc)"
  shows "0 < pc" "open_window_fits (code (body bc) ! pc) (code (body bc) ! (pc - 1))"
proof -
  obtain t st st' where "check_instr (view_of bc) t pc st = Inr st'" by (rule admitted_instr [OF assms(1,2)])
  from check_instr_open [OF this] show "0 < pc" "open_window_fits (code (body bc) ! pc) (code (body bc) ! (pc - 1))"
    using assms(2,3) by (auto simp: check_open_def inst_at_view result_simps)
qed

lemma admitted_jump:
  assumes "admitted d bc" "pc < length (code (body bc))" "is_transfer (opcode (code (body bc) ! pc))"
  obtains q where "jumped (pc + 1) (sint (sj (code (body bc) ! pc))) = Some q" "q < length (code (body bc))"
    "\<not> consumes_open (code (body bc) ! q)"
proof -
  obtain t st st' where t: "jump_targets (view_of bc) = Inr t"
    "\<And>q. q < length (code (body bc)) \<Longrightarrow> \<exists>st st'. check_instr (view_of bc) t q st = Inr st'"
    using admitted_instr [OF assms(1,2)] by metis
  obtain q where q: "jump_target pc (code (body bc) ! pc) (length (code (body bc))) = Some q" "t ! q"
    using jump_targets_ok(2) [OF t(1), of pc] assms(2,3) by (auto simp: inst_at_view)
  then have len: "q < length (code (body bc))" and "int q = int pc + 1 + sint (sj (code (body bc) ! pc))"
    by (auto simp: jump_target_def Let_def split: if_splits)
  then have "jumped (pc + 1) (sint (sj (code (body bc) ! pc))) = Some q"
    by (auto simp: jumped_def)
  moreover have "check_open (view_of bc) t q (inst_at (view_of bc) q) = Inr ()"
    using t(2) [OF len] check_instr_open by blast
  then have "\<not> consumes_open (code (body bc) ! q)" using q(2) len by (auto simp: check_open_def inst_at_view result_simps)
  ultimately show thesis using that len by blast
qed

lemma admitted_operands:
  assumes "admitted d bc" "pc < length (code (body bc))" "arith_decode (opcode (code (body bc) ! pc)) = None"
  obtains st st' where "check_operands (view_of bc) pc (code (body bc) ! pc) st = Inr st'"
    "known_opcode (opcode (code (body bc) ! pc))"
proof -
  obtain t st st' where c: "check_instr (view_of bc) t pc st = Inr st'" by (rule admitted_instr [OF assms(1,2)])
  show thesis using that c assms(2,3) by (auto simp: check_instr_def Let_def inst_at_view result_simps)
qed

lemma admitted_arith:
  assumes "admitted d bc" "pc < length (code (body bc))"
    "arith_decode (opcode (code (body bc) ! pc)) = Some (a, operands)"
  shows "check_arith (view_of bc) pc (code (body bc) ! pc) operands = Inr ()"
proof -
  obtain t st st' where c: "check_instr (view_of bc) t pc st = Inr st'" by (rule admitted_instr [OF assms(1,2)])
  show ?thesis using c assms(2,3) by (auto simp: check_instr_def Let_def inst_at_view result_simps)
qed

section \<open>Positions\<close>

abbreviation admitted_frame_code :: "frame \<Rightarrow> bool" where
  "admitted_frame_code f \<equiv> \<exists>d. admitted d (fr_bytecode f)"

lemma positioned_next:
  assumes "admitted d (fr_bytecode f)" "pc < length (fr_code f)" "opcode (fr_code f ! pc) \<noteq> OP_RETURN"
  shows "\<not> produces_open (fr_code f ! pc) \<Longrightarrow> positioned f (pc + 1) (fr_top f)"
    and "produces_open (fr_code f ! pc) \<Longrightarrow> fr_bottom f + unat (field_a (fr_code f ! pc)) \<le> len \<Longrightarrow>
      positioned f (pc + 1) len"
proof -
  have nx: "pc + 1 < length (fr_code f)" "consumes_open (fr_code f ! (pc + 1)) = produces_open (fr_code f ! pc)"
    using admitted_next [OF assms] by blast+
  show "\<not> produces_open (fr_code f ! pc) \<Longrightarrow> positioned f (pc + 1) (fr_top f)"
    and "produces_open (fr_code f ! pc) \<Longrightarrow> fr_bottom f + unat (field_a (fr_code f ! pc)) \<le> len \<Longrightarrow>
      positioned f (pc + 1) len"
    unfolding positioned_def nx(2) using nx(1) by simp_all
qed

lemma positioned_jump:
  assumes "admitted d (fr_bytecode f)" "pc < length (fr_code f)" "is_transfer (opcode (fr_code f ! pc))"
  obtains q where "jumped (pc + 1) (sint (sj (fr_code f ! pc))) = Some q" "positioned f q (fr_top f)"
proof -
  obtain q where q: "jumped (pc + 1) (sint (sj (fr_code f ! pc))) = Some q" "q < length (fr_code f)"
    "\<not> consumes_open (fr_code f ! q)"
    by (rule admitted_jump [OF assms])
  show thesis by (rule that [OF q(1)]) (simp add: positioned_def q)
qed

section \<open>Upvalues of the running frame\<close>

lemma at_closure:
  assumes at: "running_at k s0 f gs b ip len s"
  shows "\<exists>d. admitted d (fr_bytecode f)" "length (fr_literals f) = length (string_literals (body (fr_bytecode f)))"
    "length (fr_upvalues f) = length (upvalues (body (fr_bytecode f)))" "r \<in> set (fr_upvalues f) \<Longrightarrow> captured s r"
proof -
  have "frame_ok s f" "vm_ok s" using running_atD [OF at] by simp_all
  then obtain p c where c: "closures s p = Some c" "fr_bytecode f = cl_bytecode c" "fr_literals f = cl_literals c"
    "fr_upvalues f = cl_upvalues c" and "vm_ok s" by (auto simp: frame_ok_def)
  then have "closure_ok s c" by (auto simp: vm_ok_def intro: ranI)
  then show "\<exists>d. admitted d (fr_bytecode f)"
    "length (fr_literals f) = length (string_literals (body (fr_bytecode f)))"
    "length (fr_upvalues f) = length (upvalues (body (fr_bytecode f)))" "r \<in> set (fr_upvalues f) \<Longrightarrow> captured s r"
    using c by (auto simp: closure_ok_def)
qed

lemma captured_slot_in_stack:
  "uv_inv s \<Longrightarrow> captured s r \<Longrightarrow> pool_get (upvalue_pool s) r = UvOpen i \<Longrightarrow> (i, r) \<in> set (open_upvalues s) \<and> i < length (stack s)"
  using uv_inv_open [of s i r] uv_inv_in_stack [of s i r] captured_bound [of s r] by (simp add: pool_get_def)

lemma vc_upvalue_ref [vc]:
  assumes at: "running_at k s0 f gs b ip len s" and i: "unat i < length (fr_upvalues f)"
    and Q: "\<And>r. captured s r \<Longrightarrow> Q r s"
  shows "wp tm (upvalue_ref f i) Q E s"
proof -
  have c: "captured s (fr_upvalues f ! unat i)" using at_closure(4) [OF at] i by simp
  have "uv_inv s" using running_atD(4) [OF at] by (simp add: vm_ok_def)
  then have "case pool_get (upvalue_pool s) (fr_upvalues f ! unat i) of
      UvOpen idx \<Rightarrow> idx < length (stack s) | UvClosed _ \<Rightarrow> True"
    using captured_slot_in_stack [OF _ c] by (simp split: upvalue.split)
  then show ?thesis using i Q [OF c] captured_bound [OF c] by (simp add: upvalue_ref_def wp_rules)
qed

lemma set_upvalue_fields:
  "frames (set_upvalue_value r v s) = frames s" "call_stack (set_upvalue_value r v s) = call_stack s"
  "vararg_stack (set_upvalue_value r v s) = vararg_stack s" "call_depth (set_upvalue_value r v s) = call_depth s"
  "metamethod_depth (set_upvalue_value r v s) = metamethod_depth s"
  "stack_bottom (set_upvalue_value r v s) = stack_bottom s" "open_upvalues (set_upvalue_value r v s) = open_upvalues s"
  "closures (set_upvalue_value r v s) = closures s" "length (stack (set_upvalue_value r v s)) = length (stack s)"
  "interrupt (set_upvalue_value r v s) = interrupt s" "poisoned (set_upvalue_value r v s) = poisoned s"
  "native_call_depth (set_upvalue_value r v s) = native_call_depth s" "active_rust_fn (set_upvalue_value r v s) = active_rust_fn s"
  by (simp_all add: set_upvalue_value_def split: upvalue.split)

lemma at_set_upvalue:
  assumes at: "running_at k s0 f gs b ip len s" and r: "captured s r"
  shows "running_at k s0 f gs b ip len (set_upvalue_value r v s)"
proof -
  note d = running_atD [OF at]
  have uv: "uv_inv s" using d(4) by (simp add: vm_ok_def)
  have inv: "uv_inv (set_upvalue_value r v s)" "\<And>x. captured (set_upvalue_value r v s) x = captured s x"
    using set_upvalue_inv [OF uv] r by (simp_all add: captured_def)
  have ok: "vm_ok (set_upvalue_value r v s)"
    using d(4) inv by (simp add: vm_ok_def closure_ok_def set_upvalue_fields)
  have "stack (set_upvalue_value r v s) ! i = stack s ! i" if "i \<notin> fst ` set (open_upvalues s)" for i
  proof (cases "pool_get (upvalue_pool s) r")
    case (UvOpen j)
    then have "(j, r) \<in> set (open_upvalues s)" using captured_slot_in_stack [OF uv r] by blast
    then have "j \<noteq> i" using that by force
    then show ?thesis by (simp add: set_upvalue_value_def UvOpen)
  qed (simp add: set_upvalue_value_def)
  then have "kept (fr_bottom f) s (set_upvalue_value r v s)"
    using d(8) by (simp add: kept_def set_upvalue_fields open_below_def)
  then show ?thesis
    using d ok by (intro running_at_step [OF at]) (simp_all add: set_upvalue_fields call_stack_hd)
qed

lemma close_fields:
  assumes "uv_inv s"
  shows "frames (close_upvalues l s) = frames s" "call_stack (close_upvalues l s) = call_stack s"
  "vararg_stack (close_upvalues l s) = vararg_stack s" "call_depth (close_upvalues l s) = call_depth s"
  "metamethod_depth (close_upvalues l s) = metamethod_depth s" "stack (close_upvalues l s) = stack s"
  "stack_bottom (close_upvalues l s) = stack_bottom s" "closures (close_upvalues l s) = closures s"
  "interrupt (close_upvalues l s) = interrupt s" "pending (close_upvalues l s) = pending s"
  "poisoned (close_upvalues l s) = poisoned s" "native_call_depth (close_upvalues l s) = native_call_depth s" "active_rust_fn (close_upvalues l s) = active_rust_fn s"
  by (simp_all add: close_upvalues_def split: prod.split)

lemma vm_ok_close:
  assumes "vm_ok s" "l \<le> length vs"
  shows "vm_ok ((close_upvalues l s)\<lparr>stack := vs\<rparr>)"
proof -
  have uv: "uv_inv s" using assms by (simp add: vm_ok_def)
  have "captured (close_upvalues l s) = captured s"
    by (simp add: fun_eq_iff captured_def live_close_upvalues [OF uv])
  then show ?thesis
    using assms close_upvalues_inv [OF uv assms(2)] by (simp add: vm_ok_def closure_ok_def close_fields [OF uv])
qed

lemma open_below_close: "uv_inv s \<Longrightarrow> j \<le> l \<Longrightarrow> open_below j (close_upvalues l s) = open_below j s"
  by (auto simp: open_below_def close_upvalues_list filter_filter case_prod_beta intro!: filter_cong)

lemma kept_close: "uv_inv s \<Longrightarrow> j \<le> l \<Longrightarrow> j \<le> length (stack s) \<Longrightarrow> kept j s (close_upvalues l s)"
  by (simp add: kept_def close_fields open_below_close)

lemma close_guard: "vm_ok s \<Longrightarrow> list_all (\<lambda>(i, _). l \<le> i \<longrightarrow> i < length (stack s)) (open_upvalues s)"
  using opens_in_stack [of s] by (auto simp: list_all_iff)

lemma wp_close: "vm_ok s \<Longrightarrow> wp tm (close_vm l) Q E s \<longleftrightarrow> Q () (close_upvalues l s)"
  using close_guard [of s l] by (simp add: close_vm_def wp_rules)

lemma vc_close [vc]:
  assumes at: "running_at k s0 f gs b ip len s" and l: "fr_bottom f \<le> l" "l \<le> len"
    and Q: "\<And>s'. running_at k s0 f gs b ip len s' \<Longrightarrow> Q () s'"
  shows "wp tm (close_vm l) Q E s"
proof -
  note d = running_atD [OF at]
  have uv: "uv_inv s" using d(4) by (simp add: vm_ok_def)
  have "vm_ok ((close_upvalues l s)\<lparr>stack := stack s\<rparr>)" using d(4,9) l by (intro vm_ok_close) simp_all
  moreover have "(close_upvalues l s)\<lparr>stack := stack s\<rparr> = close_upvalues l s" by (simp add: close_fields [OF uv, symmetric])
  moreover have "\<forall>(i, _) \<in> set (open_upvalues (close_upvalues l s)). i < fr_top f"
    using d(10) by (auto simp: close_upvalues_list [OF uv])
  ultimately have "running_at k s0 f gs b ip len (close_upvalues l s)"
    using d l by (intro running_at_step [OF at]) (simp_all add: close_fields [OF uv] call_stack_hd kept_close [OF uv])
  then show ?thesis using Q wp_close [OF d(4)] by simp
qed

section \<open>Captures\<close>

lemma find_or_create_fields:
  "find_or_create_upvalue i s = (r, s') \<Longrightarrow>
   s' = s\<lparr>upvalue_pool := upvalue_pool s', open_upvalues := open_upvalues s'\<rparr>"
  by (auto simp: find_or_create_upvalue_def split: sum.splits prod.splits)

lemma open_below_created:
  assumes "uv_inv s" "find_or_create_upvalue i s = (r, s')" "j \<le> i"
  shows "open_below j s' = open_below j s"
  using assms(1,2)
proof (cases rule: find_or_create_cases)
  case (created pos p')
  have "filter P (take pos xs) @ filter P (drop pos xs) = filter P xs" for P and xs :: "(nat \<times> nat) list"
    by (simp flip: filter_append)
  then show ?thesis using created(3) assms(3) by (simp add: open_below_def)
qed simp

lemma at_capture_local:
  assumes at: "running_at k s0 f gs b ip len s" and i: "fr_bottom f + unat i < len" "unat i < fr_size f"
    and foc: "find_or_create_upvalue (fr_bottom f + unat i) s = (r, s')"
  shows "running_at k s0 f gs b ip len s'" and "captured s' r" and "captured s x \<Longrightarrow> captured s' x"
proof -
  note d = running_atD [OF at]
  let ?i = "fr_bottom f + unat i"
  have uv: "uv_inv s" using d(4) by (simp add: vm_ok_def)
  note eq = find_or_create_fields [OF foc]
  have uv': "uv_inv s'" using find_or_create_inv [OF uv _ foc] i d(9) by simp
  have cap: "captured s y \<Longrightarrow> captured s' y" for y
    using find_or_create_value(3) [OF uv foc] by (simp add: captured_def)
  then show "captured s x \<Longrightarrow> captured s' x" .
  have new: "(?i, r) \<in> set (open_upvalues s')" by (rule find_or_create_open(1) [OF uv foc])
  then show "captured s' r"
    using uv_inv_open [OF uv', of ?i r] uv_inv_pool [OF uv'] by (auto simp: captured_def live_def pool_ok_def)
  have "closures s' = closures s" using arg_cong [OF eq, of closures] by simp
  then have ok: "vm_ok s'" using d(4) uv' cap arg_cong [OF eq, of poisoned] by (auto simp: vm_ok_def closure_ok_def)
  have op: "\<forall>(j, _) \<in> set (open_upvalues s'). j < fr_top f"
    using uv foc
  proof (cases rule: find_or_create_cases)
    case (created pos p')
    then have "set (open_upvalues s') \<subseteq> insert (?i, r) (set (open_upvalues s))"
      by (auto dest: in_set_takeD in_set_dropD)
    then show ?thesis using d(10,12) i by auto
  qed (use d(10) in simp)
  have "kept (fr_bottom f) s s'"
    using arg_cong [OF eq, of stack] arg_cong [OF eq, of closures] arg_cong [OF eq, of interrupt]
      arg_cong [OF eq, of native_call_depth] arg_cong [OF eq, of active_rust_fn] d(8) open_below_created [OF uv foc, of "fr_bottom f"]
    by (simp add: kept_def)
  then show "running_at k s0 f gs b ip len s'"
    using d ok op arg_cong [OF eq, of frames] arg_cong [OF eq, of call_stack] arg_cong [OF eq, of vararg_stack]
      arg_cong [OF eq, of call_depth] arg_cong [OF eq, of metamethod_depth] arg_cong [OF eq, of stack_bottom]
      arg_cong [OF eq, of stack]
    by (intro running_at_step [OF at]) (simp_all add: call_stack_hd)
qed

definition can_capture :: "frame \<Rightarrow> nat \<Rightarrow> upvalue_desc \<Rightarrow> bool" where
  "can_capture f len d \<longleftrightarrow>
     (case d of UpLocal i \<Rightarrow> fr_bottom f + unat i < len \<and> unat i < fr_size f
      | UpUpvalue i \<Rightarrow> unat i < length (fr_upvalues f))"

lemma wp_done: "wp tm (\<lambda>s. case g s of (r, s') \<Rightarrow> (Done r, s')) Q E s \<longleftrightarrow> (case g s of (r, s') \<Rightarrow> Q r s')"
  by (simp add: wp_def split: prod.split)

lemma vc_capture:
  assumes at: "running_at k s0 f gs b ip len s" and ds: "\<forall>d \<in> set ds. can_capture f len d"
    and Q: "\<And>rs s'. running_at k s0 f gs b ip len s' \<Longrightarrow> length rs = length ds \<Longrightarrow> \<forall>r \<in> set rs. captured s' r \<Longrightarrow>
      (\<And>x. captured s x \<Longrightarrow> captured s' x) \<Longrightarrow> Q rs s'"
  shows "wp tm (capture_vm f ds) Q E s"
  using at ds Q
proof (induction ds arbitrary: s Q)
  case Nil
  then show ?case by (simp add: wp_rules)
next
  case (Cons d ds)
  have step: "wp tm (capture_vm f ds) (\<lambda>rs. wp tm (return_vm (r # rs)) Q E) E s1"
    if "running_at k s0 f gs b ip len s1" "captured s1 r" "\<And>x. captured s x \<Longrightarrow> captured s1 x" for s1 r
  proof (rule Cons.IH [OF that(1)])
    show "\<forall>d \<in> set ds. can_capture f len d" using Cons.prems(2) by simp
    fix rs s' assume "running_at k s0 f gs b ip len s'" "length rs = length ds" "\<forall>r \<in> set rs. captured s' r"
      "\<And>x. captured s1 x \<Longrightarrow> captured s' x"
    then show "wp tm (return_vm (r # rs)) Q E s'" using Cons.prems(3) [of s' "r # rs"] that(2,3) by (simp add: wp_rules)
  qed
  show ?case
  proof (cases d)
    case (UpLocal i)
    obtain r s1 where foc: "find_or_create_upvalue (fr_bottom f + unat i) s = (r, s1)" by fastforce
    have "fr_bottom f + unat i < len" "unat i < fr_size f" using Cons.prems(2) UpLocal by (auto simp: can_capture_def)
    then have "wp tm (capture_vm f ds) (\<lambda>rs. wp tm (return_vm (r # rs)) Q E) E s1"
      using at_capture_local [OF Cons.prems(1) _ _ foc] by (intro step) simp_all
    then show ?thesis using UpLocal foc by (simp add: wp_rules capture_one_def wp_done)
  next
    case (UpUpvalue i)
    have i: "unat i < length (fr_upvalues f)" using Cons.prems(2) UpUpvalue by (auto simp: can_capture_def)
    then have "captured s (fr_upvalues f ! unat i)" using at_closure(4) [OF Cons.prems(1)] by simp
    then show ?thesis using step [OF Cons.prems(1)] i UpUpvalue by (simp add: wp_rules capture_one_def)
  qed
qed

section \<open>Closures and varargs\<close>

lemma can_capture_child:
  assumes at: "running_at k s0 f gs b ip len s" and bc: "bc \<in> set (nested (fr_bytecode f))" and len: "fr_top f \<le> len"
  shows "\<forall>d \<in> set (upvalues (body bc)). can_capture f len d" and "\<exists>d. admitted d bc"
proof -
  obtain d where d: "admitted d (fr_bytecode f)" using at_closure(1) [OF at] by blast
  note child = admitted_nested [OF d bc]
  then show "\<exists>d. admitted d bc" by blast
  show "\<forall>d \<in> set (upvalues (body bc)). can_capture f len d"
    using child admitted_sizes(1) [OF d] at_closure(3) [OF at] running_atD(12) [OF at] len
    by (auto simp: validate_child_def result_simps can_capture_def split: upvalue_desc.split)
qed

lemma vc_closure [vc]:
  assumes W: "world_quiet W" and at: "running_at k s0 f gs b ip len s" and len: "fr_top f \<le> len"
    and i: "unat i < length (nested (fr_bytecode f))" and dst: "fr_bottom f \<le> dst" "dst < len"
    and Q: "\<And>s'. running_at k s0 f gs b ip len s' \<Longrightarrow> Q () s'" and E: "\<And>s'. entered k s0 s' \<Longrightarrow> E s'"
  shows "wp tm (reg_closure W f dst i) Q E s"
proof -
  define bc where "bc = nested (fr_bytecode f) ! unat i"
  note child = can_capture_child [OF at nth_mem [OF i] len, folded bc_def]
  have rt: "wp tm (world_vm (w_runtime W bc)) (\<lambda>ls s'. running_at k s0 f gs b ip len s'
      \<and> length ls = length (string_literals (body bc))) E s"
  proof -
    have "case w_runtime W bc s of (Inr ls, s') \<Rightarrow> quiet s s' \<and> length ls = length (string_literals (body bc))
        | (Inl _, s') \<Rightarrow> quiet s s'"
      using W by (simp add: world_quiet_def)
    moreover have "E s'" if "quiet s s'" for s' using E [OF running_at_entered [OF at_quiet [OF at that]]] .
    ultimately show ?thesis using at_quiet [OF at] by (auto simp: wp_rules split: prod.splits sum.splits)
  qed
  have alloc: "wp tm (\<lambda>s. case w_alloc_closure W c s of (p, s') \<Rightarrow> (Done p, s'))
      (\<lambda>p s'. running_at k s0 f gs b ip len s') E s1"
    if "running_at k s0 f gs b ip len s1" "closure_ok s1 c" for c s1
  proof -
    have "case w_alloc_closure W c s1 of (p, s') \<Rightarrow> quiet s1 s' \<and> closures s' p = Some c"
      using W that(2) running_atD(4) [OF that(1)] by (auto simp: world_quiet_def)
    then show ?thesis using at_quiet [OF that(1)] by (auto simp: wp_done split: prod.splits)
  qed
  show ?thesis
    unfolding reg_closure_def bc_def [symmetric] wp_bind
  proof (rule vc_nth [OF i, folded bc_def], rule wp_mono [OF rt], erule conjE)
    fix ls :: "val list" and s1 assume s1: "running_at k s0 f gs b ip len s1" and ls: "length ls = length (string_literals (body bc))"
    show "wp tm (capture_vm f (upvalues (body bc)))
      (\<lambda>refs. wp tm (\<lambda>s. case w_alloc_closure W \<lparr>cl_bytecode = bc, cl_literals = ls, cl_upvalues = refs\<rparr> s of
          (p, s') \<Rightarrow> (Done p, s')) (\<lambda>p. wp tm (set_reg dst (VObj p)) Q E) E) E s1"
    proof (rule vc_capture [OF s1 child(1)])
      fix refs s2 assume s2: "running_at k s0 f gs b ip len s2" "length refs = length (upvalues (body bc))"
        "\<forall>r \<in> set refs. captured s2 r"
      then have "closure_ok s2 \<lparr>cl_bytecode = bc, cl_literals = ls, cl_upvalues = refs\<rparr>"
        using ls child(2) by (simp add: closure_ok_def)
      from alloc [OF s2(1) this]
      show "wp tm (\<lambda>s. case w_alloc_closure W \<lparr>cl_bytecode = bc, cl_literals = ls, cl_upvalues = refs\<rparr> s of
          (p, s') \<Rightarrow> (Done p, s')) (\<lambda>p. wp tm (set_reg dst (VObj p)) Q E) E s2"
        by (rule wp_mono) (use dst Q in \<open>auto intro: vc_set_reg\<close>)
    qed
  qed
qed

lemma last_key_max: "sorted_wrt (<) (map fst xs) \<Longrightarrow> e \<in> set xs \<Longrightarrow> fst e \<le> fst (last xs)" for xs :: "(nat \<times> 'b) list"
  by (induction xs rule: rev_induct) (auto simp: sorted_wrt_append)

lemma last_open_max: "vm_ok s \<Longrightarrow> check_window j s = Inr () \<Longrightarrow> opens_below j s"
proof -
  assume ok: "vm_ok s" and w: "check_window j s = Inr ()"
  have "sorted_wrt (<) (map fst (open_upvalues s))" using ok by (simp add: vm_ok_def uv_inv_def)
  then have "fst e \<le> fst (last (open_upvalues s))" if "e \<in> set (open_upvalues s)" for e
    using that by (rule last_key_max)
  then show ?thesis using w by (fastforce simp: check_window_def opens_below_def ensure_def split: if_splits)
qed

lemma vc_vararg_fixed [vc]:
  assumes at: "running_at k s0 f gs b ip len s" and dst: "fr_bottom f \<le> dst" "dst + unat n \<le> len"
    and Q: "\<And>s'. running_at k s0 f gs b ip len s' \<Longrightarrow> Q () s'"
  shows "wp tm (reg_vararg dst (RetFixed n)) Q E s"
proof -
  obtain ci cis where cs: "call_stack s = ci # cis" using running_atD(3) [OF at] by (cases "call_stack s") auto
  then have "ci_vararg_start ci \<le> length (vararg_stack s)" using running_atD(5) [OF at] by (simp add: accounted_def)
  moreover have "wp tm (set_regs dst (fit_results (unat n) vs)) Q E s" for vs
    using dst Q by (intro vc_set_regs [OF at]) (simp_all add: fit_results_def min_def)
  ultimately show ?thesis using cs by (simp add: reg_vararg_def wp_def Let_def)
qed

lemma vc_vararg_all [vc]:
  assumes at: "running_at k s0 f gs b ip len s" and dst: "fr_bottom f \<le> dst" "dst \<le> len"
    and Q: "\<And>s' len'. running_at k s0 f gs b ip len' s' \<Longrightarrow> dst \<le> len' \<Longrightarrow> Q () s'"
    and E: "\<And>s'. entered k s0 s' \<Longrightarrow> E s'"
  shows "wp tm (reg_vararg dst RetAll) Q E s"
proof -
  note d = running_atD [OF at]
  obtain ci cis where cs: "call_stack s = ci # cis" using d(3) by (cases "call_stack s") auto
  then have v: "ci_vararg_start ci \<le> length (vararg_stack s)" using d(5) by (simp add: accounted_def)
  let ?vs = "drop (ci_vararg_start ci) (vararg_stack s)"
  have "Q () (s\<lparr>stack := take dst (stack s) @ ?vs\<rparr>)" if w: "check_window dst s = Inr ()"
  proof -
    have below: "opens_below dst s" using last_open_max [OF d(4) w] .
    have "running_at k s0 f gs b ip (length (take dst (stack s) @ ?vs)) (s\<lparr>stack := take dst (stack s) @ ?vs\<rparr>)"
      using dst d below by (intro at_stack [OF at]) (auto simp: opens_below_def min_def)
    then show ?thesis using Q d(9) dst by simp
  qed
  then have "wp tm (bind_vm (try_vm (check_window dst)) (\<lambda>_.
      bind_vm (try_vm (\<lambda>s. check_stack_space (length ?vs - (length (stack s) - dst)) s)) (\<lambda>_.
      update_vm (\<lambda>s. s\<lparr>stack := take dst (stack s) @ ?vs\<rparr>)))) Q E s"
    using E [OF running_at_entered [OF at]] by (simp add: wp_rules)
  then show ?thesis using cs v by (simp add: reg_vararg_def wp_def Let_def)
qed

section \<open>Callees\<close>

lemma calm_refl: "vm_ok s \<Longrightarrow> j \<le> length (stack s) \<Longrightarrow> calm j s s"
  by (simp add: calm_def kept_refl)

lemma at_calm:
  assumes at: "running_at k s0 f gs b ip len s" and c: "calm j s s'" and j: "fr_bottom f \<le> j"
  shows "running_at k s0 f gs b ip (length (stack s')) s'"
proof -
  have "kept (fr_bottom f) s s'" using c j kept_mono by (auto simp: calm_def)
  then show ?thesis
    using running_atD [OF at] c by (intro running_at_step [OF at]) (simp_all add: calm_def call_stack_hd)
qed

text \<open>
  A callee with its function and arguments in the slots from \<open>j\<close> on top of the stack.
\<close>

definition call_ready :: "nat \<Rightarrow> vm_state \<Rightarrow> bool" where
  "call_ready j s \<longleftrightarrow> vm_ok s \<and> accounted s \<and> opens_below j s"

fun fits :: "ret_count \<Rightarrow> nat \<Rightarrow> nat \<Rightarrow> bool" where
  "fits (RetFixed n) j len \<longleftrightarrow> len = j + unat n"
| "fits RetAll j len \<longleftrightarrow> j \<le> len"

definition call_safe :: "bool \<Rightarrow> bool \<Rightarrow> (u8 \<Rightarrow> ret_count \<Rightarrow> unit vm) \<Rightarrow> bool" where
  "call_safe tm b call \<longleftrightarrow>
     (\<forall>n expected j s. call_ready j s \<longrightarrow> length (stack s) = j + 1 + unat n \<longrightarrow> stack_bottom s \<le> j \<longrightarrow>
        (b \<longrightarrow> interrupt s) \<longrightarrow>
        wp tm (call n expected) (\<lambda>_ s'. calm j s s' \<and> fits expected j (length (stack s')))
          (\<lambda>s'. calm j s s' \<and> length (stack s') = j) s)"

text \<open>A window pushed on top of a stack, and the chain units held for its call.\<close>

lemma calm_window:
  assumes "calm j (s\<lparr>stack := stack s @ vs, metamethod_depth := m\<rparr>) s'" "length (stack s) = j"
  shows "calm j s (s'\<lparr>metamethod_depth := metamethod_depth s\<rparr>)"
  using assms by (auto simp: calm_def kept_def open_below_def nth_append)

lemma wp_releasing:
  "wp tm (releasing units m) Q E s \<longleftrightarrow>
     wp tm m (\<lambda>x s'. units \<le> metamethod_depth s' \<and> Q x (s'\<lparr>metamethod_depth := metamethod_depth s' - units\<rparr>))
       (\<lambda>s'. units \<le> metamethod_depth s' \<and> E (s'\<lparr>metamethod_depth := metamethod_depth s' - units\<rparr>)) s"
  by (auto simp: wp_def releasing_def release_chain_charges_def bind_vm_def expect_vm_def update_vm_def
      split: prod.split outcome.split)

lemma window_ready:
  assumes at: "running_at k s0 f gs b ip len s"
  shows "call_ready len (s\<lparr>stack := stack s @ vs, metamethod_depth := metamethod_depth s + u\<rparr>)"
  using running_atD [OF at] opens_in_stack [OF running_atD(4) [OF at]]
  by (auto simp: call_ready_def accounted_def opens_below_def intro!: vm_ok_stack)

lemma vc_window:
  assumes call: "call_safe tm b call" and at: "running_at k s0 f gs b ip len s"
    and s1: "s1 = s\<lparr>stack := stack s @ vs, metamethod_depth := metamethod_depth s + u\<rparr>" and n: "length vs = 1 + unat n"
    and Q: "\<And>s'. running_at k s0 f gs b ip (length (stack s')) s' \<Longrightarrow> fits expected len (length (stack s')) \<Longrightarrow> Q () s'"
    and E: "\<And>s'. entered k s0 s' \<Longrightarrow> E s'"
  shows "wp tm (releasing u (call n expected)) Q E s1"
proof -
  note d = running_atD [OF at]
  have ready: "call_ready len s1" unfolding s1 by (rule window_ready [OF at])
  have res: "wp tm (call n expected) (\<lambda>_ s'. calm len s1 s' \<and> fits expected len (length (stack s')))
      (\<lambda>s'. calm len s1 s' \<and> length (stack s') = len) s1"
    using call ready d(6,8,9) n at by (simp add: call_safe_def s1 running_at_def)
  have again: "running_at k s0 f gs b ip (length (stack s')) (s'\<lparr>metamethod_depth := metamethod_depth s' - u\<rparr>)
      \<and> u \<le> metamethod_depth s'"
    if c: "calm len s1 s'" for s'
  proof -
    have m: "metamethod_depth s' = metamethod_depth s + u" using c by (simp add: calm_def s1)
    have "calm len s (s'\<lparr>metamethod_depth := metamethod_depth s\<rparr>)"
      by (rule calm_window [OF c [unfolded s1] d(9)])
    from at_calm [OF at this] show ?thesis using m d(8,9) by simp
  qed
  show ?thesis unfolding wp_releasing
  proof (rule wp_mono [OF res]; elim conjE)
    fix x :: unit and s' assume c: "calm len s1 s'" and "fits expected len (length (stack s'))"
    then show "u \<le> metamethod_depth s' \<and> Q x (s'\<lparr>metamethod_depth := metamethod_depth s' - u\<rparr>)"
      using again [OF c] Q [of "s'\<lparr>metamethod_depth := metamethod_depth s' - u\<rparr>"] by simp
  next
    fix s' assume c: "calm len s1 s'"
    then show "u \<le> metamethod_depth s' \<and> E (s'\<lparr>metamethod_depth := metamethod_depth s' - u\<rparr>)"
      using again [OF c] E [OF running_at_entered] by blast
  qed
qed

lemma vc_window_plain:
  assumes "call_safe tm b call" "running_at k s0 f gs b ip len s" "length vs = 1 + unat n"
    "\<And>s'. running_at k s0 f gs b ip (length (stack s')) s' \<Longrightarrow> fits expected len (length (stack s')) \<Longrightarrow> Q () s'"
    "\<And>s'. entered k s0 s' \<Longrightarrow> E s'"
  shows "wp tm (call n expected) Q E (s\<lparr>stack := stack s @ vs\<rparr>)"
  using vc_window [where u = 0 and Q = Q and E = E, OF assms(1,2) refl assms(3-5)]
  by (simp add: wp_releasing)

lemma vc_pop_into [vc]:
  assumes at: "running_at k s0 f gs b ip (Suc len) s" and len: "fr_top f \<le> len" and dst: "fr_bottom f \<le> dst" "dst < len"
    and Q: "\<And>s'. running_at k s0 f gs b ip len s' \<Longrightarrow> Q () s'"
  shows "wp tm (pop_into dst) Q E s"
proof -
  note d = running_atD [OF at]
  have "running_at k s0 f gs b ip (length (butlast (stack s))) (s\<lparr>stack := butlast (stack s)\<rparr>)"
    using d len by (intro at_stack [OF at]) (auto simp: butlast_conv_take)
  then have "running_at k s0 f gs b ip len (s\<lparr>stack := butlast (stack s)\<rparr>)" using d(9) by simp
  from vc_set_reg [where Q = Q, OF this dst Q] show ?thesis using d(9)
    by (auto simp: pop_into_def wp_bind wp_basic)
qed

section \<open>Handlers of table accesses\<close>

lemma record_window:
  "record_call_site ip (s\<lparr>stack := vs, metamethod_depth := m\<rparr>) =
   (record_call_site ip s)\<lparr>stack := vs, metamethod_depth := m\<rparr>"
  "stack (record_call_site ip s) = stack s" "metamethod_depth (record_call_site ip s) = metamethod_depth s"
  by (simp_all add: record_call_site_def split: list.split)

text \<open>A resolver that ends at a handler has left its window on the stack of a running frame.\<close>

lemma window_pushedE:
  assumes "window_pushed n u s s'" "running_at k s0 f gs b ip len s"
  obtains s1 vs where "running_at k s0 f gs b ip len s1" "length vs = n"
    "record_call_site j s' = s1\<lparr>stack := stack s1 @ vs, metamethod_depth := metamethod_depth s1 + u\<rparr>"
proof -
  obtain s1 vs where s1: "quiet s s1" "length vs = n"
    "s' = s1\<lparr>stack := stack s1 @ vs, metamethod_depth := metamethod_depth s1 + u\<rparr>"
    using assms(1) by (auto simp: window_pushed_def)
  have "running_at k s0 f gs b ip len (record_call_site j s1)" using at_record [OF at_quiet [OF assms(2) s1(1)]] .
  then show thesis by (rule that [OF _ s1(2)]) (simp add: s1(3) record_window)
qed

lemma vc_index_call:
  assumes call: "call_safe tm b call" and win: "window_pushed 3 u s s'" and at: "running_at k s0 f gs b ip len s"
    and len: "fr_top f \<le> len" and dst: "fr_bottom f \<le> dst" "dst < len"
    and Q: "\<And>s'. running_at k s0 f gs b ip len s' \<Longrightarrow> Q () s'" and E: "\<And>s'. entered k s0 s' \<Longrightarrow> E s'"
  shows "wp tm (index_call call dst u j) Q E s'"
proof -
  obtain s1 vs where s1: "running_at k s0 f gs b ip len s1" "length vs = 3"
    "record_call_site j s' = s1\<lparr>stack := stack s1 @ vs, metamethod_depth := metamethod_depth s1 + u\<rparr>"
    by (rule window_pushedE [OF win at])
  have "wp tm (releasing u (call 2 (RetFixed 1))) (\<lambda>_. wp tm (pop_into dst) Q E) E (record_call_site j s')"
    by (rule vc_window [OF call s1(1) s1(3)]) (use s1(2) len dst Q E in \<open>auto intro: vc_pop_into\<close>)
  then show ?thesis by (simp add: index_call_def wp_bind wp_basic)
qed

lemma vc_index_arm [vc]:
  assumes W: "world_quiet W" and call: "call_safe tm b call" and at: "running_at k s0 f gs b ip len s"
    and len: "fr_top f \<le> len" and dst: "fr_bottom f \<le> dst" "dst < len"
    and Q: "\<And>s'. running_at k s0 f gs b ip len s' \<Longrightarrow> Q () s'" and E: "\<And>s'. entered k s0 s' \<Longrightarrow> E s'"
  shows "wp tm (index_arm W call inst j dst receiver key) Q E s"
proof -
  have w: "case w_index W inst receiver key s of
      (Inr (IndexCall u), s') \<Rightarrow> window_pushed 3 u s s' | (_, s') \<Rightarrow> quiet s s'"
    using W by (simp add: world_quiet_def)
  obtain r s' where rs: "w_index W inst receiver key s = (r, s')" by fastforce
  consider e where "r = Inl e" "quiet s s'" | v where "r = Inr (IndexValue v)" "quiet s s'"
    | u where "r = Inr (IndexCall u)" "window_pushed 3 u s s'"
    using w rs by (cases r) (auto split: index_outcome.splits)
  then show ?thesis
  proof cases
    case 1
    then show ?thesis using rs E [OF running_at_entered [OF at_quiet [OF at]]] by (simp add: index_arm_def wp_rules)
  next
    case 2
    then show ?thesis using rs vc_set_reg [where Q = Q, OF at_quiet [OF at] dst Q]
      by (simp add: index_arm_def wp_bind wp_world)
  next
    case 3
    then show ?thesis using rs vc_index_call [where Q = Q and E = E, OF call _ at len dst Q E]
      by (simp add: index_arm_def wp_bind wp_world)
  qed
qed

lemma vc_newindex_arm [vc]:
  assumes W: "world_quiet W" and call: "call_safe tm b call" and at: "running_at k s0 f gs b ip len s"
    and Q: "\<And>s'. running_at k s0 f gs b ip len s' \<Longrightarrow> Q () s'" and E: "\<And>s'. entered k s0 s' \<Longrightarrow> E s'"
  shows "wp tm (newindex_arm W call inst j receiver key v) Q E s"
proof -
  have w: "case w_newindex W inst receiver key v s of
      (Inr (Some u), s') \<Rightarrow> window_pushed 4 u s s' | (_, s') \<Rightarrow> quiet s s'"
    using W by (simp add: world_quiet_def)
  obtain r s' where rs: "w_newindex W inst receiver key v s = (r, s')" by fastforce
  consider e where "r = Inl e" "quiet s s'" | "r = Inr None" "quiet s s'"
    | u where "r = Inr (Some u)" "window_pushed 4 u s s'"
    using w rs by (cases r) (auto split: option.splits)
  then show ?thesis
  proof cases
    case 1
    then show ?thesis using rs E [OF running_at_entered [OF at_quiet [OF at]]] by (simp add: newindex_arm_def wp_rules)
  next
    case 2
    then show ?thesis using rs Q [OF at_quiet [OF at]] by (simp add: newindex_arm_def wp_rules)
  next
    case 3
    obtain s1 vs where s1: "running_at k s0 f gs b ip len s1" "length vs = 4"
      "record_call_site j s' = s1\<lparr>stack := stack s1 @ vs, metamethod_depth := metamethod_depth s1 + u\<rparr>"
      by (rule window_pushedE [OF 3(2) at])
    have "wp tm (releasing u (call 3 (RetFixed 0))) Q E (record_call_site j s')"
      by (rule vc_window [OF call s1(1) s1(3)]) (use s1(2) Q E in simp_all)
    then show ?thesis using rs 3 by (simp add: newindex_arm_def newindex_call_def wp_bind wp_basic wp_world)
  qed
qed

lemma vc_reg_len [vc]:
  assumes W: "world_quiet W" and call: "call_safe tm b call" and at: "running_at k s0 f gs b ip len s"
    and len: "fr_top f \<le> len" and dst: "fr_bottom f \<le> dst" "dst < len"
    and Q: "\<And>s'. running_at k s0 f gs b ip len s' \<Longrightarrow> Q () s'" and E: "\<And>s'. entered k s0 s' \<Longrightarrow> E s'"
  shows "wp tm (reg_len W call j dst v) Q E s"
proof -
  have w: "case w_length W v s of (Inr None, s') \<Rightarrow> window_pushed 3 0 s s' | (_, s') \<Rightarrow> quiet s s'"
    using W by (simp add: world_quiet_def)
  obtain r s' where rs: "w_length W v s = (r, s')" by fastforce
  consider e where "r = Inl e" "quiet s s'" | x where "r = Inr (Some x)" "quiet s s'"
    | "r = Inr None" "window_pushed 3 0 s s'"
    using w rs by (cases r) (auto split: option.splits)
  then show ?thesis
  proof cases
    case 1
    then show ?thesis using rs E [OF running_at_entered [OF at_quiet [OF at]]] by (simp add: reg_len_def wp_rules)
  next
    case 2
    then show ?thesis using rs vc_set_reg [where Q = Q, OF at_quiet [OF at] dst Q] by (simp add: reg_len_def wp_bind wp_world)
  next
    case 3
    then have "wp tm (index_call call dst 0 j) Q E s'" by (intro vc_index_call [OF call _ at len dst]) (use Q E in auto)
    then show ?thesis using rs 3
      by (simp add: reg_len_def len_call_def index_call_def wp_bind wp_basic wp_world wp_releasing)
  qed
qed

section \<open>Rust callees\<close>

lemma calm_stack:
  assumes "calm j s s'" "take j vs = take j (stack s')" "j \<le> length vs" "opens_below j s"
  shows "calm j s (s'\<lparr>stack := vs\<rparr>)"
proof -
  have "kept j s' (s'\<lparr>stack := vs\<rparr>)" by (rule kept_stack [OF assms(2,3)])
  then have "kept j s (s'\<lparr>stack := vs\<rparr>)" using assms(1) kept_trans by (auto simp: calm_def)
  moreover have "vm_ok (s'\<lparr>stack := vs\<rparr>)"
    using assms by (intro vm_ok_stack) (auto simp: calm_def opens_below_def)
  ultimately show ?thesis using assms(1) by (simp add: calm_def)
qed

lemma call_ready_callee: "call_ready j s \<Longrightarrow> call_ready j (s\<lparr>stack_bottom := i, active_rust_fn := r\<rparr>)"
  by (simp add: call_ready_def accounted_def opens_below_def)

lemma calm_bottom: "calm j (s\<lparr>stack_bottom := i\<rparr>) s' \<Longrightarrow> calm j s (s'\<lparr>stack_bottom := stack_bottom s\<rparr>)"
  by (simp add: calm_def kept_def open_below_def)

lemma callbacks_calmD:
  "callbacks_calm W \<Longrightarrow> call_ready (stack_bottom s) s \<Longrightarrow> stack_bottom s \<le> length (stack s) \<Longrightarrow>
   calm (stack_bottom s) s (snd (w_rust_fn W f s))"
  by (simp add: callbacks_calm_def call_ready_def)

lemma keep_results_calm:
  assumes c: "calm j s s1" and below: "opens_below j s" and bot: "stack_bottom s1 = j"
  shows "wp tm (keep_results j n old) (\<lambda>m s'. \<exists>vs. calm j s (s1\<lparr>stack := vs\<rparr>) \<and> s' = s1\<lparr>stack := vs, stack_bottom := old\<rparr>
      \<and> length vs = j + unat m) (\<lambda>s'. s' = s1\<lparr>stack_bottom := old\<rparr>) s1"
proof -
  have len: "j \<le> length (stack s1)" using c by (simp add: calm_def kept_def)
  let ?vs = "take j (stack s1) @ drop (length (stack s1) - unat n) (stack s1)"
  have "calm j s (s1\<lparr>stack := ?vs\<rparr>)" using len by (intro calm_stack [OF c _ _ below]) simp_all
  moreover have "calm j s (s1\<lparr>stack := stack s1\<rparr>)" using c by simp
  ultimately show ?thesis using len bot
    by (auto simp: wp_def keep_results_def get_top_def Let_def intro: exI [of _ ?vs] exI [of _ "stack s1"])
qed

lemma invoke_rust_fn_calm:
  assumes W: "callbacks_calm W" and ready: "call_ready j s" and j: "j \<le> length (stack s)"
  shows "wp tm (invoke_rust_fn W f j) (\<lambda>n s'. calm j s s' \<and> length (stack s') = j + unat n \<and> \<not> interrupt s) (calm j s) s"
proof -
  let ?s = "s\<lparr>stack_bottom := j, active_rust_fn := Some f\<rparr>"
  obtain r s1 where rs: "w_rust_fn W f ?s = (r, s1)" by fastforce
  have "call_ready j ?s" by (rule call_ready_callee [OF ready])
  then have "calm (stack_bottom ?s) ?s (snd (w_rust_fn W f ?s))"
    using j by (intro callbacks_calmD [OF W]) simp_all
  then have c: "calm j ?s s1" by (simp add: rs)
  then have np: "\<not> poisoned s1" by (simp add: calm_def vm_ok_def)
  define s2 where "s2 = s1\<lparr>active_rust_fn := active_rust_fn s\<rparr>"
  let ?b = "s\<lparr>stack_bottom := j\<rparr>"
  have c2: "calm j ?b s2" using c by (simp add: s2_def calm_def kept_def open_below_def)
  have leave: "calm j s (s2\<lparr>stack_bottom := stack_bottom s\<rparr>)" by (rule calm_bottom [OF c2])
  have below: "opens_below j ?b" using ready by (simp add: call_ready_def opens_below_def)
  have bot: "stack_bottom s2 = j" using c2 by (simp add: calm_def)
  have keep: "wp tm (keep_results j n (stack_bottom s)) (\<lambda>n s'. calm j s s' \<and> length (stack s') = j + unat n) (calm j s) s2" for n
    by (rule wp_mono [OF keep_results_calm [OF c2 below bot]]) (auto dest: calm_bottom simp: leave)
  have "wp tm (\<lambda>s. case w_rust_fn W f (s\<lparr>stack_bottom := j, active_rust_fn := Some f\<rparr>) of (result, s1) \<Rightarrow>
         if poisoned s1 then (Panicked, s1)
         else
           (let s2 = s1\<lparr>active_rust_fn := active_rust_fn s\<rparr>
            in case result of
                 Inl e \<Rightarrow> (Failed e, s2\<lparr>stack_bottom := stack_bottom s\<rparr>)
               | Inr n \<Rightarrow> if fp_unsupported s1
                          then (Failed FloatEnvironment, s2\<lparr>stack_bottom := stack_bottom s\<rparr>)
                          else keep_results j n (stack_bottom s) s2))
      (\<lambda>n s'. calm j s s' \<and> length (stack s') = j + unat n) (calm j s) s"
    using keep leave np rs unfolding wp_def s2_def [symmetric]
    by (cases r) (simp_all add: Let_def s2_def)
  moreover have "calm j s s" using ready j by (simp add: call_ready_def calm_refl)
  ultimately show ?thesis unfolding invoke_rust_fn_def wp_bind wp_try
    by (auto simp: poll_interrupt_def ensure_def wp_def split: if_splits prod.splits outcome.splits)
qed

section \<open>Loop and table instructions\<close>

lemma vc_truncate:
  assumes at: "running_at k s0 f gs b ip len s" and n: "fr_top f \<le> n" "n \<le> len"
    and Q: "\<And>s'. running_at k s0 f gs b ip n s' \<Longrightarrow> Q () s'"
  shows "wp tm (update_vm (truncate_stack n)) Q E s"
proof -
  note d = running_atD [OF at]
  have "running_at k s0 f gs b ip (length (take n (stack s))) (s\<lparr>stack := take n (stack s)\<rparr>)"
    using d(8-10,12) n by (intro at_stack [OF at]) (auto simp: min_def)
  then have "running_at k s0 f gs b ip n (s\<lparr>stack := take n (stack s)\<rparr>)" using d(9) n by (simp add: min_absorb2)
  then show ?thesis using Q by (simp add: wp_basic truncate_stack_def)
qed

lemma vc_resize_top:
  assumes at: "running_at k s0 f gs b ip len s" and Q: "\<And>s'. running_at k s0 f gs b ip (fr_top f) s' \<Longrightarrow> Q () s'"
  shows "wp tm (update_vm (\<lambda>s. s\<lparr>stack := vec_resize (fr_top f) (stack s)\<rparr>)) Q E s"
  using at_resize_top [OF at] Q by (simp add: wp_basic)

lemma length_fit_results [simp]: "length (fit_results n vs) = n"
  by (simp add: fit_results_def min_def)

lemma vc_take_results:
  assumes at: "running_at k s0 f gs b ip (fr_top f + m) s" and a: "fr_bottom f \<le> a" "a + 3 + unat n \<le> fr_top f"
    and Q: "\<And>s'. running_at k s0 f gs b ip (fr_top f) s' \<Longrightarrow> Q () s'"
  shows "wp tm (take_tfor_results a n (fr_top f) m) Q E s"
  unfolding take_tfor_results_def wp_bind
proof (rule vc_get_regs [OF at])
  show "fr_top f + min (unat n) m \<le> fr_top f + m" by simp
  fix vs :: "val list"
  show "wp tm (set_regs (a + 3) (fit_results (unat n) vs)) (\<lambda>_. wp tm (update_vm (truncate_stack (fr_top f))) Q E) E s"
    by (rule vc_set_regs [OF at]) (use a Q in \<open>auto intro: vc_truncate\<close>)
qed

lemma vc_push_window:
  assumes at: "running_at k s0 f gs b ip len s" and Q: "Q () (s\<lparr>stack := stack s @ vs\<rparr>)"
    and E: "\<And>s'. entered k s0 s' \<Longrightarrow> E s'"
  shows "wp tm (push_window vs) Q E s"
  using Q E [OF running_at_entered [OF at]] by (simp add: push_window_def wp_rules)

lemma vc_tfor_rust:
  assumes W: "callbacks_calm W" and at: "running_at k s0 f gs b ip (fr_top f) s"
    and a: "fr_bottom f \<le> a" "a + 3 + unat n \<le> fr_top f"
    and Q: "\<And>s'. running_at k s0 f gs b ip (fr_top f) s' \<Longrightarrow> Q () s'" and E: "\<And>s'. entered k s0 s' \<Longrightarrow> E s'"
  shows "wp tm (instr_tfor_call_rust_fn W g a state control n) Q E s"
proof -
  note d = running_atD [OF at]
  let ?s = "s\<lparr>stack := stack s @ [state, control]\<rparr>"
  have "call_ready (fr_top f) ?s" using window_ready [OF at, where vs = "[state, control]" and u = 0] by simp
  from invoke_rust_fn_calm [OF W this, of tm g]
  have calm: "wp tm (invoke_rust_fn W g (fr_top f)) (\<lambda>n s'. calm (fr_top f) ?s s' \<and> length (stack s') = fr_top f + unat n \<and> \<not> interrupt ?s)
      (calm (fr_top f) ?s) ?s" using d(9) by simp
  have again: "running_at k s0 f gs b ip (length (stack s')) s'" if c: "calm (fr_top f) ?s s'" for s'
  proof -
    have "?s = s\<lparr>stack := stack s @ [state, control], metamethod_depth := metamethod_depth s\<rparr>" by simp
    then have "calm (fr_top f) s (s'\<lparr>metamethod_depth := metamethod_depth s\<rparr>)"
      using calm_window [OF _ d(9)] c by metis
    moreover have "s'\<lparr>metamethod_depth := metamethod_depth s\<rparr> = s'" using c by (simp add: calm_def)
    ultimately show ?thesis using at_calm [OF at, of "fr_top f" s'] d(12) by simp
  qed
  have "wp tm (invoke_rust_fn W g (fr_top f)) (\<lambda>m. wp tm (take_tfor_results a n (fr_top f) (unat m)) Q E) E ?s"
  proof (rule wp_mono [OF calm]; (elim conjE)?)
    fix m s' assume c: "calm (fr_top f) ?s s'" "length (stack s') = fr_top f + unat m"
    then show "wp tm (take_tfor_results a n (fr_top f) (unat m)) Q E s'"
      using again [OF c(1)] by (intro vc_take_results [where Q = Q, OF _ a Q]) simp_all
  next
    fix s' assume "calm (fr_top f) ?s s'"
    then show "E s'" using E [OF running_at_entered [OF again]] by blast
  qed
  then show ?thesis unfolding instr_tfor_call_rust_fn_def wp_bind wp_basic d(9)
    by (rule vc_push_window [OF at]) (rule E)
qed

lemma vc_tfor_call [vc]:
  assumes W: "callbacks_calm W" and call: "call_safe tm b call" and at: "running_at k s0 f gs b ip (fr_top f) s"
    and a: "fr_bottom f \<le> a" "a + 3 + unat n \<le> fr_top f"
    and Q: "\<And>s'. running_at k s0 f gs b ip (fr_top f) s' \<Longrightarrow> Q () s'" and E: "\<And>s'. entered k s0 s' \<Longrightarrow> E s'"
  shows "wp tm (instr_tfor_call W call a n) Q E s"
proof -
  note d = running_atD [OF at]
  have lua: "wp tm (call 2 RetAll) (\<lambda>_. wp tm (bind_vm (expect_vm (\<lambda>s. fr_top f \<le> length (stack s))) (\<lambda>_.
           bind_vm (read_vm (\<lambda>s. length (stack s) - fr_top f)) (\<lambda>returned.
           take_tfor_results a n (fr_top f) returned))) Q E) E (s\<lparr>stack := stack s @ [iter, state, control]\<rparr>)"
    for iter state control
  proof (rule vc_window_plain [OF call at])
    fix s' assume s': "running_at k s0 f gs b ip (length (stack s')) s'" "fits RetAll (fr_top f) (length (stack s'))"
    then have "running_at k s0 f gs b ip (fr_top f + (length (stack s') - fr_top f)) s'" by simp
    from vc_take_results [where Q = Q, OF this a Q] s'(2)
    show "wp tm (bind_vm (expect_vm (\<lambda>s. fr_top f \<le> length (stack s))) (\<lambda>_.
           bind_vm (read_vm (\<lambda>s. length (stack s) - fr_top f)) (\<lambda>returned.
           take_tfor_results a n (fr_top f) returned))) Q E s'"
      by (simp add: wp_bind wp_basic)
  qed (use E in simp_all)
  have iter: "wp tm (write_tfor_results a n x y) Q E s" for x y
    unfolding write_tfor_results_def by (rule vc_set_regs [OF at]) (use a Q in simp_all)
  show ?thesis unfolding instr_tfor_call_def wp_bind
    apply (rule vc_get_reg [OF at], use a in simp)+
    apply (split option.split, intro conjI impI allI)
     apply (simp only: wp_bind wp_basic d(9))
     apply (rule vc_push_window [OF at])
      apply (use lua in \<open>simp only: wp_bind wp_basic\<close>)
     apply (erule E)
    apply (simp only: wp_bind wp_basic, split option.split, intro conjI impI allI)
     apply (rule vc_tfor_rust [where Q = Q and E = E, OF W at a Q E]; assumption)
    apply (use iter in \<open>simp split: prod.split\<close>)
    done
qed

lemma vc_set_list [vc]:
  assumes W: "world_quiet W" and at: "running_at k s0 f gs b ip len s" and ra: "fr_bottom f \<le> ra" "ra + 1 \<le> len"
    and n: "\<And>n. set_list_count inst = Some n \<Longrightarrow> ra + 1 + unat n \<le> len"
    and Q: "\<And>s'. running_at k s0 f gs b ip (if set_list_count inst = None then fr_top f else len) s' \<Longrightarrow> Q () s'"
    and E: "\<And>s'. entered k s0 s' \<Longrightarrow> E s'"
  shows "wp tm (set_list_arm W f inst ra) Q E s"
proof -
  have last: "wp tm (if set_list_count inst = None then update_vm (\<lambda>s. s\<lparr>stack := vec_resize (fr_top f) (stack s)\<rparr>) else return_vm ()) Q E s'"
    if "running_at k s0 f gs b ip len s'" for s'
    using that Q by (auto simp: wp_basic dest: at_resize_top)
  have rest: "wp tm (bind_vm (set_list_cost count) (\<lambda>_. bind_vm (get_reg ra) (\<lambda>table. bind_vm (get_regs (ra + 1) count) (\<lambda>vs.
     bind_vm (world_vm (w_store W inst (table # vs))) (\<lambda>_.
       if set_list_count inst = None then update_vm (\<lambda>s. s\<lparr>stack := vec_resize (fr_top f) (stack s)\<rparr>)
       else return_vm ()))))) Q E s" if c: "ra + 1 + count \<le> len" for count
    unfolding wp_bind
    apply (rule vc_cost(3) [OF at _ E], rule vc_get_reg, assumption, use ra in simp, rule vc_get_regs, assumption, use c in simp)
     apply (rule vc_store [OF W], assumption, erule last, erule E)
    apply assumption
    done
  show ?thesis
    using rest [of "len - (ra + 1)"] rest n ra running_atD(9) [OF at]
    by (cases "set_list_count inst") (auto simp: set_list_arm_def wp_bind wp_basic)
qed

section \<open>Operands of an admitted instruction\<close>

definition checked :: "frame \<Rightarrow> instr \<Rightarrow> bool" where
  "checked f inst \<longleftrightarrow> (\<exists>pc st st'. check_operands (view_of (fr_bytecode f)) pc inst st = Inr st')"

lemmas operand_simps = check_operands_def Let_def check_reg_def check_registers_def check_pool_def check_index_def
  pool_operand_def meta_def count_operand_def set_list_count_def result_simps

lemma two_registers:
  "checked f inst \<Longrightarrow> opcode inst \<in> {OP_MOVE, OP_UNM, OP_NOT, OP_LEN, OP_BR_LT, OP_BR_LE, OP_BR_GT, OP_BR_GE, OP_BR_EQ, OP_BR_NE} \<Longrightarrow>
   unat (field_a inst) < fr_size f \<and> unat (field_b inst) < fr_size f"
  by (auto simp: checked_def operand_simps)

lemma three_registers:
  "checked f inst \<Longrightarrow> opcode inst \<in> {OP_GET_TABLE, OP_SET_TABLE, OP_INIT_INDEX, OP_LT, OP_LE, OP_GT, OP_GE, OP_EQ, OP_NE} \<Longrightarrow>
   unat (field_a inst) < fr_size f \<and> unat (field_b inst) < fr_size f \<and> unat (field_c inst) < fr_size f"
  by (auto simp: checked_def operand_simps)

lemma one_register:
  "checked f inst \<Longrightarrow> opcode inst \<in> {OP_NEW_TABLE, OP_TEST_FALSE, OP_TEST_TRUE, OP_LOAD_BOOL, OP_GET_BUILTIN, OP_SET_BUILTIN,
     OP_NEW_TABLE_PRESIZED} \<Longrightarrow> unat (field_a inst) < fr_size f"
  by (auto simp: checked_def operand_simps)

lemma u16_at_most: "\<not> 255 < n \<longleftrightarrow> unat n \<le> 255" for n :: u16
  by (simp add: not_less word_le_nat_alt)

lemma register_ranges:
  assumes "checked f inst"
  shows "opcode inst = OP_LOAD_NIL \<Longrightarrow> unat (field_a inst) + unat (field_b inst) \<le> fr_size f"
    "opcode inst = OP_CLOSE \<Longrightarrow> unat (field_a inst) \<le> fr_size f"
    "opcode inst = OP_CONCAT \<Longrightarrow> unat (field_a inst) < fr_size f \<and> unat (field_b inst) + unat (field_c inst) \<le> fr_size f"
    "opcode inst \<in> {OP_FOR_PREP, OP_FOR_LOOP, OP_TFOR_LOOP} \<Longrightarrow> unat (field_a inst) + 4 \<le> fr_size f"
  using assms by (auto simp: checked_def operand_simps)

lemma tfor_ranges:
  assumes "checked f inst" "opcode inst = OP_TFOR_CALL"
  shows "unat (field_a inst) + 3 + unat (field_b inst) \<le> fr_size f \<and> unat (field_b inst) \<le> 255"
proof -
  obtain pc st st' where "check_operands (view_of (fr_bytecode f)) pc inst st = Inr st'"
    using assms(1) by (auto simp: checked_def)
  then have "\<not> 255 < field_b inst \<and> unat (field_a inst) + (3 + unat (field_b inst)) \<le> fr_size f"
    using assms(2) by (auto simp: operand_simps)
  then show ?thesis by (simp add: u16_at_most)
qed

lemma set_list_ranges:
  assumes "checked f inst" "opcode inst = OP_SET_LIST"
  shows "unat (field_a inst) < fr_size f"
    "set_list_count inst = Some n \<Longrightarrow> unat (field_a inst) + 1 + unat n \<le> fr_size f"
  using assms by (auto simp: checked_def operand_simps split: if_splits)

lemma pool_indices:
  assumes "checked f inst"
  shows "opcode inst = OP_LOAD_NUM \<Longrightarrow> unat (field_a inst) < fr_size f \<and> unat (field_b inst) < length (number_literals (body (fr_bytecode f)))"
    "opcode inst \<in> {OP_LOAD_STR, OP_GET_GLOBAL, OP_SET_GLOBAL} \<Longrightarrow>
       unat (field_a inst) < fr_size f \<and> unat (field_b inst) < length (string_literals (body (fr_bytecode f)))"
    "opcode inst \<in> {OP_GET_UPVAL, OP_SET_UPVAL} \<Longrightarrow>
       unat (field_a inst) < fr_size f \<and> unat (field_b inst) < length (upvalues (body (fr_bytecode f)))"
    "opcode inst = OP_NEW_TABLE_TEMPLATE \<Longrightarrow>
       unat (field_a inst) < fr_size f \<and> unat (field_b inst) < length (table_templates (body (fr_bytecode f)))"
    "opcode inst = OP_CLOSURE \<Longrightarrow> unat (field_a inst) < fr_size f \<and> unat (field_b inst) < length (nested (fr_bytecode f))"
    "opcode inst = OP_GET_FIELD \<Longrightarrow> unat (field_a inst) < fr_size f \<and> unat (field_b inst) < fr_size f
       \<and> unat (field_c inst) < length (string_literals (body (fr_bytecode f)))"
    "opcode inst = OP_SELF \<Longrightarrow> unat (field_a inst) + 2 \<le> fr_size f \<and> unat (field_b inst) < fr_size f
       \<and> unat (field_c inst) < length (string_literals (body (fr_bytecode f)))"
    "opcode inst \<in> {OP_SET_FIELD, OP_INIT_FIELD, OP_INIT_FIELD_PINNED} \<Longrightarrow> unat (field_a inst) < fr_size f
       \<and> unat (field_c inst) < fr_size f \<and> unat (field_b inst) < length (string_literals (body (fr_bytecode f)))"
  using assms by (auto simp: checked_def operand_simps)

lemma unat_narrow: "unat n \<le> 255 \<Longrightarrow> unat (ucast n :: u8) = unat n" for n :: u16
  by (simp add: unsigned_ucast_eq take_bit_eq_mod)

lemma fixed_operands:
  "ret_from_operand c = RetFixed n \<Longrightarrow> unat c \<le> 255 \<Longrightarrow> unat n = unat c \<and> c \<noteq> OPEN_COUNT"
  "arg_from_operand c = ArgFixed n \<Longrightarrow> unat c \<le> 255 \<Longrightarrow> unat n = unat c \<and> c \<noteq> OPEN_COUNT"
  "ret_from_operand c = RetAll \<longleftrightarrow> c = OPEN_COUNT" "arg_from_operand c = ArgDynamic \<longleftrightarrow> c = OPEN_COUNT"
  by (auto simp: ret_from_operand_def arg_from_operand_def unat_narrow u16_at_most [symmetric] split: if_splits)

lemma count_operand_ok:
  "count_operand pc v lim = Inr r \<longleftrightarrow> (if v = OPEN_COUNT then r = None else unat v \<le> lim \<and> r = Some (unat v))"
  by (auto simp: count_operand_def)

lemmas count_simps = check_operands_def Let_def check_registers_def check_reg_def count_operand_ok result_simps
  MAX_FIXED_ARGS_def MAX_FIXED_RESULTS_def

lemma call_ranges:
  assumes "checked f inst" "opcode inst = OP_CALL"
  shows "unat (field_a inst) < fr_size f"
    "field_b inst \<noteq> OPEN_COUNT \<Longrightarrow> unat (field_a inst) + 1 + unat (field_b inst) \<le> fr_size f \<and> unat (field_b inst) \<le> 255"
  using assms by (auto simp: checked_def count_simps split: if_splits)

lemma tail_call_ranges:
  assumes "checked f inst" "opcode inst = OP_TAILCALL"
  shows "unat (field_a inst) < fr_size f"
    "field_b inst \<noteq> OPEN_COUNT \<Longrightarrow> unat (field_a inst) + 1 + unat (field_b inst) \<le> fr_size f \<and> unat (field_b inst) \<le> 255"
  using assms by (auto simp: checked_def count_simps split: if_splits)

lemma return_ranges:
  assumes "checked f inst" "opcode inst = OP_RETURN"
  shows "field_b inst \<noteq> OPEN_COUNT \<Longrightarrow> unat (field_a inst) + unat (field_b inst) \<le> fr_size f \<and> unat (field_b inst) \<le> 255"
    "field_b inst = OPEN_COUNT \<Longrightarrow> unat (field_a inst) < fr_size f"
  using assms by (auto simp: checked_def count_simps split: if_splits)

lemma vararg_ranges:
  assumes "checked f inst" "opcode inst = OP_VARARG"
  shows "field_b inst \<noteq> OPEN_COUNT \<Longrightarrow> unat (field_a inst) + unat (field_b inst) \<le> fr_size f \<and> unat (field_b inst) \<le> 255"
    "unat (field_a inst) < fr_size f"
  using assms by (auto simp: checked_def count_simps max_def split: if_splits)

section \<open>The arms that stay in the frame\<close>

lemma vc_if: "(c \<Longrightarrow> wp tm m Q E s) \<Longrightarrow> (\<not> c \<Longrightarrow> wp tm m' Q E s) \<Longrightarrow> wp tm (if c then m else m') Q E s"
  by simp

lemma vc_literal [vc]:
  assumes at: "running_at k s0 f gs b ip len s" and i: "unat i < length (string_literals (body (fr_bytecode f)))"
    and Q: "\<And>v. Q v s"
  shows "wp tm (frame_literal f i) Q E s"
  using at_closure(2) [OF at] i Q by (simp add: frame_literal_def wp_rules)

lemma vc_number [vc]:
  "unat i < length (number_literals (body (fr_bytecode f))) \<Longrightarrow> (\<And>v. Q v s) \<Longrightarrow> wp tm (get_number_constant f i) Q E s"
  by (simp add: get_number_constant_def wp_rules)

lemma vc_set_upvalue [vc]:
  "running_at k s0 f gs b ip len s \<Longrightarrow> captured s r \<Longrightarrow> (\<And>s'. running_at k s0 f gs b ip len s' \<Longrightarrow> Q () s') \<Longrightarrow>
   wp tm (update_vm (set_upvalue_value r v)) Q E s"
  using at_set_upvalue by (simp add: wp_basic)

lemma vc_read [vc]: "(\<And>x. Q x s) \<Longrightarrow> wp tm (read_vm g) Q E s"
  by (simp add: wp_basic)

lemma frame_reg:
  assumes "running_at k s0 f gs b ip len s" "n < fr_size f"
  shows "fr_bottom f + n < fr_top f"
  using running_atD(12) [OF assms(1)] assms(2) by simp

text \<open>The opcodes of a range, one by one.\<close>

lemma u8_at_most: "w \<le> n \<Longrightarrow> w \<in> set (map of_nat [0..<Suc (unat n)])" for w n :: u8
proof -
  assume "w \<le> n"
  then have "unat w \<in> set [0..<Suc (unat n)]" by (simp add: word_le_nat_alt less_Suc_eq_le del: upt_Suc)
  from imageI [OF this, of "of_nat :: nat \<Rightarrow> u8"] show ?thesis by simp
qed

lemma move_arm_safe:
  assumes W: "world_quiet W" and at: "running_at k s0 f gs b ip (fr_top f) s" and ck: "checked f inst"
    and op: "opcode inst \<le> OP_NEW_TABLE_TEMPLATE"
    and Q: "\<And>s'. running_at k s0 f gs b ip (fr_top f) s' \<Longrightarrow> Q () s'" and E: "\<And>s'. entered k s0 s' \<Longrightarrow> E s'"
  shows "wp tm (move_arm W f inst) Q E s"
proof -
  note top = running_atD(12) [OF at] and ups = at_closure(3) [OF at]
  note regs = two_registers [OF ck] one_register [OF ck] register_ranges [OF ck] pool_indices [OF ck]
  show ?thesis unfolding move_arm_def Let_def
    apply (intro vc_if)
    apply ((rule vc_bind vc_get_reg vc_literal vc_number vc_nth vc_upvalue_ref vc_read
        vc_set_reg vc_set_regs vc_value vc_store vc_close vc_set_upvalue
        | erule Q | erule E | assumption | rule at W | (use top ups regs in \<open>auto; fail\<close>))+)[15]
    using u8_at_most [OF op] by (simp_all add: upt_rec)
qed

lemma table_arm_safe:
  assumes W: "world_quiet W" and call: "call_safe tm b call" and at: "running_at k s0 f gs b ip len s"
    and len: "opcode inst \<noteq> OP_SET_LIST \<Longrightarrow> len = fr_top f" and ck: "checked f inst"
    and list: "opcode inst = OP_SET_LIST \<Longrightarrow> fr_bottom f + unat (field_a inst) + 1 \<le> len"
      "opcode inst = OP_SET_LIST \<Longrightarrow> set_list_count inst \<noteq> None \<Longrightarrow> len = fr_top f"
    and op: "\<not> opcode inst \<le> OP_NEW_TABLE_TEMPLATE" "opcode inst \<le> OP_SELF"
    and Q: "\<And>s'. running_at k s0 f gs b ip (fr_top f) s' \<Longrightarrow> Q () s'" and E: "\<And>s'. entered k s0 s' \<Longrightarrow> E s'"
  shows "wp tm (table_arm W call f inst j) Q E s"
proof -
  note top = running_atD(12) [OF at]
  note regs = two_registers [OF ck] three_registers [OF ck] pool_indices [OF ck]
  have set_list: "wp tm (set_list_arm W f inst (fr_bottom f + unat (field_a inst))) Q E s" if o: "opcode inst = OP_SET_LIST"
    using set_list_ranges [OF ck o] list [OF o] top Q E
    by (intro vc_set_list [OF W at]) (auto split: if_splits)
  show ?thesis
  proof (cases "opcode inst = OP_SET_LIST")
    case False
    have at': "running_at k s0 f gs b ip (fr_top f) s" using at len False by simp
    show ?thesis unfolding table_arm_def Let_def
      apply (intro vc_if)
      apply ((rule vc_bind vc_get_reg vc_literal vc_set_reg vc_index_arm vc_newindex_arm vc_store
          | erule Q | erule E | assumption | rule at' W call | (use top regs in \<open>auto; fail\<close>))+)[7]
      using False u8_at_most [OF op(2)] op(1) by (auto simp: upt_rec)
  qed (use set_list in \<open>simp add: table_arm_def\<close>)
qed

lemma arith_rows:
  assumes "arith_decode op = Some (a, operands)"
  shows "arithmetic_op op \<noteq> None"
    and "operands = RegConst \<Longrightarrow> map_option om_pool (opcode_entry op) = Some (Some (PoolNumber, FieldC))"
    and "operands = ConstReg \<Longrightarrow> map_option om_pool (opcode_entry op) = Some (Some (PoolNumber, FieldB))"
proof -
  have "op \<le> 41" "\<not> op < 24" using assms by (auto simp: arith_decode_def split: if_splits)
  with u8_at_most [OF this(1)] have "op \<in> set (map of_nat [24..<42])" by (auto simp: upt_rec)
  then show "arithmetic_op op \<noteq> None"
    and "operands = RegConst \<Longrightarrow> map_option om_pool (opcode_entry op) = Some (Some (PoolNumber, FieldC))"
    and "operands = ConstReg \<Longrightarrow> map_option om_pool (opcode_entry op) = Some (Some (PoolNumber, FieldB))"
    using assms by (auto simp: upt_rec arith_decode_def arithmetic_op_def meta_def)
qed

lemma arith_ranges:
  assumes "check_arith (view_of (fr_bytecode f)) pc inst operands = Inr ()"
    "arith_decode (opcode inst) = Some (a, operands)"
  shows "unat (field_a inst) < fr_size f" "operands \<noteq> ConstReg \<Longrightarrow> unat (field_b inst) < fr_size f"
    "operands \<noteq> RegConst \<Longrightarrow> unat (field_c inst) < fr_size f"
    "operands = RegConst \<Longrightarrow> unat (field_c inst) < length (number_literals (body (fr_bytecode f)))"
    "operands = ConstReg \<Longrightarrow> unat (field_b inst) < length (number_literals (body (fr_bytecode f)))"
proof -
  note g = arith_rows(2,3) [OF assms(2)]
  then have pool: "operands = RegConst \<Longrightarrow> pool_operand inst = Some (PoolNumber, field_c inst)"
    "operands = ConstReg \<Longrightarrow> pool_operand inst = Some (PoolNumber, field_b inst)"
    by (auto simp: pool_operand_def)
  note ck = assms(1) [unfolded check_arith_def Let_def check_reg_def check_registers_def check_pool_def check_index_def]
  show "unat (field_a inst) < fr_size f" using ck by (simp add: and_then_ok)
  show "operands \<noteq> ConstReg \<Longrightarrow> unat (field_b inst) < fr_size f"
    "operands \<noteq> RegConst \<Longrightarrow> unat (field_c inst) < fr_size f" using ck by (cases operands; simp add: and_then_ok)+
  show "operands = RegConst \<Longrightarrow> unat (field_c inst) < length (number_literals (body (fr_bytecode f)))"
    "operands = ConstReg \<Longrightarrow> unat (field_b inst) < length (number_literals (body (fr_bytecode f)))"
    using ck pool by (simp_all add: and_then_ok)
qed

lemma arith_arm_safe:
  assumes at: "running_at k s0 f gs b ip (fr_top f) s" and ck: "check_arith (view_of (fr_bytecode f)) pc inst operands = Inr ()"
    and dec: "arith_decode (opcode inst) = Some (a, operands)"
    and Q: "\<And>s'. running_at k s0 f gs b ip (fr_top f) s' \<Longrightarrow> Q () s'" and E: "\<And>s'. entered k s0 s' \<Longrightarrow> E s'"
  shows "wp tm (arith_arm W f inst (fr_bottom f) g operands) Q E s"
proof -
  note top = running_atD(12) [OF at] and regs = arith_ranges [OF ck dec]
  have rr: "wp tm (arith_rr W g (fr_bottom f + unat (field_a inst)) x y) Q E s" for x y
    unfolding arith_rr_def using regs(1) top Q E [OF running_at_entered [OF at]]
    by (auto simp: wp_basic split: option.split intro!: vc_set_reg [OF at])
  show ?thesis using regs top rr running_atD(9) [OF at]
    by (cases operands) (simp_all add: arith_arm_def wp_bind wp_basic wp_registers get_number_constant_def)
qed

section \<open>Operators, jumps and loops\<close>

lemma vc_for_prep:
  assumes at: "running_at k s0 f gs b ip len s" and slot: "fr_bottom f \<le> slot" "slot + 4 \<le> len"
    and j: "jumped ip0 offset = Some t"
    and Q: "\<And>s'. running_at k s0 f gs b ip len s' \<Longrightarrow> Q () s'" "\<And>s'. running_at k s0 f gs b t len s' \<Longrightarrow> Q () s'"
    and E: "\<And>s'. entered k s0 s' \<Longrightarrow> E s'"
  shows "wp tm (instr_for_prep slot ip0 offset) Q E s"
proof -
  have regs: "wp tm (set_regs slot [x, y, z, w]) Q E s" for x y z w
    by (rule vc_set_regs [OF at]) (use slot Q in simp_all)
  have jump: "wp tm (jump_to ip0 offset) Q E s" by (rule vc_jump [OF at j]) (rule Q)
  show ?thesis
    using slot running_atD(9) [OF at] regs jump E [OF running_at_entered [OF at]]
    by (simp add: instr_for_prep_def wp_bind wp_registers wp_basic split: option.split)
qed

lemma vc_for_loop:
  assumes at: "running_at k s0 f gs b ip len s" and slot: "fr_bottom f \<le> slot" "slot + 4 \<le> len"
    and j: "jumped ip0 offset = Some t"
    and Q: "\<And>s'. running_at k s0 f gs b ip len s' \<Longrightarrow> Q () s'"
      "\<And>s'. running_at k s0 f gs b t len s' \<Longrightarrow> b \<longrightarrow> 0 \<le> offset \<Longrightarrow> Q () s'"
    and E: "\<And>s'. entered k s0 s' \<Longrightarrow> E s'"
  shows "wp tm (instr_for_loop W slot ip0 offset) Q E s"
proof -
  have br: "wp tm (branch ip0 offset) (\<lambda>_. wp tm (bind_vm (set_reg slot x) (\<lambda>_. set_reg (slot + 3) x)) Q E) E s" for x
  proof (rule vc_branch [OF at j])
    fix s' assume s': "running_at k s0 f gs b t len s'" "b \<longrightarrow> 0 \<le> offset"
    show "wp tm (bind_vm (set_reg slot x) (\<lambda>_. set_reg (slot + 3) x)) Q E s'" unfolding wp_bind
      by (rule vc_set_reg [OF s'(1)], use slot in simp, use slot in simp, rule vc_set_reg, assumption)
        (use slot s' Q in simp_all)
  qed (rule E)
  show ?thesis
    using slot running_atD(9) [OF at] br E [OF running_at_entered [OF at]] Q(1) [OF at]
    by (simp add: instr_for_loop_def wp_bind wp_registers(1) wp_basic Let_def split: option.split)
qed

lemma vc_tfor_loop:
  assumes at: "running_at k s0 f gs b ip len s" and slot: "fr_bottom f \<le> slot" "slot + 4 \<le> len"
    and j: "jumped ip0 offset = Some t"
    and Q: "\<And>s'. running_at k s0 f gs b ip len s' \<Longrightarrow> Q () s'" "\<And>s'. running_at k s0 f gs b t len s' \<Longrightarrow> Q () s'"
  shows "wp tm (instr_tfor_loop slot ip0 offset) Q E s"
proof -
  have jump: "wp tm (jump_to ip0 offset) Q E s" by (rule vc_jump [OF at j]) (rule Q)
  have "wp tm (set_reg (slot + 2) x) Q E s" for x by (rule vc_set_reg [OF at]) (use slot Q in simp_all)
  then show ?thesis using slot running_atD(9) [OF at] jump
    by (simp add: instr_tfor_loop_def wp_bind wp_registers(1))
qed

lemma compare_rows:
  "op \<in> {OP_LT, OP_LE, OP_GT, OP_GE, OP_EQ, OP_NE} \<Longrightarrow> \<exists>c. from_value_opcode op = Some c"
  "op \<in> {OP_BR_LT, OP_BR_LE, OP_BR_GT, OP_BR_GE, OP_BR_EQ, OP_BR_NE} \<Longrightarrow> \<exists>c. from_branch_opcode op = Some c"
  by (auto simp: from_value_opcode_def from_branch_opcode_def compare_from_index_def)

lemma transfer_rows:
  "op \<in> {OP_JMP, OP_BR_LT, OP_BR_LE, OP_BR_GT, OP_BR_GE, OP_BR_EQ, OP_BR_NE, OP_TEST_FALSE, OP_TEST_TRUE, OP_FOR_PREP,
     OP_FOR_LOOP, OP_TFOR_LOOP} \<Longrightarrow> is_transfer op"
  by (auto simp: is_transfer_def layout_of_def meta_def)

lemma vc_record [vc]:
  "running_at k s0 f gs b ip len s \<Longrightarrow> (\<And>s'. running_at k s0 f gs b ip len s' \<Longrightarrow> Q () s') \<Longrightarrow>
   wp tm (update_vm (record_call_site j)) Q E s"
  using at_record by (simp add: wp_basic)

lemma vc_some: "\<exists>c. r = Some c \<Longrightarrow> (\<And>c. wp tm (g c) Q E s) \<Longrightarrow> wp tm (case r of None \<Rightarrow> m | Some c \<Rightarrow> g c) Q E s"
  by auto

lemma operator_arm_safe:
  assumes W: "world_quiet W" "callbacks_calm W" and call: "call_safe tm b call"
    and at: "running_at k s0 f gs b j (fr_top f) s" and ck: "checked f inst"
    and op: "\<not> opcode inst \<le> OP_POW_KR" "opcode inst \<le> OP_CLOSURE" "opcode inst \<notin> {OP_CALL, OP_RETURN, OP_VARARG}"
    and t: "is_transfer (opcode inst) \<Longrightarrow> jumped j (sint (sj inst)) = Some t"
    and Q: "\<And>s'. running_at k s0 f gs b j (fr_top f) s' \<Longrightarrow> Q () s'"
      "\<And>s'. running_at k s0 f gs b t (fr_top f) s' \<Longrightarrow> is_transfer (opcode inst) \<Longrightarrow>
         b \<and> opcode inst \<notin> {OP_FOR_PREP, OP_TFOR_LOOP} \<longrightarrow> 0 \<le> sint (sj inst) \<Longrightarrow> Q () s'"
    and E: "\<And>s'. entered k s0 s' \<Longrightarrow> E s'"
  shows "wp tm (operator_arm W call f inst j) Q E s"
proof -
  note top = running_atD(12) [OF at]
  note regs = two_registers [OF ck] three_registers [OF ck] one_register [OF ck] register_ranges [OF ck]
    pool_indices [OF ck] tfor_ranges [OF ck]
  have jmp: "wp tm (branch j (sint (sj inst))) Q E s"
    if "opcode inst \<in> {OP_JMP, OP_BR_LT, OP_BR_LE, OP_BR_GT, OP_BR_GE, OP_BR_EQ, OP_BR_NE, OP_TEST_FALSE, OP_TEST_TRUE}"
  proof -
    have tr: "is_transfer (opcode inst)" using that by (intro transfer_rows) auto
    show ?thesis by (rule vc_branch [OF at t [OF tr]]) (use Q(2) tr E in auto)
  qed
  have slots: "fr_bottom f \<le> fr_bottom f + unat (field_a inst)" "fr_bottom f + unat (field_a inst) + 4 \<le> fr_top f"
    if "opcode inst \<in> {OP_FOR_PREP, OP_FOR_LOOP, OP_TFOR_LOOP}" using register_ranges(4) [OF ck that] top by simp_all
  have prep: "wp tm (instr_for_prep (fr_bottom f + unat (field_a inst)) j (sint (sj inst))) Q E s"
    if o: "opcode inst = OP_FOR_PREP"
  proof -
    have tr: "is_transfer (opcode inst)" using o by (intro transfer_rows) simp
    show ?thesis by (rule vc_for_prep [OF at slots t [OF tr]]) (use o Q tr E in auto)
  qed
  have loop: "wp tm (instr_for_loop W (fr_bottom f + unat (field_a inst)) j (sint (sj inst))) Q E s"
    if o: "opcode inst = OP_FOR_LOOP"
  proof -
    have tr: "is_transfer (opcode inst)" using o by (intro transfer_rows) simp
    show ?thesis by (rule vc_for_loop [OF at slots t [OF tr]]) (use o Q tr E in auto)
  qed
  have tloop: "wp tm (instr_tfor_loop (fr_bottom f + unat (field_a inst)) j (sint (sj inst))) Q E s"
    if o: "opcode inst = OP_TFOR_LOOP"
  proof -
    have tr: "is_transfer (opcode inst)" using o by (intro transfer_rows) simp
    show ?thesis by (rule vc_tfor_loop [OF at slots t [OF tr]]) (use o Q tr in auto)
  qed
  show ?thesis unfolding operator_arm_def Let_def
    apply (intro vc_if)
    subgoal using regs top Q(1) E [OF running_at_entered [OF at]]
      by (auto simp: wp_bind wp_basic wp_registers(1) running_atD(9) [OF at] split: option.split intro!: vc_set_reg [OF at])
    subgoal by ((rule vc_bind vc_get_reg vc_set_reg | erule Q(1) | assumption | rule at | (use top regs in \<open>auto; fail\<close>))+)
    subgoal by ((rule vc_bind vc_get_reg vc_reg_len | erule Q(1) | erule E | assumption | rule at W call | (use top regs in \<open>auto; fail\<close>))+)
    subgoal by ((rule vc_bind vc_get_regs vc_value vc_set_reg | erule Q(1) | erule E | assumption | rule at W | (use top regs in \<open>auto; fail\<close>))+)
    subgoal by (rule vc_some, erule compare_rows)
        ((rule vc_bind vc_get_reg vc_compare vc_set_reg | erule Q(1) | erule E | assumption | rule at | (use top regs in \<open>auto; fail\<close>))+)
    subgoal by (rule jmp) simp
    subgoal by (rule vc_some, erule compare_rows)
        ((rule vc_bind vc_get_reg vc_compare vc_if vc_return jmp | rule Q(1) | erule E | assumption | rule at | (use top regs in \<open>auto; fail\<close>))+)
    subgoal by ((rule vc_bind vc_get_reg vc_if vc_return jmp | rule Q(1) | assumption | rule at | (use top regs in \<open>auto; fail\<close>))+)
    subgoal by ((rule vc_bind vc_get_reg vc_if vc_return jmp | rule Q(1) | assumption | rule at | (use top regs in \<open>auto; fail\<close>))+)
    subgoal by (rule prep)
    subgoal by (rule loop)
    subgoal by ((rule vc_bind vc_record vc_cost vc_tfor_call | erule Q(1) | erule E | assumption | rule at W call
          | (use top regs unat_narrow [of "field_b inst"] in \<open>auto; fail\<close>))+)
    subgoal by (rule tloop)
    subgoal by (rule vc_closure [OF W(1) at], (use top regs in \<open>auto; fail\<close>)+, erule Q(1), erule E)
    using op u8_at_most [OF op(2)] by (auto simp: upt_rec)
qed

end
