(* ===== verification/Vm_Calls.thy ===== *)
theory Vm_Calls
  imports Vm_Arms
begin

text \<open>
  Calls into Lua functions: admission lays out the callee's frame or leaves the caller as it was,
  the chain of \<open>__call\<close> handlers ends in an admitted callee, a Rust result or an error, and the
  call instruction pushes the frame that admission laid out.
\<close>

section \<open>Admission of a Lua callee\<close>

text \<open>
  What admission leaves for the frame of the callee in slot \<open>j\<close>: one activation record more, which
  owns the chain units charged since \<open>s\<close>, and the registers above the function slot.
\<close>

definition admitted_at :: "nat \<Rightarrow> vm_state \<Rightarrow> vm_state \<Rightarrow> bool" where
  "admitted_at j s s' \<longleftrightarrow>
     kept j s s' \<and> vm_ok s' \<and> accounted s' \<and> open_upvalues s' = open_upvalues s
     \<and> frames s' = frames s \<and> pending s' = pending s \<and> stack_bottom s' = j + 1 \<and> \<not> interrupt s
     \<and> (\<exists>ci. call_stack s' = ci # call_stack s \<and> ci_vararg_start ci = length (vararg_stack s)
          \<and> metamethod_depth s' = metamethod_depth s + unat (chain_units (ci_chain ci)))
     \<and> take (length (vararg_stack s)) (vararg_stack s') = vararg_stack s
     \<and> (\<exists>c. lua_function (stack s' ! j) s' = Some c
          \<and> length (stack s') = j + 1 + unat (max_stack (body (cl_bytecode c))))"

definition new_record :: "bytecode \<Rightarrow> vm_state \<Rightarrow> call_info" where
  "new_record bc s = \<lparr> ci_bytecode = bc, ci_ip = 0, ci_vararg_start = length (vararg_stack s), ci_chain = 0 \<rparr>"

lemma push_activation_layout:
  assumes "length (stack s) = j + 1 + unat n"
  shows "\<exists>m xs. j + 1 \<le> m \<and> m \<le> length (stack s) \<and>
    push_activation bc n s =
      s\<lparr> call_depth := call_depth s + 1, stack_bottom := j + 1, stack := take m (stack s),
         vararg_stack := vararg_stack s @ xs, call_stack := new_record bc s # call_stack s \<rparr>"
proof -
  let ?p = "num_params (body bc)"
  have le: "unat ?p < unat n" if "?p < n" using that by (simp add: word_less_nat_alt)
  consider "?p < n" "is_vararg (body bc)" | "?p < n" "\<not> is_vararg (body bc)" | "\<not> ?p < n" by blast
  then show ?thesis
  proof cases
    case 1
    then show ?thesis using assms le
      by (intro exI [of _ "length (stack s) - (unat n - unat ?p)"] exI [of _ "drop (length (stack s) - (unat n - unat ?p)) (stack s)"])
        (simp add: push_activation_def Let_def collect_varargs_def new_record_def)
  next
    case 2
    then show ?thesis using assms le
      by (intro exI [of _ "j + 1 + unat ?p"] exI [of _ "[]"])
        (simp add: push_activation_def Let_def truncate_stack_def new_record_def)
  next
    case 3
    then show ?thesis using assms
      by (intro exI [of _ "length (stack s)"] exI [of _ "[]"])
        (simp add: push_activation_def Let_def new_record_def)
  qed
qed

lemma chain_units_0 [simp]: "chain_units 0 = 0" "unat (chain_units (ci_chain (new_record bc s))) = 0"
  "ci_vararg_start (new_record bc s) = length (vararg_stack s)"
  by (simp_all add: chain_units_def new_record_def)

lemma record_units_simps [simp]: "record_units [] = 0"
  "record_units (ci # cis) = unat (chain_units (ci_chain ci)) + record_units cis"
  by (simp_all add: record_units_def)

lemma kept_fields:
  "kept j s0 s \<Longrightarrow> stack s' = stack s \<Longrightarrow> open_upvalues s' = open_upvalues s \<Longrightarrow> closures s' = closures s \<Longrightarrow>
   interrupt s' = interrupt s \<Longrightarrow> native_call_depth s' = native_call_depth s \<Longrightarrow> active_rust_fn s' = active_rust_fn s \<Longrightarrow>
   kept j s0 s'"
  by (simp add: kept_def open_below_def)

lemma vm_ok_fields:
  "vm_ok s \<Longrightarrow> stack s' = stack s \<Longrightarrow> open_upvalues s' = open_upvalues s \<Longrightarrow> closures s' = closures s \<Longrightarrow>
   upvalue_pool s' = upvalue_pool s \<Longrightarrow> poisoned s' = poisoned s \<Longrightarrow> vm_ok s'"
  by (simp add: vm_ok_def uv_inv_def closure_ok_def captured_def)

lemma kept_truncated:
  assumes "j \<le> m" "m \<le> length vs" "take m vs = take m (stack s)" "opens_below j s" "vm_ok s"
  shows "kept j s (s\<lparr>stack := vs\<rparr>)" "vm_ok (s\<lparr>stack := vs\<rparr>)"
proof -
  have "take j vs = take j (stack s)" using assms(1,3) by (metis min.absorb1 take_take)
  then show "kept j s (s\<lparr>stack := vs\<rparr>)" using assms by (intro kept_stack) simp_all
  show "vm_ok (s\<lparr>stack := vs\<rparr>)" using assms by (intro vm_ok_stack) (auto simp: opens_below_def)
qed

lemma admit_safe:
  assumes ready: "call_ready j s" and len: "length (stack s) = j + 1 + unat n" and bot: "stack_bottom s = old"
    and fn: "lua_function (stack s ! j) s = Some c" and tail: "tail \<longrightarrow> 0 < call_depth s"
  shows "wp tm (admit_lua_call (cl_bytecode c) n old tail)
    (\<lambda>_ s'. admitted_at j s s' \<and> ci_chain (hd (call_stack s')) = 0) (calm j s) s"
proof -
  obtain m xs where m: "j + 1 \<le> m" "m \<le> length (stack s)" and push: "push_activation (cl_bytecode c) n s =
      s\<lparr> call_depth := call_depth s + 1, stack_bottom := j + 1, stack := take m (stack s),
         vararg_stack := vararg_stack s @ xs, call_stack := new_record (cl_bytecode c) s # call_stack s \<rparr>"
    using push_activation_layout [OF len] by blast
  let ?top = "j + 1 + unat (max_stack (body (cl_bytecode c)))"
  let ?s = "push_activation (cl_bytecode c) n s"
  have ok: "vm_ok s" "opens_below j s" "accounted s" using ready by (simp_all add: call_ready_def)
  have calm: "calm j s s" using ok m by (intro calm_refl) simp_all
  have cut: "kept j s (s\<lparr>stack := take (j + 1) (take m (stack s))\<rparr>)" "vm_ok (s\<lparr>stack := take (j + 1) (take m (stack s))\<rparr>)"
    using m ok by (intro kept_truncated [of j "j + 1"]; simp add: min_def)+
  have reject: "wp tm (reject_admission e (j + 1) old) Q (calm j s) ?s" for e and Q :: "unit \<Rightarrow> vm_state \<Rightarrow> bool"
    using cut bot ok m
    by (simp add: reject_admission_def wp_bind wp_basic pop_activation_def wp_def bind_vm_def expect_vm_def
        update_vm_def release_chain_charges_def fail_vm_def push truncate_stack_def)
      (simp add: calm_def)
  have room: "j \<le> length (vec_resize ?top (take m (stack s)))" "take (j + 1) (vec_resize ?top (take m (stack s))) = take (j + 1) (stack s)"
    using m take_vec_resize [of "j + 1" ?top "take m (stack s)"] by (simp_all add: min_def)
  have fit: "kept j s (s\<lparr>stack := vec_resize ?top (take m (stack s))\<rparr>)" "vm_ok (s\<lparr>stack := vec_resize ?top (take m (stack s))\<rparr>)"
    using room m ok by (intro kept_truncated [of j "j + 1"]; simp)+
  have slot: "vec_resize ?top (take m (stack s)) ! j = stack s ! j"
    using arg_cong [OF room(2), of "\<lambda>vs. vs ! j"] by simp
  have admit: "admitted_at j s (?s\<lparr>stack := vec_resize ?top (stack ?s)\<rparr>)
      \<and> ci_chain (hd (call_stack ?s)) = 0" if "\<not> interrupt s"
  proof -
    let ?t = "?s\<lparr>stack := vec_resize ?top (stack ?s)\<rparr>"
    have "kept j s ?t" "vm_ok ?t" by (rule kept_fields [OF fit(1)] vm_ok_fields [OF fit(2)]; simp add: push)+
    moreover have "accounted ?t" using ok(3) by (auto simp: push accounted_def)
    moreover have "lua_function (stack ?t ! j) ?t = Some c"
      using fn slot by (simp add: push lua_function_def split: val.splits)
    ultimately show ?thesis using that by (simp add: push admitted_at_def) (simp add: new_record_def)
  qed
  show ?thesis using calm tail reject admit len
    by (simp add: admit_lua_call_def wp_rules poll_interrupt_def push split: sum.split)
qed

section \<open>Callable objects\<close>

text \<open>A round of the resolution: the window has grown over \<open>base\<close>, and the charges are still owned.\<close>

definition round_of :: "nat \<Rightarrow> vm_state \<Rightarrow> u8 \<Rightarrow> nat \<Rightarrow> vm_state \<Rightarrow> bool" where
  "round_of j base n charges s \<longleftrightarrow>
     (\<exists>vs. s = base\<lparr>stack := take j (stack base) @ vs, metamethod_depth := metamethod_depth base + charges\<rparr>
        \<and> length vs = 1 + unat n) \<and> charges \<le> unat n"

definition loop_result :: "nat \<Rightarrow> vm_state \<Rightarrow> u8 option outcome \<times> nat \<times> vm_state \<Rightarrow> bool" where
  "loop_result j base r \<longleftrightarrow>
     (case r of
        (Done (Some m), ch, s') \<Rightarrow> calm j base (s'\<lparr>metamethod_depth := metamethod_depth base\<rparr>)
          \<and> metamethod_depth s' = metamethod_depth base + ch \<and> length (stack s') = j + unat m \<and> \<not> interrupt base
      | (Done None, ch, s') \<Rightarrow> ch = 0 \<and> admitted_at j base s'
      | (Failed _, ch, s') \<Rightarrow> calm j base (s'\<lparr>metamethod_depth := metamethod_depth base\<rparr>)
          \<and> metamethod_depth s' = metamethod_depth base + ch
      | _ \<Rightarrow> False)"

lemma round_ready:
  assumes "round_of j base n charges s" "call_ready j base" "j \<le> length (stack base)"
  shows "call_ready j s" "length (stack s) = j + 1 + unat n"
proof -
  obtain vs where s: "s = base\<lparr>stack := take j (stack base) @ vs, metamethod_depth := metamethod_depth base + charges\<rparr>"
    and len: "length vs = 1 + unat n" using assms(1) by (auto simp: round_of_def)
  show "length (stack s) = j + 1 + unat n" using len assms(3) by (simp add: s)
  have "vm_ok (base\<lparr>stack := take j (stack base) @ vs\<rparr>)"
    using assms(2,3) by (intro vm_ok_stack) (auto simp: call_ready_def opens_below_def)
  then show "call_ready j s" using assms(2) by (simp add: s call_ready_def accounted_def opens_below_def)
qed

lemma calm_round:
  assumes "round_of j base n charges s" "calm j s s'" "j \<le> length (stack base)"
  shows "calm j base (s'\<lparr>metamethod_depth := metamethod_depth base\<rparr>)" "metamethod_depth s' = metamethod_depth base + charges"
  using assms by (auto simp: round_of_def calm_def kept_def open_below_def nth_append)

lemma bit_TAIL_CALLED: "bit TAIL_CALLED n \<longleftrightarrow> n = 31"
  unfolding TAIL_CALLED_def bit_push_bit_iff by (auto simp: bit_1_iff)

lemma with_units_charges: "charges < 2 ^ 31 \<Longrightarrow> unat (chain_units (with_units 0 (of_nat charges))) = charges"
proof -
  assume c: "charges < 2 ^ 31"
  have "chain_units (with_units 0 (of_nat charges)) = take_bit 31 (of_nat charges :: u32)"
    by (rule bit_word_eqI)
      (auto simp: chain_units_def with_units_def bit_TAIL_CALLED bit_simps)
  then show ?thesis using c by (simp add: take_bit_eq_mod unat_mod_distrib unat_of_nat)
qed

lemma admitted_round:
  assumes r: "round_of j base n charges s" and a: "admitted_at j s s'" "ci_chain (hd (call_stack s')) = 0"
    and j: "j \<le> length (stack base)" and ready: "call_ready j base"
  shows "admitted_at j base (transfer_charges charges s')"
proof -
  obtain vs where s: "s = base\<lparr>stack := take j (stack base) @ vs, metamethod_depth := metamethod_depth base + charges\<rparr>"
    and ch: "charges \<le> unat n" using r by (auto simp: round_of_def)
  have "unat n < 256" using unsigned_less [of n, where 'a = nat] by simp
  then have units: "unat (chain_units (with_units 0 (of_nat charges))) = charges" using ch by (intro with_units_charges) simp
  obtain ci where ci: "call_stack s' = ci # call_stack s" "ci_vararg_start ci = length (vararg_stack s)"
    "metamethod_depth s' = metamethod_depth s + unat (chain_units (ci_chain ci))" using a(1) by (auto simp: admitted_at_def)
  let ?ci = "ci\<lparr>ci_chain := with_units 0 (of_nat charges)\<rparr>"
  have t: "transfer_charges charges s' = s'\<lparr>call_stack := ?ci # call_stack base\<rparr>"
    using ci by (simp add: transfer_charges_def s)
  have m: "metamethod_depth s' = metamethod_depth base + charges" using ci a(2) by (simp add: s)
  have "kept j base s'" using a(1) j by (auto simp: admitted_at_def s kept_def open_below_def nth_append)
  moreover have "accounted (s'\<lparr>call_stack := ?ci # call_stack base\<rparr>)"
    using a(1) ci m units ready by (simp add: admitted_at_def accounted_def s call_ready_def)
  ultimately show ?thesis using a(1) ci units m
    by (simp add: t admitted_at_def s) (auto simp: lua_function_def split: val.splits)
qed

lemma round_grows:
  assumes "round_of j base n charges s" "n \<noteq> 255" "j \<le> length (stack base)" "u \<le> 1"
  shows "round_of j base (n + 1) (charges + u) ((insert_receiver j v s)\<lparr>metamethod_depth := metamethod_depth s + u\<rparr>)"
proof -
  obtain vs where s: "s = base\<lparr>stack := take j (stack base) @ vs, metamethod_depth := metamethod_depth base + charges\<rparr>"
    and len: "length vs = 1 + unat n" and ch: "charges \<le> unat n" using assms(1) by (auto simp: round_of_def)
  obtain x xs where "vs = x # xs" using len by (cases vs) auto
  then have "(insert_receiver j v s)\<lparr>metamethod_depth := metamethod_depth s + u\<rparr> =
      base\<lparr>stack := take j (stack base) @ (v # vs), metamethod_depth := metamethod_depth base + (charges + u)\<rparr>"
    using assms(3) by (simp add: insert_receiver_def s nth_append)
  then show ?thesis using len ch assms(2,4) next_arg_count [OF assms(2)] unfolding round_of_def
    by (intro conjI exI [of _ "v # vs"]) simp_all
qed

lemma remove_round:
  assumes r: "round_of j base n charges s" and j: "j \<le> length (stack base)" and ready: "call_ready j base"
  shows "call_ready j (remove_slot j s)" "j \<le> length (stack (remove_slot j s))"
    "calm j (remove_slot j s) s' \<Longrightarrow> calm j base (s'\<lparr>metamethod_depth := metamethod_depth base\<rparr>)"
    "calm j (remove_slot j s) s' \<Longrightarrow> metamethod_depth s' = metamethod_depth base + charges"
    "interrupt (remove_slot j s) = interrupt base"
proof -
  obtain vs where s: "s = base\<lparr>stack := take j (stack base) @ vs, metamethod_depth := metamethod_depth base + charges\<rparr>"
    and len: "length vs = 1 + unat n" using r by (auto simp: round_of_def)
  then have rs: "remove_slot j s = base\<lparr>stack := take j (stack base) @ tl vs, metamethod_depth := metamethod_depth base + charges\<rparr>"
    using j by (simp add: remove_slot_def drop_Suc)
  have "vm_ok (base\<lparr>stack := take j (stack base) @ tl vs\<rparr>)"
    using ready j by (intro vm_ok_stack) (auto simp: call_ready_def opens_below_def)
  then show "call_ready j (remove_slot j s)" using ready by (simp add: rs call_ready_def accounted_def opens_below_def)
  show "j \<le> length (stack (remove_slot j s))" "interrupt (remove_slot j s) = interrupt base" using j by (simp_all add: rs)
  show "calm j (remove_slot j s) s' \<Longrightarrow> calm j base (s'\<lparr>metamethod_depth := metamethod_depth base\<rparr>)"
    "calm j (remove_slot j s) s' \<Longrightarrow> metamethod_depth s' = metamethod_depth base + charges"
    using j by (auto simp: rs calm_def kept_def open_below_def nth_append)
qed

lemma callable_loop_safe:
  assumes W: "callbacks_calm W" and ready: "call_ready j base" and j: "j \<le> length (stack base)"
    and bot: "stack_bottom base = old" and tail: "shape_tail shape \<longrightarrow> 0 < call_depth base"
    and r: "round_of j base n charges s"
  shows "loop_result j base (callable_loop W j old shape n charges s)"
  using r
proof (induction "255 - unat n" arbitrary: n charges s rule: less_induct)
  case less
  let ?v = "stack s ! j"
  note rr = round_ready [OF less.prems ready j] and rem = remove_round [OF less.prems j ready]
  have idx: "j < length (stack s)" using rr(2) by simp
  have bots: "stack_bottom s = old" "shape_tail shape \<longrightarrow> 0 < call_depth s" "calm j s s"
    "metamethod_depth s = metamethod_depth base + charges"
    using less.prems bot tail rr(1) idx by (auto simp: round_of_def call_ready_def intro: calm_refl)
  have again: "loop_result j base (callable_loop W j old shape (n + 1) (charges + u)
      ((insert_receiver j h s)\<lparr>metamethod_depth := metamethod_depth s + u\<rparr>))" if "n \<noteq> 255" "u \<le> 1" for u h
    using less.hyps [OF _ round_grows [OF less.prems that(1) j that(2)]] next_arg_count [OF that(1)] arg_count_below [OF that(1)]
    by simp
  have fail: "loop_result j base (Failed e, charges, s)" for e
    using calm_round [OF less.prems bots(3) j] by (simp add: loop_result_def)
  have fail': "loop_result j base (Failed e, charges, insert_receiver j h s)" if "n \<noteq> 255" for e h
  proof -
    have g: "round_of j base (n + 1) charges (insert_receiver j h s)"
      using round_grows [OF less.prems that j, of 0 h] by (simp add: insert_receiver_def)
    have "calm j (insert_receiver j h s) (insert_receiver j h s)"
      using round_ready [OF g ready j] by (intro calm_refl) (auto simp: call_ready_def)
    then show ?thesis using calm_round [OF g _ j] by (simp add: loop_result_def)
  qed
  have rust: "loop_result j base (case map_outcome Some (invoke_rust_fn W f j (remove_slot j s)) of (r, s') \<Rightarrow> (r, charges, s'))" for f
    using invoke_rust_fn_calm [OF W rem(1,2), of False f] rem(3-5)
    by (auto simp: wp_def loop_result_def map_outcome_def split: prod.splits outcome.splits)
  have lua: "loop_result j base (case admit_lua_call (cl_bytecode c) n old (shape_tail shape) s of
      (Done _, s') \<Rightarrow> (Done None, 0, transfer_charges charges s') | (Failed e, s') \<Rightarrow> (Failed e, charges, s') | (_, s') \<Rightarrow> (Panicked, charges, s'))"
    if "lua_function ?v s = Some c" for c
    using admit_safe [OF rr bots(1) that bots(2), of False] admitted_round [OF less.prems _ _ j ready] calm_round [OF less.prems _ j]
    by (auto simp: wp_def loop_result_def split: prod.splits outcome.splits)
  show ?case
    unfolding callable_loop.simps [of W j old shape n charges s]
    using idx rust lua fail fail' again [where u = 0] again [where u = 1]
    by (auto simp: Let_def insert_receiver_def split: option.split sum.split)
qed

section \<open>Starting a call\<close>

definition begun :: "nat \<Rightarrow> vm_state \<Rightarrow> u8 option \<Rightarrow> vm_state \<Rightarrow> bool" where
  "begun j s r s' \<longleftrightarrow>
     (case r of Some m \<Rightarrow> calm j s s' \<and> length (stack s') = j + unat m \<and> \<not> interrupt s
      | None \<Rightarrow> admitted_at j s s')"

lemma calm_same_depth: "calm j s (s'\<lparr>metamethod_depth := metamethod_depth s\<rparr>) \<Longrightarrow> metamethod_depth s' = metamethod_depth s \<Longrightarrow> calm j s s'"
  by (metis vm_state.surjective vm_state.update_convs(8))

lemma begin_callable_safe:
  assumes W: "callbacks_calm W" and ready: "call_ready j s" and len: "length (stack s) = j + 1 + unat n"
    and bot: "stack_bottom s = old" and tail: "shape_tail shape \<longrightarrow> 0 < call_depth s"
  shows "wp tm (begin_callable_call W j n old shape) (begun j s) (calm j s) s"
proof -
  have "s = s\<lparr>stack := take j (stack s) @ drop j (stack s), metamethod_depth := metamethod_depth s + 0\<rparr>" by simp
  then have "round_of j s n 0 s" using len unfolding round_of_def
    by (intro conjI exI [of _ "drop j (stack s)"]) simp_all
  from callable_loop_safe [OF W ready _ bot tail this] len
  have res: "loop_result j s (callable_loop W j old shape n 0 s)" by simp
  obtain r ch s' where l: "callable_loop W j old shape n 0 s = (r, ch, s')" by (cases "callable_loop W j old shape n 0 s") auto
  have rel: "bind_vm (release_chain_charges ch) (\<lambda>_ s''. (r, s'')) s' =
      (r, s'\<lparr>metamethod_depth := metamethod_depth s' - ch\<rparr>)" if "ch \<le> metamethod_depth s'"
    using that by (simp add: bind_vm_def release_chain_charges_def expect_vm_def update_vm_def)
  show ?thesis
  proof (cases r)
    case (Done x)
    then show ?thesis
      using res rel
      by (cases x) (auto simp: l wp_def begin_callable_call_def loop_result_def begun_def admitted_at_def
          intro: calm_same_depth)
  next
    case (Failed e)
    then show ?thesis
      using res rel by (auto simp: l wp_def begin_callable_call_def loop_result_def)
  qed (use res in \<open>auto simp: l loop_result_def\<close>)
qed

lemma begin_call_safe:
  assumes W: "callbacks_calm W" and ready: "call_ready j s" and len: "length (stack s) = j + 1 + unat n"
    and bot: "stack_bottom s = old" and tail: "shape_tail shape \<longrightarrow> 0 < call_depth s"
  shows "wp tm (begin_call W j n old shape) (begun j s) (calm j s) s"
proof -
  have "round_of j s n 0 s" using len unfolding round_of_def
    by (intro conjI exI [of _ "drop j (stack s)"]) simp_all
  note rem = remove_round [OF this _ ready]
  have rust: "wp tm (\<lambda>s. map_outcome Some (invoke_rust_fn W f j (remove_slot j s))) (begun j s) (calm j s) s" for f
    using invoke_rust_fn_calm [OF W rem(1,2), of False f] rem(3-5) len
    by (auto simp: wp_def map_outcome_def begun_def split: prod.splits outcome.splits intro: calm_same_depth)
  have lua: "wp tm (bind_vm (admit_lua_call (cl_bytecode c) n old (shape_tail shape)) (\<lambda>_. return_vm None)) (begun j s) (calm j s) s"
    if "lua_function (stack s ! j) s = Some c" for c
    unfolding wp_bind wp_basic
    by (rule wp_mono [OF admit_safe [OF ready len bot that tail]]) (simp_all add: begun_def)
  show ?thesis
  proof (cases "as_rust_fn (stack s ! j)")
    case (Some f)
    then show ?thesis using rust [of f] len by (simp add: wp_def begin_call_def)
  next
    case None
    then show ?thesis
      using lua begin_callable_safe [OF assms] len
      by (cases "lua_function (stack s ! j) s") (simp_all add: wp_def begin_call_def)
  qed
qed

text \<open>The adjustment of the result count, above the slot the results start in.\<close>

lemma finish_call_safe:
  assumes "length (stack s) = j + unat m"
    and Q: "\<And>vs. take j vs = take j (stack s) \<Longrightarrow> fits expected j (length vs) \<Longrightarrow> Q () (s\<lparr>stack := vs\<rparr>)" and E: "E s"
  shows "wp tm (finish_call expected m) Q E s"
proof (cases expected)
  case (RetFixed n)
  let ?vs = "vec_resize (length (stack s) - unat m + unat n) (stack s)"
  have "take j ?vs = take j (stack s)" using assms(1) by (simp add: take_vec_resize)
  then have "Q () (s\<lparr>stack := ?vs\<rparr>)" using assms(1) RetFixed by (intro Q) simp_all
  moreover have "Q () s" if "n = m" using Q [of "stack s"] RetFixed assms(1) that by simp
  ultimately show ?thesis using RetFixed E assms(1)
    by (auto simp: finish_call_def wp_rules resize_stack_def and_then_def split: sum.splits if_splits)
next
  case RetAll
  then show ?thesis using Q [of "stack s"] assms(1) by (simp add: finish_call_def wp_rules)
qed

section \<open>The call instruction\<close>

lemma at_below:
  assumes at: "running_at k s0 f gs b ip len s" and below: "opens_below j s" and j: "fr_bottom f \<le> j"
    and vs: "take j vs = take j (stack s)" "j \<le> length vs"
  shows "running_at k s0 f gs b ip (length vs) (s\<lparr>stack := vs\<rparr>)"
proof (rule at_stack [OF at])
  show "take (fr_bottom f) vs = take (fr_bottom f) (stack s)" using vs(1) j by (metis min.absorb1 take_take)
qed (use below j vs(2) in \<open>auto simp: opens_below_def\<close>)

lemma vc_call_window:
  assumes at: "running_at k s0 f gs b ip len s" and ra: "fr_bottom f \<le> ra"
    and n: "\<And>n. args = ArgFixed n \<Longrightarrow> ra + 1 + unat n \<le> len" "args = ArgDynamic \<Longrightarrow> ra + 1 \<le> len"
    and Q: "\<And>n s'. running_at k s0 f gs b ip (ra + 1 + unat n) s' \<Longrightarrow> opens_below ra s' \<Longrightarrow> Q n s'"
    and E: "\<And>s'. entered k s0 s' \<Longrightarrow> E s'"
  shows "wp tm (call_window ra args) Q E s"
proof -
  note d = running_atD [OF at]
  note below = last_open_max [OF d(4), of ra]
  have "Q n (truncate_stack (ra + 1 + unat n) s)" if a: "args = ArgFixed n" "check_window ra s = Inr ()" for n
  proof -
    let ?vs = "take (ra + 1 + unat n) (stack s)"
    have len: "length ?vs = ra + 1 + unat n" using n(1) [OF a(1)] d(9) by simp
    have "running_at k s0 f gs b ip (length ?vs) (s\<lparr>stack := ?vs\<rparr>)"
      using len by (intro at_below [OF at below [OF a(2)] ra]) simp_all
    moreover have "opens_below ra (s\<lparr>stack := ?vs\<rparr>)" using below [OF a(2)] by (simp add: opens_below_def)
    ultimately show ?thesis unfolding len truncate_stack_def by (rule Q)
  qed
  moreover have "Q (of_nat (length (stack s) - ra - 1)) s"
    if a: "args = ArgDynamic" "check_window ra s = Inr ()" "length (stack s) - ra - 1 \<le> 255"
  proof -
    have "unat (of_nat (length (stack s) - ra - 1) :: u8) = length (stack s) - ra - 1"
      using a(3) by (simp add: unat_of_nat)
    then show ?thesis using at n(2) [OF a(1)] below [OF a(2)] d(9) by (intro Q) simp_all
  qed
  ultimately show ?thesis using E [OF running_at_entered [OF at]] n(2) d(9)
    by (cases args) (simp_all add: call_window_def wp_rules)
qed

lemma fits_above: "fits expected j len \<Longrightarrow> j \<le> len"
  by (cases expected) simp_all

lemma vc_call_from_lua:
  assumes W: "callbacks_calm W" and at: "running_at k s0 f gs b ip (j + 1 + unat n) s" and below: "opens_below j s"
    and j: "fr_bottom f \<le> j"
    and Q: "\<And>s' len. running_at k s0 f gs b ip len s' \<Longrightarrow> fits expected j len \<Longrightarrow> Q False s'"
      "\<And>s'. admitted_at j s s' \<Longrightarrow> Q True s'"
    and E: "\<And>s'. entered k s0 s' \<Longrightarrow> E s'"
  shows "wp tm (call_from_lua W n expected m) Q E s"
proof -
  note d = running_atD [OF at]
  have base: "call_base n s = Inr j" using d(6,9) j by (simp add: call_base_def get_top_def Let_def)
  have ready: "call_ready j s" using d(4,5) below by (simp add: call_ready_def)
  have depth: "0 < call_depth s" using d(3,5) by (auto simp: accounted_def)
  have fin: "wp tm (finish_call expected x) (\<lambda>_. wp tm (return_vm False) Q E) E s'"
    if c: "calm j s s'" "length (stack s') = j + unat x" for x s'
  proof (rule finish_call_safe [OF c(2)])
    note at' = at_calm [OF at c(1) j]
    have "opens_below j s'" using c(1) below by (simp add: calm_def opens_below_def)
    note at_vs = at_below [OF at' this j]
    show "wp tm (return_vm False) Q E (s'\<lparr>stack := vs\<rparr>)"
      if vs: "take j vs = take j (stack s')" "fits expected j (length vs)" for vs
      using Q(1) [OF at_vs [OF vs(1) fits_above [OF vs(2)]] vs(2)] by (simp add: wp_basic)
    show "E s'" by (rule E [OF running_at_entered [OF at']])
  qed
  have "wp tm (begin_call W j n (stack_bottom s) (shape_from_lua m False))
      (\<lambda>r. wp tm (case r of Some x \<Rightarrow> bind_vm (finish_call expected x) (\<lambda>_. return_vm False) | None \<Rightarrow> return_vm True) Q E) E s"
    by (rule wp_mono [OF begin_call_safe [OF W ready d(9) refl]])
      (use depth fin Q(2) E [OF running_at_entered [OF at_calm [OF at _ j]]] in
        \<open>auto simp: begun_def wp_bind wp_basic split: option.splits\<close>)
  then show ?thesis using base by (auto simp: call_from_lua_def wp_bind wp_try wp_basic)
qed

lemma call_results_open: "opcode i = OP_CALL \<Longrightarrow> call_results i = RetAll \<longleftrightarrow> produces_open i"
  by (simp add: call_results_def produces_open_def fixed_operands)

lemma call_arm_safe:
  assumes W: "callbacks_calm W" and at: "running_at k s0 f gs b ip len s" and ra: "fr_bottom f \<le> ra"
    and n: "\<And>n. call_args inst = ArgFixed n \<Longrightarrow> ra + 1 + unat n \<le> len" "call_args inst = ArgDynamic \<Longrightarrow> ra + 1 \<le> len"
    and Q: "\<And>s'. call_results inst \<noteq> RetAll \<Longrightarrow> running_at k s0 f gs b ip (fr_top f) s' \<Longrightarrow> Q None s'"
      "\<And>s' len. call_results inst = RetAll \<Longrightarrow> running_at k s0 f gs b ip len s' \<Longrightarrow> ra \<le> len \<Longrightarrow> Q None s'"
      "\<And>s1 len s'. running_at k s0 f gs b ip len s1 \<Longrightarrow> opens_below ra s1 \<Longrightarrow> admitted_at ra s1 s' \<Longrightarrow> Q (Some LeaveCall) s'"
    and E: "\<And>s'. entered k s0 s' \<Longrightarrow> E s'"
  shows "wp tm (call_arm W f inst ra j) Q E s"
  unfolding call_arm_def wp_bind
proof (rule vc_record [OF at], rule vc_cost(1), assumption)
  fix s1 assume "running_at k s0 f gs b ip len s1"
  then show "wp tm (call_window ra (call_args inst)) (\<lambda>args. wp tm (call_from_lua W args (call_results inst) (call_is_method inst))
      (\<lambda>lua. wp tm (if lua then return_vm (Some LeaveCall)
         else case call_results inst of
              RetFixed _ \<Rightarrow> bind_vm (update_vm (\<lambda>s. s\<lparr>stack := vec_resize (fr_top f) (stack s)\<rparr>)) (\<lambda>_. return_vm None)
            | RetAll \<Rightarrow> return_vm None) Q E) E) E s1"
  proof (rule vc_call_window [OF _ ra n])
    fix m :: u8 and s2 assume s2: "running_at k s0 f gs b ip (ra + 1 + unat m) s2" "opens_below ra s2"
    show "wp tm (call_from_lua W m (call_results inst) (call_is_method inst))
      (\<lambda>lua. wp tm (if lua then return_vm (Some LeaveCall)
         else case call_results inst of
              RetFixed _ \<Rightarrow> bind_vm (update_vm (\<lambda>s. s\<lparr>stack := vec_resize (fr_top f) (stack s)\<rparr>)) (\<lambda>_. return_vm None)
            | RetAll \<Rightarrow> return_vm None) Q E) E s2"
      by (rule vc_call_from_lua [OF W s2 ra])
        (use Q(1,2) Q(3) [OF s2] E in \<open>auto simp: wp_bind wp_basic split: ret_count.split dest: at_resize_top\<close>)
  qed (auto intro: E)
qed (rule E)

section \<open>Pushing frames\<close>

lemma entered_calm: "entered k s0 s \<Longrightarrow> calm j s s' \<Longrightarrow> k \<le> j \<Longrightarrow> entered k s0 s'"
  using kept_mono [of j s s' k] kept_trans [of k s0 s s']
  by (simp add: entered_def calm_def accounted_def)

lemma positioned_entry: "admitted d (fr_bytecode f) \<Longrightarrow> positioned f 0 (fr_top f)"
  using admitted_sizes(2) [of d "fr_bytecode f"] admitted_consumer(1) [of d "fr_bytecode f" 0]
  by (auto simp: positioned_def)

lemma lua_functionE:
  assumes "lua_function v s = Some c"
  obtains p where "v = VObj p" "closures s p = Some c"
  using assms by (cases v) (auto simp: lua_function_def)

lemma frames_ok_Cons: "frame_ok s f \<Longrightarrow> frames_ok s gs \<Longrightarrow> gs \<noteq> [] \<longrightarrow> waits_for f (hd gs) \<Longrightarrow> frames_ok s (f # gs)"
  by (cases gs) simp_all

text \<open>The frame that starts in the registers admission has laid out.\<close>

lemma push_frame_ready:
  assumes s: "frames s = gs" "stack_bottom s = j + 1" "opens_below j s" "vm_ok s"
    and c: "lua_function (stack s ! j) s = Some c" "length (stack s) = j + 1 + unat (max_stack (body (cl_bytecode c)))"
    and f: "f = frame_new (cl_bytecode c) (cl_literals c) (cl_upvalues c) (j + 1)"
    and ent: "entered k s0 (s\<lparr>frames := f # gs\<rparr>)" and gs: "frames_ok s gs" "gs \<noteq> [] \<longrightarrow> waits_for f (hd gs)"
    and Q: "ready k s0 (s\<lparr>frames := f # gs\<rparr>) \<Longrightarrow> Q () (s\<lparr>frames := f # gs\<rparr>)"
  shows "wp tm push_frame Q E s"
proof -
  have top: "fr_bottom f = j + 1" "fr_top f = length (stack s)" "fr_bytecode f = cl_bytecode c" "fr_ip f = 0"
    "fr_literals f = cl_literals c" "fr_upvalues f = cl_upvalues c"
    using c(2) by (simp_all add: f frame_new_def)
  obtain p where p: "stack s ! j = VObj p" "closures s p = Some c" by (rule lua_functionE [OF c(1)])
  have "closure_ok s c" using p(2) s(4) by (auto simp: vm_ok_def intro: ranI)
  then obtain d where d: "admitted d (cl_bytecode c)" by (auto simp: closure_ok_def)
  let ?s = "s\<lparr>frames := f # gs\<rparr>"
  have slot: "j \<notin> fst ` set (open_upvalues s)" using s(3) by (auto simp: opens_below_def)
  have "frame_ok s f" using top p c(2) slot by (auto simp: frame_ok_def)
  then have "frames_ok s (f # gs)" using gs by (intro frames_ok_Cons)
  then have "frames_ok ?s (f # gs)" by (rule frames_ok_mono) (simp add: frame_ok_def)
  moreover have "\<forall>(i, _) \<in> set (open_upvalues s). i < fr_top f" using s(3) c(2) top by (auto simp: opens_below_def)
  ultimately have "running k s0 ?s" using ent s(2) top by (simp add: running_def)
  moreover have "positioned f 0 (length (stack s))" using positioned_entry [of d f] d top by simp
  ultimately have "ready k s0 ?s" using top by (simp add: ready_def)
  then have "Q () ?s" by (rule Q)
  then show ?thesis using s c
    by (simp add: push_frame_def wp_bind wp_basic) (simp add: wp_def admitted_frame_def update_vm_def f)
qed

lemma frames_ok_kept:
  assumes "frames_ok s (f # gs)" "kept j s s'" "fr_bottom f \<le> j"
  shows "frames_ok s' (f # gs)"
proof (rule frames_ok_mono [OF assms(1)])
  fix g assume g: "g \<in> set (f # gs)" "frame_ok s g"
  then have "fr_bottom g \<le> fr_bottom f" using frames_ok_bottoms [OF assms(1), of g] by (auto simp: less_imp_le)
  then show "frame_ok s' g" using frame_ok_kept [OF g(2) assms(2)] assms(3) by simp
qed

lemma take_prefix_trans: "take (length ys) zs = ys \<Longrightarrow> take (length xs) ys = xs \<Longrightarrow> take (length xs) zs = xs"
  by (metis length_take min.cobounded1 min.commute min_def take_take)

lemma entered_push:
  assumes ent: "entered k s0 s" and a: "admitted_at j s s'" and k: "k \<le> j" and f: "fr_bottom f = j + 1"
  shows "entered k s0 (s'\<lparr>frames := f # frames s\<rparr>)"
proof -
  obtain ci where ci: "call_stack s' = ci # call_stack s" "ci_vararg_start ci = length (vararg_stack s)"
    "metamethod_depth s' = metamethod_depth s + unat (chain_units (ci_chain ci))" using a by (auto simp: admitted_at_def)
  note ents = ent [unfolded entered_def] and as = a [unfolded admitted_at_def]
  obtain n where n: "length (frames s) = Suc n" using ents by (cases "frames s") auto
  have last: "fr_bottom (last (f # frames s)) = k + 1" using ents by simp
  have "kept k s s'" using as k kept_mono by blast
  then have kept: "kept k s0 s'" using ents kept_trans by blast
  have acc: "accounted (s'\<lparr>frames := f # frames s\<rparr>)" using as by (simp add: accounted_def)
  have va: "take (length (vararg_stack s0)) (vararg_stack s') = vararg_stack s0"
  proof (rule take_prefix_trans)
    show "take (length (vararg_stack s)) (vararg_stack s') = vararg_stack s" using a by (simp add: admitted_at_def)
    show "take (length (vararg_stack s0)) (vararg_stack s) = vararg_stack s0" using ent by (simp add: entered_def)
  qed
  show ?thesis
    unfolding entered_def
    using kept acc va ents as ci n k f last
    by (intro conjI) (simp_all del: take_eq_Nil)
qed

lemma call_frame_ready:
  assumes at: "running_at k s0 f gs b (pc + 1) len s" and below: "opens_below j s" and a: "admitted_at j s s'"
    and j: "j = fr_bottom f + unat (field_a (fr_code f ! pc))" and pc: "pc < length (fr_code f)" "opcode (fr_code f ! pc) = OP_CALL"
    and Q: "\<And>s' g. ready k s0 s' \<Longrightarrow> frames s' = g # f\<lparr>fr_ip := pc + 1\<rparr> # gs \<Longrightarrow> \<not> b \<Longrightarrow> Q () s'"
  shows "wp tm push_frame Q E s'"
proof -
  note d = running_atD [OF at]
  have fr: "frames s = f\<lparr>fr_ip := pc + 1\<rparr> # gs" using at by (simp add: running_at_def)
  have run: "entered k s0 s" "frames_ok s (frames s)" using d(1) by (simp_all add: running_def)
  obtain c where c: "lua_function (stack s' ! j) s' = Some c"
    "length (stack s') = j + 1 + unat (max_stack (body (cl_bytecode c)))" using a by (auto simp: admitted_at_def)
  let ?g = "frame_new (cl_bytecode c) (cl_literals c) (cl_upvalues c) (j + 1)"
  have k: "k \<le> j" using run(1) fr j by (simp add: entered_def)
  show ?thesis
  proof (rule push_frame_ready [OF _ _ _ _ c refl])
    show "frames s' = f\<lparr>fr_ip := pc + 1\<rparr> # gs" "stack_bottom s' = j + 1" "vm_ok s'" "opens_below j s'"
      using a fr below by (simp_all add: admitted_at_def opens_below_def)
    show "entered k s0 (s'\<lparr>frames := ?g # f\<lparr>fr_ip := pc + 1\<rparr> # gs\<rparr>)"
      using entered_push [OF run(1) a k, of ?g] fr by (simp add: frame_new_def)
    show "frames_ok s' (f\<lparr>fr_ip := pc + 1\<rparr> # gs)"
      using frames_ok_kept [of s "f\<lparr>fr_ip := pc + 1\<rparr>" gs j s'] run(2) fr a j by (simp add: admitted_at_def)
    show "f\<lparr>fr_ip := pc + 1\<rparr> # gs \<noteq> [] \<longrightarrow> waits_for ?g (hd (f\<lparr>fr_ip := pc + 1\<rparr> # gs))"
      using pc j by (simp add: waits_for_def frame_new_def)
    have "\<not> b" using at a by (auto simp: running_at_def admitted_at_def)
    then show "Q () (s'\<lparr>frames := ?g # f\<lparr>fr_ip := pc + 1\<rparr> # gs\<rparr>)"
      if "ready k s0 (s'\<lparr>frames := ?g # f\<lparr>fr_ip := pc + 1\<rparr> # gs\<rparr>)" by (intro Q [OF that]) simp_all
  qed
qed

end
