(* ===== verification/Vm_Returns.thy ===== *)
theory Vm_Returns
  imports Vm_Calls
begin

text \<open>
  Leaving frames: closing upvalues, popping the activation record and its chain units, handing the
  results to the waiting caller, and tail calls, which replace the running frame by the callee's.
\<close>

section \<open>Leaving frames\<close>

text \<open>The invocation entered from \<open>s0\<close> has \<open>n\<close> activation records of its own.\<close>

definition records_above :: "nat \<Rightarrow> vm_state \<Rightarrow> vm_state \<Rightarrow> bool" where
  "records_above n s0 s \<longleftrightarrow>
     accounted s \<and> n \<le> length (call_stack s) \<and> drop n (call_stack s) = call_stack s0
     \<and> metamethod_depth s = metamethod_depth s0 + record_units (take n (call_stack s))
     \<and> (if n = 0 then vararg_stack s = vararg_stack s0
        else ci_vararg_start (call_stack s ! (n - 1)) = length (vararg_stack s0)
          \<and> take (length (vararg_stack s0)) (vararg_stack s) = vararg_stack s0)"

lemma entered_records:
  "entered k s0 s \<longleftrightarrow> vm_ok s \<and> kept k s0 s \<and> frames s \<noteq> [] \<and> (\<forall>f \<in> set (frames s). k < fr_bottom f)
     \<and> fr_bottom (last (frames s)) = k + 1 \<and> k \<notin> fst ` set (open_upvalues s)
     \<and> records_above (length (frames s)) s0 s"
  unfolding entered_def records_above_def by auto

definition popped :: "vm_state \<Rightarrow> vm_state" where
  "popped s =
     s\<lparr> metamethod_depth := metamethod_depth s - unat (chain_units (ci_chain (hd (call_stack s)))),
        vararg_stack := take (ci_vararg_start (hd (call_stack s))) (vararg_stack s),
        call_stack := tl (call_stack s), call_depth := call_depth s - 1 \<rparr>"

lemma wp_pop_activation:
  assumes "accounted s" "call_stack s \<noteq> []"
  shows "wp tm pop_activation Q E s \<longleftrightarrow> Q () (popped s)"
proof -
  obtain ci cis where "call_stack s = ci # cis" using assms(2) by (cases "call_stack s") auto
  then show ?thesis using assms(1)
    by (auto simp: pop_activation_def wp_def bind_vm_def release_chain_charges_def expect_vm_def update_vm_def
        accounted_def popped_def)
qed

lemma popped_fields [simp]:
  "stack (popped s) = stack s" "open_upvalues (popped s) = open_upvalues s" "closures (popped s) = closures s"
  "upvalue_pool (popped s) = upvalue_pool s" "poisoned (popped s) = poisoned s" "interrupt (popped s) = interrupt s" "frames (popped s) = frames s"
  "native_call_depth (popped s) = native_call_depth s" "active_rust_fn (popped s) = active_rust_fn s"
  "pending (popped s) = pending s" "stack_bottom (popped s) = stack_bottom s"
  by (simp_all add: popped_def)

lemma records_popped:
  assumes "records_above (Suc n) s0 s"
  shows "records_above n s0 (popped s)" "call_stack s \<noteq> []" "accounted s"
proof -
  note r = assms [unfolded records_above_def]
  obtain ci cis where cs: "call_stack s = ci # cis" using r by (cases "call_stack s") auto
  have acc: "call_depth s = Suc (length cis)" "unat (chain_units (ci_chain ci)) + record_units cis \<le> metamethod_depth s"
    "ci_vararg_start ci \<le> length (vararg_stack s)" "\<forall>c \<in> set cis. ci_vararg_start c \<le> ci_vararg_start ci"
    "sorted_wrt (\<ge>) (map ci_vararg_start cis)" using r cs by (auto simp: accounted_def)
  have acc': "accounted (popped s)" using acc cs by (auto simp: accounted_def popped_def min_def)
  have cis: "drop n cis = call_stack s0" "n \<le> length cis" using r cs by simp_all
  have mm: "metamethod_depth s - unat (chain_units (ci_chain ci)) = metamethod_depth s0 + record_units (take n cis)"
    using r cs by simp
  have va: "take (length (vararg_stack s0)) (vararg_stack s) = vararg_stack s0" using r by simp
  have start: "ci_vararg_start (call_stack s ! n) = length (vararg_stack s0)" using r by simp
  show "records_above n s0 (popped s)"
  proof (cases n)
    case 0
    then show ?thesis using acc' cis mm va start cs by (simp add: records_above_def popped_def)
  next
    case (Suc m)
    have "m < length cis" using cis Suc by simp
    then have "ci_vararg_start (cis ! m) \<le> ci_vararg_start ci" using acc(4) nth_mem by blast
    then have "length (vararg_stack s0) \<le> ci_vararg_start ci" using start cs Suc by simp
    then have "take (length (vararg_stack s0)) (take (ci_vararg_start ci) (vararg_stack s)) = vararg_stack s0"
      using va by (simp add: min_absorb1)
    then show ?thesis using acc' cis mm cs Suc start by (simp add: records_above_def popped_def)
  qed
  show "call_stack s \<noteq> []" "accounted s" using cs r by simp_all
qed

section \<open>Results\<close>

lemma close_below:
  assumes ok: "vm_ok s" and j: "j \<notin> fst ` set (open_upvalues s)"
  shows "opens_below j (close_upvalues (j + 1) s)"
    "j \<le> length vs \<Longrightarrow> vm_ok ((close_upvalues (j + 1) s)\<lparr>stack := vs\<rparr>)"
proof -
  have uv: "uv_inv s" using ok by (simp add: vm_ok_def)
  have "i < j" if "(i, r) \<in> set (open_upvalues (close_upvalues (j + 1) s))" for i r
  proof -
    have "(i, r) \<in> set (open_upvalues s)" "i < j + 1" using that by (auto simp: close_upvalues_list [OF uv])
    then show ?thesis using j by (force simp: less_Suc_eq)
  qed
  then show below: "opens_below j (close_upvalues (j + 1) s)" by (auto simp: opens_below_def)
  have "vm_ok ((close_upvalues (j + 1) s)\<lparr>stack := replicate (j + 1) VNil\<rparr>)" using ok by (intro vm_ok_close) simp_all
  from vm_ok_stack [OF this, of vs]
  have "vm_ok ((close_upvalues (j + 1) s)\<lparr>stack := vs\<rparr>)"
    if "\<forall>(i, _) \<in> set (open_upvalues (close_upvalues (j + 1) s)). i < length vs" using that by simp
  moreover have "\<forall>(i, _) \<in> set (open_upvalues (close_upvalues (j + 1) s)). i < length vs" if "j \<le> length vs"
    using below that by (auto simp: opens_below_def)
  ultimately show "j \<le> length vs \<Longrightarrow> vm_ok ((close_upvalues (j + 1) s)\<lparr>stack := vs\<rparr>)" by blast
qed

definition collected :: "nat \<Rightarrow> nat \<Rightarrow> nat \<Rightarrow> vm_state \<Rightarrow> vm_state" where
  "collected j first count s =
     (close_upvalues (j + 1) s)\<lparr> stack := take j (stack s) @ take count (drop first (stack s)) \<rparr>"

lemma collect_returns_safe:
  assumes ok: "vm_ok s" and fr: "fr_bottom fr = j + 1" and first: "j \<le> first" "first + count \<le> length (stack s)"
    and Q: "\<And>n. unat n = count \<Longrightarrow> Q n (collected j first count s)" and E: "E s"
  shows "wp tm (collect_returns fr first count) Q E s"
proof -
  have uv: "uv_inv s" using ok by (simp add: vm_ok_def)
  have "drop first (take (first + count) (stack s)) = take count (drop first (stack s))" by (simp add: drop_take)
  moreover have "take j (take (first + count) (stack s)) = take j (stack s)" using first by (simp add: min_absorb1)
  moreover have "unat (of_nat count :: u8) = count" if "count \<le> 255" using that by (simp add: unat_of_nat)
  ultimately show ?thesis using E fr first Q [of "of_nat count"] wp_close [OF ok]
    by (auto simp: collect_returns_def wp_bind wp_basic wp_try results_count_def truncate_stack_def close_fields [OF uv]
        collected_def split: if_splits)
qed

lemma collected_ok:
  assumes ok: "vm_ok s" and j: "j \<notin> fst ` set (open_upvalues s)" and first: "j \<le> first" "first + count \<le> length (stack s)"
  shows "vm_ok (collected j first count s)" "kept j s (collected j first count s)" "opens_below j (collected j first count s)"
    "length (stack (collected j first count s)) = j + count"
proof -
  have uv: "uv_inv s" using ok by (simp add: vm_ok_def)
  show "vm_ok (collected j first count s)" unfolding collected_def using first by (intro close_below(2) [OF ok j]) simp
  show "opens_below j (collected j first count s)" using close_below(1) [OF ok j] by (simp add: opens_below_def collected_def)
  show "length (stack (collected j first count s)) = j + count" using first by (simp add: collected_def)
  have "kept j s (close_upvalues (j + 1) s)" using first by (intro kept_close [OF uv]) simp_all
  moreover have "kept j (close_upvalues (j + 1) s) (collected j first count s)"
    unfolding collected_def using first by (intro kept_stack) (simp_all add: close_fields [OF uv])
  ultimately show "kept j s (collected j first count s)" by (rule kept_trans)
qed

lemma collected_fields:
  assumes "uv_inv s"
  shows "frames (collected j first count s) = frames s" "call_stack (collected j first count s) = call_stack s"
  "vararg_stack (collected j first count s) = vararg_stack s" "call_depth (collected j first count s) = call_depth s"
  "metamethod_depth (collected j first count s) = metamethod_depth s" "interrupt (collected j first count s) = interrupt s"
  "pending (collected j first count s) = pending s" "stack_bottom (collected j first count s) = stack_bottom s"
  using close_fields [OF assms] by (simp_all add: collected_def)

section \<open>Returning to a caller\<close>

text \<open>A frame that is about to return: its own registers need no longer be intact.\<close>

definition leaving :: "nat \<Rightarrow> vm_state \<Rightarrow> frame \<Rightarrow> frame list \<Rightarrow> bool \<Rightarrow> nat \<Rightarrow> nat \<Rightarrow> vm_state \<Rightarrow> bool" where
  "leaving k s0 f gs b first count s \<longleftrightarrow>
     entered k s0 s \<and> frames s = f # gs \<and> frames_ok s gs \<and> (gs \<noteq> [] \<longrightarrow> waits_for f (hd gs))
     \<and> 0 < fr_bottom f \<and> fr_bottom f - 1 \<le> first \<and> first + count \<le> length (stack s)
     \<and> fr_bottom f - 1 \<notin> fst ` set (open_upvalues s) \<and> (b \<longrightarrow> interrupt s)"

lemma entered_ok: "entered k s0 s \<Longrightarrow> vm_ok s" "entered k s0 s \<Longrightarrow> kept k s0 s" "entered k s0 s \<Longrightarrow> frames s \<noteq> []"
  by (simp_all add: entered_def)

lemma records_fields:
  assumes r: "records_above n s0 s" and "call_stack s' = call_stack s" "vararg_stack s' = vararg_stack s"
    "call_depth s' = call_depth s" "metamethod_depth s' = metamethod_depth s"
  shows "records_above n s0 s'"
  using r unfolding records_above_def accounted_def assms(2-5) .

lemma frame_checked:
  assumes "frame_ok s f" "vm_ok s" "pc < length (fr_code f)" "arith_decode (opcode (fr_code f ! pc)) = None"
  shows "checked f (fr_code f ! pc)"
proof -
  obtain p c where "closures s p = Some c" "fr_bytecode f = cl_bytecode c" using assms(1) by (auto simp: frame_ok_def)
  then obtain d where d: "admitted d (fr_bytecode f)" using assms(2) by (auto simp: vm_ok_def closure_ok_def intro: ranI)
  show ?thesis unfolding checked_def using admitted_operands [OF d assms(3,4)] by metis
qed

lemma arith_decode_none: "\<not> op \<le> OP_POW_KR \<Longrightarrow> arith_decode op = None" "op \<le> OP_SELF \<Longrightarrow> arith_decode op = None"
  by (simp_all add: arith_decode_def not_le word_less_nat_alt word_le_nat_alt)

lemma waiting_call:
  assumes "frame_ok s g" "vm_ok s" "waits_for f g"
  shows "fr_bottom g \<le> fr_bottom f - 1" "fr_bottom f - 1 < fr_top g" "\<exists>d. admitted d (fr_bytecode g)"
proof -
  have pc: "fr_ip g - 1 < length (fr_code g)" "opcode (fr_code g ! (fr_ip g - 1)) = OP_CALL"
    "fr_bottom f = fr_bottom g + unat (field_a (fr_code g ! (fr_ip g - 1))) + 1" using assms(3) by (auto simp: waits_for_def)
  have "checked g (fr_code g ! (fr_ip g - 1))"
    using pc(2) by (intro frame_checked [OF assms(1,2) pc(1)]) (simp add: arith_decode_none)
  then have "unat (field_a (fr_code g ! (fr_ip g - 1))) < fr_size g" using call_ranges(1) pc(2) by blast
  then show "fr_bottom g \<le> fr_bottom f - 1" "fr_bottom f - 1 < fr_top g" using pc(3) assms(1) by (simp_all add: frame_ok_def)
  obtain p c where "closures s p = Some c" "fr_bytecode g = cl_bytecode c" using assms(1) by (auto simp: frame_ok_def)
  then show "\<exists>d. admitted d (fr_bytecode g)" using assms(2) by (auto simp: vm_ok_def closure_ok_def intro: ranI)
qed

lemma back_in_caller:
  assumes l: "leaving k s0 f (g # gs) b first count s"
  defines "j \<equiv> fr_bottom f - 1"
  defines "t \<equiv> (pop_frame (popped (collected j first count s)))\<lparr>stack_bottom := fr_bottom g\<rparr>"
  shows "running_at k s0 g gs b (fr_ip g) (j + count) t" "opens_below j t"
proof -
  note L = l [unfolded leaving_def]
  have ent: "entered k s0 s" and fr: "frames s = f # g # gs" using L by simp_all
  have ok: "vm_ok s" and uv: "uv_inv s" and rec: "records_above (Suc (Suc (length gs))) s0 s" and k: "k \<le> j" "k < fr_bottom g"
    using ent fr L by (auto simp: entered_records vm_ok_def j_def)
  have j: "j \<notin> fst ` set (open_upvalues s)" "j \<le> first" "first + count \<le> length (stack s)" using L by (simp_all add: j_def)
  note c = collected_ok [OF ok j] and cf = collected_fields [OF uv, of j first count]
  have gok: "frame_ok s g" using L frames_ok_hd [of s g gs] by simp
  have call: "fr_bottom g \<le> j" "j < fr_top g" using waiting_call [OF gok ok] L by (simp_all add: j_def)
  have keep: "kept j s t" by (rule kept_fields [OF c(2)]) (simp_all add: t_def pop_frame_def)
  have okt: "vm_ok t" by (rule vm_ok_fields [OF c(1)]) (simp_all add: t_def pop_frame_def)
  have rc: "records_above (Suc (Suc (length gs))) s0 (collected j first count s)"
    by (rule records_fields [OF rec]) (simp_all add: cf)
  have "records_above (Suc (length gs)) s0 t"
    by (rule records_fields [OF records_popped(1) [OF rc]]) (simp_all add: t_def pop_frame_def)
  moreover have frt: "frames t = g # gs" by (simp add: t_def pop_frame_def cf fr)
  moreover have "kept k s0 t" using ent kept_mono [OF keep k(1)] kept_trans by (auto simp: entered_records)
  moreover have "k \<notin> fst ` set (open_upvalues t)"
    using open_below_index [of k j t s] keep ent call(1) k(2) by (simp add: kept_def entered_records)
  ultimately have "entered k s0 t" using okt ent fr by (simp add: entered_records)
  moreover have "frames_ok t (g # gs)" using frames_ok_kept [OF _ keep call(1)] L by simp
  moreover show "opens_below j t" using c(3) by (simp add: t_def pop_frame_def opens_below_def)
  then have "\<forall>(i, _) \<in> set (open_upvalues t). i < fr_top g" using call(2) by (auto simp: opens_below_def)
  ultimately have "running k s0 t" using frt by (simp add: running_def) (simp add: t_def)
  moreover have "length (stack t) = j + count" "b \<longrightarrow> interrupt t" using c(4) L by (simp_all add: t_def pop_frame_def cf)
  ultimately show "running_at k s0 g gs b (fr_ip g) (j + count) t" using frt by (simp add: running_at_def)
qed

lemma return_to_caller_safe:
  assumes l: "leaving k s0 f (g # gs) b first count s"
    and Q: "\<And>s' len. running_at k s0 g gs b (fr_ip g) len s' \<Longrightarrow> positioned g (fr_ip g) len \<Longrightarrow> Q () s'"
    and E: "\<And>s'. entered k s0 s' \<Longrightarrow> E s'"
  shows "wp tm (return_to_caller first count) Q E s"
proof -
  note L = l [unfolded leaving_def]
  define j where "j = fr_bottom f - 1"
  let ?c = "collected j first count s" and ?expected = "call_results (fr_code g ! (fr_ip g - 1))"
  let ?t = "(pop_frame (popped ?c))\<lparr>stack_bottom := fr_bottom g\<rparr>"
  have fr: "frames s = f # g # gs" "fr_bottom f = j + 1" "waits_for f g" and ent: "entered k s0 s"
    using L by (simp_all add: j_def)
  have ok: "vm_ok s" by (rule entered_ok [OF ent])
  have gok: "frame_ok s g" using L frames_ok_hd [of s g gs] by simp
  note home = back_in_caller [OF l, folded j_def] and call = waiting_call [OF gok ok fr(3)]
  have pc: "0 < fr_ip g" "fr_ip g \<le> length (fr_code g)" "opcode (fr_code g ! (fr_ip g - 1)) = OP_CALL"
    "fr_bottom f = fr_bottom g + unat (field_a (fr_code g ! (fr_ip g - 1))) + 1" using fr(3) by (auto simp: waits_for_def)
  obtain d where d: "admitted d (fr_bytecode g)" using call(3) by blast
  have pos: "positioned g (fr_ip g) (fr_top g)" if "?expected \<noteq> RetAll"
    using positioned_next(1) [OF d, of "fr_ip g - 1"] pc that by (simp add: call_results_open)
  have pos_all: "positioned g (fr_ip g) len" if "?expected = RetAll" "j \<le> len" for len
    using positioned_next(2) [OF d, of "fr_ip g - 1" len] pc that fr(2) by (simp add: call_results_open)
  have fin: "wp tm (finish_call ?expected n) (\<lambda>_. wp tm (update_vm (\<lambda>s. case ?expected of
       RetFixed _ \<Rightarrow> s\<lparr>stack := vec_resize (fr_top g) (stack s)\<rparr> | RetAll \<Rightarrow> s)) Q E) E ?t" if n: "unat n = count" for n
  proof (rule finish_call_safe)
    show "length (stack ?t) = j + unat n" using running_atD(9) [OF home(1)] n by simp
    show "E ?t" by (rule E [OF running_at_entered [OF home(1)]])
    fix vs assume vs: "take j vs = take j (stack ?t)" "fits ?expected j (length vs)"
    have "fr_bottom g \<le> j" using call(1) fr(2) by simp
    note at = at_below [OF home this vs(1) fits_above [OF vs(2)]]
    from at show "wp tm (update_vm (\<lambda>s. case ?expected of
       RetFixed _ \<Rightarrow> s\<lparr>stack := vec_resize (fr_top g) (stack s)\<rparr> | RetAll \<Rightarrow> s)) Q E (?t\<lparr>stack := vs\<rparr>)"
      using Q [OF _ pos] Q [OF _ pos_all [OF _ fits_above [OF vs(2)]]] at_resize_top [OF at]
      by (cases ?expected) (auto simp: wp_basic)
  qed
  have j: "j \<le> first" "first + count \<le> length (stack s)" using L by (simp_all add: j_def)
  have uv: "uv_inv s" using ok by (simp add: vm_ok_def)
  have rec: "records_above (Suc (Suc (length gs))) s0 s" using ent fr(1) by (simp add: entered_records)
  have rc: "accounted ?c" "call_stack ?c \<noteq> []"
    using records_popped(2,3) [OF rec] by (simp_all add: collected_fields [OF uv] accounted_def)
  have "wp tm (bind_vm (collect_returns f first count) (\<lambda>n. bind_vm pop_activation (\<lambda>_. bind_vm (update_vm pop_frame)
      (\<lambda>_. bind_vm (update_vm (\<lambda>s. s\<lparr>stack_bottom := fr_bottom g\<rparr>)) (\<lambda>_. bind_vm (finish_call ?expected n)
        (\<lambda>_. update_vm (\<lambda>s. case ?expected of RetFixed _ \<Rightarrow> s\<lparr>stack := vec_resize (fr_top g) (stack s)\<rparr> | RetAll \<Rightarrow> s)))))))
      Q E s"
    unfolding wp_bind [of tm "collect_returns f first count"]
  proof (rule collect_returns_safe [OF ok fr(2) j])
    show "E s" by (rule E [OF ent])
  qed (use fin in \<open>simp add: wp_bind wp_pop_activation [OF rc] wp_basic\<close>)
  then show ?thesis using fr(1) pc(1,2) by (simp add: wp_def return_to_caller_def pending_call_results_def)
qed

section \<open>Tail calls\<close>

text \<open>
  The caller's activation is over: its upvalues are closed, its chain units returned, its slots
  taken by the callee's window, which starts at the caller's function slot \<open>j\<close>.
\<close>

definition replaced :: "nat \<Rightarrow> nat \<Rightarrow> vm_state \<Rightarrow> vm_state" where
  "replaced j callee s =
     (let ci = hd (call_stack s) in
      s\<lparr> stack := take j (stack s) @ drop callee (stack s),
         call_stack := ci\<lparr> ci_chain := with_units (ci_chain ci) 0 \<rparr> # tl (call_stack s),
         metamethod_depth := metamethod_depth s - unat (chain_units (ci_chain ci)), stack_bottom := j \<rparr>)"

lemma chain_units_cleared [simp]: "chain_units (with_units c 0) = 0" "chain_units (marked_tail_called c) = chain_units c"
  by (rule bit_word_eqI, auto simp: chain_units_def with_units_def marked_tail_called_def bit_TAIL_CALLED bit_simps)+

text \<open>What the callee of a tail call starts from.\<close>

definition tail_ready :: "nat \<Rightarrow> vm_state \<Rightarrow> frame \<Rightarrow> frame list \<Rightarrow> bool \<Rightarrow> nat \<Rightarrow> vm_state \<Rightarrow> bool" where
  "tail_ready k s0 f gs b j s \<longleftrightarrow>
     entered k s0 s \<and> frames s = f # gs \<and> frames_ok s gs \<and> (gs \<noteq> [] \<longrightarrow> waits_for f (hd gs))
     \<and> fr_bottom f = j + 1 \<and> call_ready j s \<and> (b \<longrightarrow> interrupt s) \<and> 0 < call_depth s \<and> stack_bottom s = j
     \<and> unat (chain_units (ci_chain (hd (call_stack s)))) = 0"

lemma own_slot: "running_at k s0 f gs b ip len s \<Longrightarrow> fr_bottom f - 1 \<notin> fst ` set (open_upvalues s)"
  using running_atD(7) [of k s0 f gs b ip len s] by (simp add: frame_ok_def)

lemma replaced_records:
  assumes "records_above (Suc n) s0 s"
  shows "records_above (Suc n) s0 (replaced j callee s)"
proof -
  note r = assms [unfolded records_above_def]
  obtain ci cis where cs: "call_stack s = ci # cis" using r by (cases "call_stack s") auto
  have acc: "accounted (replaced j callee s)" using r cs by (simp add: accounted_def replaced_def Let_def)
  have "ci_vararg_start ((ci\<lparr>ci_chain := with_units (ci_chain ci) 0\<rparr> # cis) ! n) = length (vararg_stack s0)"
    using r cs by (cases n) simp_all
  then show ?thesis using r cs acc by (simp add: records_above_def replaced_def Let_def)
qed

lemma replaced_ready:
  assumes at: "running_at k s0 f gs b ip (ra + 1 + n) s" and ra: "fr_bottom f \<le> ra"
  defines "j \<equiv> fr_bottom f - 1"
  defines "t \<equiv> replaced j ra (close_upvalues (fr_bottom f) s)"
  shows "tail_ready k s0 (f\<lparr>fr_ip := ip\<rparr>) gs b j t" "length (stack t) = j + 1 + n"
proof -
  note d = running_atD [OF at]
  have bot: "fr_bottom f = j + 1" using d(11) by (simp add: j_def)
  have uv: "uv_inv s" using d(4) by (simp add: vm_ok_def)
  note cf = close_fields [OF uv]
  have fr: "frames s = f\<lparr>fr_ip := ip\<rparr> # gs" "b \<longrightarrow> interrupt s" using at by (simp_all add: running_at_def)
  have run: "entered k s0 s" "frames_ok s (f\<lparr>fr_ip := ip\<rparr> # gs)" using d(1) fr by (simp_all add: running_def)
  have k: "k \<le> j" using run(1) fr bot by (simp add: entered_records)
  have own: "j \<notin> fst ` set (open_upvalues s)" unfolding j_def by (rule own_slot [OF at])
  let ?vs = "take j (stack s) @ drop ra (stack s)"
  show len: "length (stack t) = j + 1 + n" using d(9) ra bot by (simp add: t_def replaced_def Let_def cf)
  have below: "opens_below j t"
    using close_below(1) [OF d(4) own] bot by (simp add: t_def replaced_def Let_def opens_below_def)
  have okt: "vm_ok t"
    by (rule vm_ok_fields [OF close_below(2) [OF d(4) own, of ?vs]])
      (use d(9) ra bot in \<open>simp_all add: t_def replaced_def Let_def cf\<close>)
  have "kept j s (close_upvalues (fr_bottom f) s)" using d(8) bot by (intro kept_close [OF uv]) simp_all
  moreover have "kept j (close_upvalues (fr_bottom f) s) ((close_upvalues (fr_bottom f) s)\<lparr>stack := ?vs\<rparr>)"
    using d(8,9) bot ra by (intro kept_stack) (simp_all add: cf)
  ultimately have keep: "kept j s t"
    by (rule kept_fields [OF kept_trans]) (simp_all add: t_def replaced_def Let_def cf)
  have rec: "records_above (Suc (length gs)) s0 s" using run(1) fr(1) by (simp add: entered_records)
  have "records_above (Suc (length gs)) s0 (close_upvalues (fr_bottom f) s)" by (rule records_fields [OF rec]) (simp_all add: cf)
  then have rt: "records_above (Suc (length gs)) s0 t" unfolding t_def by (rule replaced_records)
  have frt: "frames t = f\<lparr>fr_ip := ip\<rparr> # gs" by (simp add: t_def replaced_def Let_def cf fr)
  have "kept k s0 t" using run(1) kept_mono [OF keep k] kept_trans by (auto simp: entered_records)
  moreover have "k \<notin> fst ` set (open_upvalues t)"
    using open_below_index [of k j t s] keep run(1) below k by (cases "k = j") (auto simp: kept_def entered_records opens_below_def)
  ultimately have "entered k s0 t" using okt rt frt run(1) fr(1) by (simp add: entered_records split: if_splits)
  moreover have "frames_ok t gs" "gs \<noteq> [] \<longrightarrow> waits_for (f\<lparr>fr_ip := ip\<rparr>) (hd gs)"
    using run(2) frames_ok_kept [of s "hd gs" "tl gs" j t] keep bot by (cases gs; auto simp: waits_for_def)+
  moreover have "accounted t" "0 < call_depth t" "unat (chain_units (ci_chain (hd (call_stack t)))) = 0"
    using rt d(3,5) by (auto simp: records_above_def t_def replaced_def Let_def cf accounted_def)
  ultimately show "tail_ready k s0 (f\<lparr>fr_ip := ip\<rparr>) gs b j t" using frt bot below okt fr(2)
    by (simp add: tail_ready_def call_ready_def) (simp add: t_def replaced_def Let_def cf)
qed

lemma wp_release_caller:
  assumes "accounted s" "call_stack s \<noteq> []"
  shows "wp tm release_caller_chain Q E s \<longleftrightarrow> Q () (s\<lparr>
      call_stack := (hd (call_stack s))\<lparr>ci_chain := with_units (ci_chain (hd (call_stack s))) 0\<rparr> # tl (call_stack s),
      metamethod_depth := metamethod_depth s - unat (chain_units (ci_chain (hd (call_stack s))))\<rparr>)"
proof -
  obtain ci cis where "call_stack s = ci # cis" using assms(2) by (cases "call_stack s") auto
  then show ?thesis using assms(1)
    by (auto simp: release_caller_chain_def wp_def bind_vm_def release_chain_charges_def expect_vm_def update_vm_def accounted_def)
qed

lemma tail_calm:
  assumes t: "tail_ready k s0 f gs b j s" and c: "calm j s s'"
  shows "entered k s0 s'" "j + m \<le> length (stack s') \<Longrightarrow> leaving k s0 f gs b j m s'"
proof -
  note T = t [unfolded tail_ready_def]
  have ent: "entered k s0 s" and fr: "frames s = f # gs" and bot: "fr_bottom f = j + 1" using T by simp_all
  have "k < fr_bottom f" using ent fr by (simp add: entered_records)
  then show ent': "entered k s0 s'" using entered_calm [OF ent c] bot by simp
  have "kept j s s'" "open_upvalues s' = open_upvalues s" "frames s' = frames s" using c by (simp_all add: calm_def)
  moreover have "frames_ok s' gs"
    using T frames_ok_kept [of s "hd gs" "tl gs" j s'] calculation(1) by (cases gs) (auto simp: waits_for_def)
  moreover have "j \<notin> fst ` set (open_upvalues s)" using T by (auto simp: call_ready_def opens_below_def)
  moreover have "b \<longrightarrow> interrupt s'" using T calculation(1) by (simp add: kept_def)
  ultimately show "j + m \<le> length (stack s') \<Longrightarrow> leaving k s0 f gs b j m s'" using ent' T by (simp add: leaving_def)
qed

lemma tail_call_arm_safe:
  assumes W: "callbacks_calm W" and at: "running_at k s0 f gs b ip len s" and ra: "fr_bottom f \<le> ra"
    and n: "\<And>n. call_args inst = ArgFixed n \<Longrightarrow> ra + 1 + unat n \<le> len" "call_args inst = ArgDynamic \<Longrightarrow> ra + 1 \<le> len"
    and Q: "\<And>s' m. leaving k s0 (f\<lparr>fr_ip := ip\<rparr>) gs b (fr_bottom f - 1) m s' \<Longrightarrow> Q (Some (LeaveReturn (fr_bottom f - 1) m)) s'"
      "\<And>s1 s'. tail_ready k s0 (f\<lparr>fr_ip := ip\<rparr>) gs b (fr_bottom f - 1) s1 \<Longrightarrow> admitted_at (fr_bottom f - 1) s1 s' \<Longrightarrow>
         Q (Some LeaveTailCall) s'"
    and E: "\<And>s'. entered k s0 s' \<Longrightarrow> E s'"
  shows "wp tm (tail_call_arm W inst (fr_bottom f) ra i) Q E s"
proof -
  let ?j = "fr_bottom f - 1"
  let ?out = "\<lambda>r. case r of Some count \<Rightarrow> return_vm (Some (LeaveReturn ?j (unat count))) | None \<Rightarrow> return_vm (Some LeaveTailCall)"
  have start: "wp tm (begin_call W ?j m ?j (shape_from_lua meth True)) (\<lambda>r. wp tm (?out r) Q E) E t"
    if t: "tail_ready k s0 (f\<lparr>fr_ip := ip\<rparr>) gs b ?j t" "length (stack t) = ?j + 1 + unat m" for t m meth
  proof (rule wp_mono [OF begin_call_safe [OF W _ t(2)]])
    show "call_ready ?j t" "stack_bottom t = ?j" "shape_tail (shape_from_lua meth True) \<longrightarrow> 0 < call_depth t"
      using t(1) by (simp_all add: tail_ready_def)
    show "E s'" if "calm ?j t s'" for s' by (rule E [OF tail_calm(1) [OF t(1) that]])
    show "wp tm (?out r) Q E s'" if r: "begun ?j t r s'" for r s'
    proof (cases r)
      case None
      then show ?thesis using r Q(2) [OF t(1)] by (simp add: begun_def wp_basic)
    next
      case (Some m)
      then have "calm ?j t s'" "?j + unat m \<le> length (stack s')" using r by (simp_all add: begun_def)
      from Q(1) [OF tail_calm(2) [OF t(1) this]] show ?thesis using Some by (simp add: wp_basic)
    qed
  qed
  have go: "wp tm (bind_vm (try_vm (call_base m)) (\<lambda>callee.
     bind_vm (expect_vm (\<lambda>s. 0 < stack_bottom s)) (\<lambda>_.
     bind_vm (read_vm (\<lambda>s. stack_bottom s - 1)) (\<lambda>destination.
     bind_vm (read_vm stack_bottom) (\<lambda>caller_bottom.
     bind_vm (close_vm caller_bottom) (\<lambda>_.
     bind_vm (expect_vm (\<lambda>s. destination \<le> callee \<and> callee \<le> length (stack s))) (\<lambda>_.
     bind_vm (update_vm (\<lambda>s. s\<lparr>stack := take destination (stack s) @ drop callee (stack s)\<rparr>)) (\<lambda>_.
     bind_vm release_caller_chain (\<lambda>_.
     bind_vm (update_vm (\<lambda>s. s\<lparr>stack_bottom := destination\<rparr>)) (\<lambda>_.
     begin_call W destination m destination (shape_from_lua meth True))))))))))) (\<lambda>r. wp tm (?out r) Q E) E s1"
    if s1: "running_at k s0 f gs b ip (ra + 1 + unat m) s1" for s1 m meth
  proof -
    note d = running_atD [OF s1]
    have uv: "uv_inv s1" using d(4) by (simp add: vm_ok_def)
    have base: "call_base m s1 = Inr ra" using d(6,9) ra by (simp add: call_base_def get_top_def Let_def)
    let ?c = "close_upvalues (fr_bottom f) s1"
    let ?c' = "?c\<lparr>stack := take ?j (stack s1) @ drop ra (stack s1)\<rparr>"
    have rel: "accounted ?c'" "call_stack ?c' \<noteq> []" using d(3,5) by (simp_all add: close_fields [OF uv] accounted_def)
    show ?thesis
      using start [OF replaced_ready [OF s1 ra]] d(6,8,9,11) ra
      by (simp add: wp_bind wp_basic wp_try base wp_close [OF d(4)] close_fields [OF uv] wp_release_caller [OF rel, simplified]
          replaced_def Let_def)
  qed
  show ?thesis
    unfolding tail_call_arm_def wp_bind tail_call_from_lua_def
    apply (rule vc_record [OF at], rule vc_cost(1), assumption)
     apply (rule vc_call_window [OF _ ra n], assumption, assumption, assumption)
      apply (rule go [unfolded wp_bind], assumption)
     apply (erule E)+
    done
qed

text \<open>The callee's record takes the place of the caller's.\<close>

definition successor :: "vm_state \<Rightarrow> vm_state" where
  "successor s =
     (let callee = hd (call_stack s); caller = hd (tl (call_stack s)) in
      s\<lparr> vararg_stack := take (ci_vararg_start caller) (vararg_stack s) @ drop (ci_vararg_start callee) (vararg_stack s),
         call_stack := callee\<lparr> ci_vararg_start := ci_vararg_start caller,
                               ci_chain := marked_tail_called (ci_chain callee) \<rparr> # tl (tl (call_stack s)),
         call_depth := call_depth s - 1 \<rparr>)"

lemma successor_records:
  assumes r: "records_above (Suc n) s0 s" and a: "admitted_at j s s'"
    and u: "unat (chain_units (ci_chain (hd (call_stack s)))) = 0"
  shows "records_above (Suc n) s0 (successor s')"
    "ci_vararg_start (hd (tl (call_stack s'))) \<le> ci_vararg_start (hd (call_stack s'))"
    "ci_vararg_start (hd (call_stack s')) \<le> length (vararg_stack s')" "0 < call_depth s'" "\<exists>x y zs. call_stack s' = x # y # zs"
proof -
  note R = r [unfolded records_above_def] and A = a [unfolded admitted_at_def]
  obtain caller cis where cs: "call_stack s = caller # cis" using R by (cases "call_stack s") auto
  obtain ci where ci: "call_stack s' = ci # caller # cis" "ci_vararg_start ci = length (vararg_stack s)"
    "metamethod_depth s' = metamethod_depth s + unat (chain_units (ci_chain ci))" using A cs by auto
  have acc: "accounted s'" using A by blast
  have le: "ci_vararg_start caller \<le> length (vararg_stack s)" "\<forall>c \<in> set cis. ci_vararg_start c \<le> ci_vararg_start caller"
    "length (vararg_stack s) \<le> length (vararg_stack s')" using acc ci(1,2) by (auto simp: accounted_def)
  show "ci_vararg_start (hd (tl (call_stack s'))) \<le> ci_vararg_start (hd (call_stack s'))"
    "ci_vararg_start (hd (call_stack s')) \<le> length (vararg_stack s')" "0 < call_depth s'" "\<exists>x y zs. call_stack s' = x # y # zs"
    using ci le acc by (simp_all add: accounted_def)
  let ?t = "successor s'"
  have "accounted ?t" using acc ci le u cs by (auto simp: accounted_def successor_def Let_def)
  moreover have "n \<le> length cis" "drop n cis = call_stack s0" using R cs by simp_all
  moreover have "metamethod_depth s' = metamethod_depth s0 + (unat (chain_units (ci_chain ci)) + record_units (take n cis))"
    using R cs ci u by simp
  moreover have first: "ci_vararg_start (call_stack ?t ! n) = length (vararg_stack s0)" "length (vararg_stack s0) \<le> ci_vararg_start caller"
  proof -
    have s: "ci_vararg_start ((caller # cis) ! n) = length (vararg_stack s0)" using R cs by simp
    then show "ci_vararg_start (call_stack ?t ! n) = length (vararg_stack s0)" using ci by (cases n) (simp_all add: successor_def Let_def)
    have "n < length (caller # cis)" using R cs by simp
    then have "(caller # cis) ! n \<in> set (caller # cis)" by (rule nth_mem)
    then show "length (vararg_stack s0) \<le> ci_vararg_start caller" using s le(2) by (metis order_refl set_ConsD)
  qed
  moreover have "take (length (vararg_stack s0)) (vararg_stack ?t) = vararg_stack s0"
  proof -
    have "take (length (vararg_stack s0)) (vararg_stack s') = vararg_stack s0"
    proof (rule take_prefix_trans)
      show "take (length (vararg_stack s)) (vararg_stack s') = vararg_stack s" using A by blast
      show "take (length (vararg_stack s0)) (vararg_stack s) = vararg_stack s0" using R by simp
    qed
    then show ?thesis using first(2) le ci by (simp add: successor_def Let_def min_absorb1)
  qed
  ultimately show "records_above (Suc n) s0 ?t" using ci
    unfolding records_above_def by (simp add: successor_def Let_def)
qed

lemma replace_tail_safe:
  assumes t: "tail_ready k s0 f gs b j s" and a: "admitted_at j s s'"
    and Q: "\<And>s' g. ready k s0 s' \<Longrightarrow> frames s' = g # gs \<Longrightarrow> \<not> b \<Longrightarrow> Q () s'"
  shows "wp tm replace_tail_caller Q E s'"
proof -
  note T = t [unfolded tail_ready_def] and A = a [unfolded admitted_at_def]
  have ent: "entered k s0 s" and fr: "frames s = f # gs" and bot: "fr_bottom f = j + 1"
    and u: "unat (chain_units (ci_chain (hd (call_stack s)))) = 0" using T by simp_all
  have rec: "records_above (Suc (length gs)) s0 s" using ent fr by (simp add: entered_records)
  note suc = successor_records [OF rec a u]
  obtain x y zs where cs: "call_stack s' = x # y # zs" using suc(5) by blast
  let ?t = "pop_frame (successor s')"
  have same: "stack ?t = stack s'" "open_upvalues ?t = open_upvalues s'" "closures ?t = closures s'" "interrupt ?t = interrupt s'"
    "upvalue_pool ?t = upvalue_pool s'" "stack_bottom ?t = j + 1" "frames ?t = gs" "native_call_depth ?t = native_call_depth s'"
    "active_rust_fn ?t = active_rust_fn s'" "poisoned ?t = poisoned s'" using A fr by (simp_all add: pop_frame_def successor_def Let_def)
  have ok: "vm_ok ?t" by (rule vm_ok_fields [of s']) (use A same in simp_all)
  have k: "k \<le> j" using ent fr bot by (simp add: entered_records)
  obtain c where c: "lua_function (stack s' ! j) s' = Some c"
    "length (stack s') = j + 1 + unat (max_stack (body (cl_bytecode c)))" using A by blast
  let ?g = "frame_new (cl_bytecode c) (cl_literals c) (cl_upvalues c) (j + 1)"
  have "wp tm push_frame Q E ?t"
  proof (rule push_frame_ready [OF same(7,6) _ ok _ _ refl])
    show "lua_function (stack ?t ! j) ?t = Some c" "length (stack ?t) = j + 1 + unat (max_stack (body (cl_bytecode c)))"
      using c same by (simp_all add: lua_function_def split: val.splits)
    show "opens_below j ?t" using T A same(2) by (simp add: call_ready_def opens_below_def)
    show "frames_ok ?t gs"
    proof (cases gs)
      case (Cons g gs')
      have "kept j s s'" using A by blast
      then have keep: "kept j s ?t" by (rule kept_fields) (use same in simp_all)
      have "fr_bottom g \<le> j" using T Cons bot by (auto simp: waits_for_def)
      then show ?thesis using frames_ok_kept [OF _ keep] T Cons by simp
    qed simp
    show "gs \<noteq> [] \<longrightarrow> waits_for ?g (hd gs)" using T bot by (simp add: waits_for_def frame_new_def)
    have "kept k s s'" using A k kept_mono by blast
    then have "kept k s0 s'" using entered_ok(2) [OF ent] kept_trans by blast
    then have "kept k s0 (?t\<lparr>frames := ?g # gs\<rparr>)" by (rule kept_fields) (use same in simp_all)
    moreover have "records_above (Suc (length gs)) s0 (?t\<lparr>frames := ?g # gs\<rparr>)"
      by (rule records_fields [OF suc(1)]) (simp_all add: pop_frame_def)
    moreover have "k \<notin> fst ` set (open_upvalues ?t)" using ent A same(2) by (simp add: entered_records)
    moreover have "fr_bottom (last (?g # gs)) = k + 1" using ent fr bot by (auto simp: entered_records frame_new_def split: if_splits)
    ultimately show "entered k s0 (?t\<lparr>frames := ?g # gs\<rparr>)" using ok ent fr k by (simp add: entered_records frame_new_def)
    have "\<not> b" using T A by blast
    then show "Q () (?t\<lparr>frames := ?g # gs\<rparr>)" if "ready k s0 (?t\<lparr>frames := ?g # gs\<rparr>)" by (intro Q [OF that]) simp_all
  qed
  moreover have "frames s' = f # gs" using A fr by simp
  ultimately show ?thesis using suc(2-4) cs
    by (simp add: wp_def replace_tail_caller_def successor_def Let_def)
qed

end
