(* ===== verification/Vm_Safety.thy ===== *)
theory Vm_Safety
  imports Vm_Returns
begin

text \<open>
  The dispatch loop as a whole: every instruction of verified bytecode keeps the invariant, an
  invocation returns or unwinds its frames, and calls, nested to any depth, never panic. With the
  interrupt set, the number of instructions left in the frames decreases in every step.
\<close>

section \<open>One instruction\<close>

definition fetched :: "nat \<Rightarrow> vm_state \<Rightarrow> frame \<Rightarrow> frame list \<Rightarrow> bool \<Rightarrow> nat \<Rightarrow> nat \<Rightarrow> vm_state \<Rightarrow> bool" where
  "fetched k s0 f gs b pc len s \<longleftrightarrow>
     running_at k s0 f gs b (pc + 1) len s \<and> pc < length (fr_code f) \<and> positioned f pc len"

definition arm_done :: "nat \<Rightarrow> vm_state \<Rightarrow> frame \<Rightarrow> frame list \<Rightarrow> bool \<Rightarrow> nat \<Rightarrow> leave option \<Rightarrow> vm_state \<Rightarrow> bool" where
  "arm_done k s0 f gs b pc r s \<longleftrightarrow>
     (case r of
        None \<Rightarrow> (\<exists>ip len. running_at k s0 f gs b ip len s \<and> positioned f ip len \<and> (b \<longrightarrow> pc < ip))
      | Some LeaveCall \<Rightarrow>
          (\<exists>len s1. running_at k s0 f gs b (pc + 1) len s1
             \<and> (let j = fr_bottom f + unat (field_a (fr_code f ! pc)) in opens_below j s1 \<and> admitted_at j s1 s)
             \<and> opcode (fr_code f ! pc) = OP_CALL)
      | Some LeaveTailCall \<Rightarrow>
          (\<exists>s1. tail_ready k s0 (f\<lparr>fr_ip := pc + 1\<rparr>) gs b (fr_bottom f - 1) s1 \<and> admitted_at (fr_bottom f - 1) s1 s)
      | Some (LeaveReturn first count) \<Rightarrow> leaving k s0 (f\<lparr>fr_ip := pc + 1\<rparr>) gs b first count s)"

lemma fetchedD:
  assumes "fetched k s0 f gs b pc len s"
  shows "running_at k s0 f gs b (pc + 1) len s" "pc < length (fr_code f)" "\<exists>d. admitted d (fr_bytecode f)"
    "\<not> consumes_open (fr_code f ! pc) \<Longrightarrow> len = fr_top f"
    "consumes_open (fr_code f ! pc) \<Longrightarrow> opcode (fr_code f ! pc) \<noteq> OP_RETURN \<Longrightarrow>
       fr_bottom f + unat (field_a (fr_code f ! pc)) + 1 \<le> len"
    "consumes_open (fr_code f ! pc) \<Longrightarrow> fr_bottom f + unat (field_a (fr_code f ! pc)) \<le> len"
    "arith_decode (opcode (fr_code f ! pc)) = None \<Longrightarrow> checked f (fr_code f ! pc)"
    "known_opcode (opcode (fr_code f ! pc))"
proof -
  show at: "running_at k s0 f gs b (pc + 1) len s" and pc: "pc < length (fr_code f)" using assms by (simp_all add: fetched_def)
  show "\<exists>d. admitted d (fr_bytecode f)" by (rule at_closure(1) [OF at])
  then obtain d where d: "admitted d (fr_bytecode f)" by blast
  have pos: "positioned f pc len" using assms by (simp add: fetched_def)
  then show "\<not> consumes_open (fr_code f ! pc) \<Longrightarrow> len = fr_top f" by (simp add: positioned_def)
  show "arith_decode (opcode (fr_code f ! pc)) = None \<Longrightarrow> checked f (fr_code f ! pc)"
    using frame_checked [OF running_atD(7,4) [OF at] pc] .
  show "known_opcode (opcode (fr_code f ! pc))"
  proof -
    obtain t st st' where "check_instr (view_of (fr_bytecode f)) t pc st = Inr st'" using admitted_instr [OF d pc] by metis
    then show ?thesis using pc by (auto simp: check_instr_def Let_def inst_at_view result_simps)
  qed
  have win: "open_window_fits (fr_code f ! pc) (fr_code f ! (pc - 1))" "fr_bottom f + unat (field_a (fr_code f ! (pc - 1))) \<le> len"
    if "consumes_open (fr_code f ! pc)" using admitted_consumer(2) [OF d pc that] pos that by (simp_all add: positioned_def)
  then show "consumes_open (fr_code f ! pc) \<Longrightarrow> opcode (fr_code f ! pc) \<noteq> OP_RETURN \<Longrightarrow>
       fr_bottom f + unat (field_a (fr_code f ! pc)) + 1 \<le> len"
    by (auto simp: open_window_fits_def consumes_open_def Let_def split: if_splits)
  show "consumes_open (fr_code f ! pc) \<Longrightarrow> fr_bottom f + unat (field_a (fr_code f ! pc)) \<le> len"
    using win by (auto simp: open_window_fits_def Let_def split: if_splits)
qed

lemma arm_done_next:
  assumes "admitted d (fr_bytecode f)" "pc < length (fr_code f)" "opcode (fr_code f ! pc) \<noteq> OP_RETURN"
    "\<not> produces_open (fr_code f ! pc)" "running_at k s0 f gs b (pc + 1) (fr_top f) s"
  shows "arm_done k s0 f gs b pc None s"
  unfolding arm_done_def option.case
  by (intro exI conjI) (rule assms(5), rule positioned_next(1) [OF assms(1-4)], simp)

lemma arm_done_open:
  assumes "admitted d (fr_bytecode f)" "pc < length (fr_code f)" "opcode (fr_code f ! pc) \<noteq> OP_RETURN"
    "produces_open (fr_code f ! pc)" "running_at k s0 f gs b (pc + 1) len s"
    "fr_bottom f + unat (field_a (fr_code f ! pc)) \<le> len"
  shows "arm_done k s0 f gs b pc None s"
  unfolding arm_done_def option.case
  by (intro exI conjI) (rule assms(5), rule positioned_next(2) [OF assms(1-4,6)], simp)

lemma known_bound: "known_opcode op \<Longrightarrow> op \<le> OP_TAILCALL"
proof -
  assume "known_opcode op"
  then have "op \<in> set (map fst OPCODES)"
    by (auto simp: known_opcode_def opcode_entry_def dest!: map_of_SomeD intro!: image_eqI [of op fst])
  moreover have "list_all (\<lambda>op. op \<le> OP_TAILCALL) (map fst OPCODES)" by (simp add: OPCODES_def)
  ultimately show ?thesis by (auto simp: list_all_iff)
qed

lemma at_leaving:
  assumes at: "running_at k s0 f gs b ip len s" and "fr_bottom f \<le> first" "first + count \<le> len"
  shows "leaving k s0 (f\<lparr>fr_ip := ip\<rparr>) gs b first count s"
proof -
  note d = running_atD [OF at]
  have fr: "frames s = f\<lparr>fr_ip := ip\<rparr> # gs" "b \<longrightarrow> interrupt s" using at by (simp_all add: running_at_def)
  have run: "entered k s0 s" "frames_ok s (f\<lparr>fr_ip := ip\<rparr> # gs)" using d(1) fr by (simp_all add: running_def)
  then have "frames_ok s gs" "gs \<noteq> [] \<longrightarrow> waits_for (f\<lparr>fr_ip := ip\<rparr>) (hd gs)"
    by (cases gs; auto simp: waits_for_def)+
  then show ?thesis using run(1) fr d(9,11) own_slot [OF at] assms(2,3) by (simp add: leaving_def)
qed

lemma fixed_args:
  assumes "checked f inst" "opcode inst \<in> {OP_CALL, OP_TAILCALL}"
  shows "unat (field_a inst) < fr_size f"
    "call_args inst = ArgFixed n \<Longrightarrow> unat (field_a inst) + 1 + unat n \<le> fr_size f \<and> \<not> consumes_open inst"
    "call_args inst = ArgDynamic \<Longrightarrow> consumes_open inst"
proof -
  have r: "unat (field_a inst) < fr_size f"
    "field_b inst \<noteq> OPEN_COUNT \<Longrightarrow> unat (field_a inst) + 1 + unat (field_b inst) \<le> fr_size f \<and> unat (field_b inst) \<le> 255"
    using call_ranges [OF assms(1)] tail_call_ranges [OF assms(1)] assms(2) by blast+
  show "unat (field_a inst) < fr_size f" by (rule r(1))
  show "call_args inst = ArgDynamic \<Longrightarrow> consumes_open inst" using assms(2) by (auto simp: call_args_def fixed_operands consumes_open_def)
  assume a: "call_args inst = ArgFixed n"
  then have "field_b inst \<noteq> OPEN_COUNT" by (auto simp: call_args_def arg_from_operand_def)
  then show "unat (field_a inst) + 1 + unat n \<le> fr_size f \<and> \<not> consumes_open inst"
    using r(2) fixed_operands(2) [of "field_b inst" n] a assms(2) by (auto simp: call_args_def consumes_open_def)
qed

lemma call_fetched:
  assumes W: "callbacks_calm W" and ft: "fetched k s0 f gs b pc len s" and op: "opcode (fr_code f ! pc) = OP_CALL"
    and E: "\<And>s'. entered k s0 s' \<Longrightarrow> E s'"
  shows "wp tm (call_arm W f (fr_code f ! pc) (fr_bottom f + unat (field_a (fr_code f ! pc))) (pc + 1)) (arm_done k s0 f gs b pc) E s"
proof -
  note F = fetchedD [OF ft]
  obtain d where d: "admitted d (fr_bytecode f)" using F(3) by blast
  have ck: "checked f (fr_code f ! pc)" using op by (intro F(7)) (simp add: arith_decode_none)
  have "opcode (fr_code f ! pc) \<in> {OP_CALL, OP_TAILCALL}" using op by simp
  note args = fixed_args [OF ck this] and top = running_atD(12) [OF F(1)]
  have nr: "opcode (fr_code f ! pc) \<noteq> OP_RETURN" using op by simp
  show ?thesis
  proof (rule call_arm_safe [OF W F(1)])
    show "fr_bottom f \<le> fr_bottom f + unat (field_a (fr_code f ! pc))" by simp
    show "call_args (fr_code f ! pc) = ArgFixed n \<Longrightarrow> fr_bottom f + unat (field_a (fr_code f ! pc)) + 1 + unat n \<le> len" for n
      using args(2) [of n] F(4) top by simp
    show "call_args (fr_code f ! pc) = ArgDynamic \<Longrightarrow> fr_bottom f + unat (field_a (fr_code f ! pc)) + 1 \<le> len"
      using args(3) F(5) nr by simp
  qed (use arm_done_next [OF d F(2) nr] arm_done_open [OF d F(2) nr] call_results_open [OF op] E op in \<open>auto simp: arm_done_def Let_def\<close>)
qed

lemma return_fetched:
  assumes ft: "fetched k s0 f gs b pc len s" and op: "opcode (fr_code f ! pc) = OP_RETURN"
    and E: "\<And>s'. entered k s0 s' \<Longrightarrow> E s'"
  shows "wp tm (return_arm (fr_code f ! pc) (fr_bottom f + unat (field_a (fr_code f ! pc)))) (arm_done k s0 f gs b pc) E s"
proof -
  note F = fetchedD [OF ft]
  let ?i = "fr_code f ! pc" let ?ra = "fr_bottom f + unat (field_a ?i)"
  have ck: "checked f ?i" using op by (intro F(7)) (simp add: arith_decode_none)
  note r = return_ranges [OF ck op] and top = running_atD(12) [OF F(1)]
  have fixed: "?ra + unat n \<le> len" if "return_count ?i = RetFixed n" for n
  proof -
    have "field_b ?i \<noteq> OPEN_COUNT" using that by (auto simp: return_count_def ret_from_operand_def)
    then show ?thesis using r(1) fixed_operands(1) [of "field_b ?i" n] that F(4) top op
      by (auto simp: return_count_def consumes_open_def)
  qed
  have all: "?ra \<le> len" if "return_count ?i = RetAll"
    using that F(6) op by (simp add: return_count_def fixed_operands consumes_open_def)
  have "wp tm (case return_count ?i of RetFixed n \<Rightarrow> return_vm (Some (LeaveReturn ?ra (unat n)))
      | RetAll \<Rightarrow> bind_vm (expect_vm (\<lambda>s. ?ra \<le> length (stack s))) (\<lambda>_.
                   read_vm (\<lambda>s. Some (LeaveReturn ?ra (length (stack s) - ?ra))))) (arm_done k s0 f gs b pc) E s'"
    if s': "running_at k s0 f gs b (pc + 1) len s'" for s'
  proof (cases "return_count ?i")
    case (RetFixed n)
    then show ?thesis using at_leaving [OF s', of ?ra "unat n"] fixed by (simp add: wp_basic arm_done_def)
  next
    case RetAll
    then show ?thesis using at_leaving [OF s', of ?ra "len - ?ra"] all running_atD(9) [OF s']
      by (simp add: wp_bind wp_basic arm_done_def)
  qed
  then show ?thesis unfolding return_arm_def wp_bind by (intro vc_cost(1) [OF F(1)]) (use E in auto)
qed

lemma tail_fetched:
  assumes W: "callbacks_calm W" and ft: "fetched k s0 f gs b pc len s" and op: "opcode (fr_code f ! pc) = OP_TAILCALL"
    and E: "\<And>s'. entered k s0 s' \<Longrightarrow> E s'"
  shows "wp tm (tail_call_arm W (fr_code f ! pc) (fr_bottom f) (fr_bottom f + unat (field_a (fr_code f ! pc))) (pc + 1))
    (arm_done k s0 f gs b pc) E s"
proof -
  note F = fetchedD [OF ft]
  have ck: "checked f (fr_code f ! pc)" using op by (intro F(7)) (simp add: arith_decode_none)
  have "opcode (fr_code f ! pc) \<in> {OP_CALL, OP_TAILCALL}" using op by simp
  note args = fixed_args [OF ck this] and top = running_atD(12) [OF F(1)]
  show ?thesis
  proof (rule tail_call_arm_safe [OF W F(1)])
    show "fr_bottom f \<le> fr_bottom f + unat (field_a (fr_code f ! pc))" by simp
    show "call_args (fr_code f ! pc) = ArgFixed n \<Longrightarrow> fr_bottom f + unat (field_a (fr_code f ! pc)) + 1 + unat n \<le> len" for n
      using args(2) [of n] F(4) top by simp
    show "call_args (fr_code f ! pc) = ArgDynamic \<Longrightarrow> fr_bottom f + unat (field_a (fr_code f ! pc)) + 1 \<le> len"
      using args(3) F(5) op by simp
  qed (use E in \<open>auto simp: arm_done_def\<close>)
qed

lemma vararg_fetched:
  assumes ft: "fetched k s0 f gs b pc len s" and op: "opcode (fr_code f ! pc) = OP_VARARG"
    and E: "\<And>s'. entered k s0 s' \<Longrightarrow> E s'"
  shows "wp tm (reg_vararg (fr_bottom f + unat (field_a (fr_code f ! pc))) (vararg_count (fr_code f ! pc)))
    (\<lambda>_. arm_done k s0 f gs b pc None) E s"
proof -
  note F = fetchedD [OF ft]
  let ?i = "fr_code f ! pc"
  obtain d where d: "admitted d (fr_bytecode f)" using F(3) by blast
  have ck: "checked f ?i" using op by (intro F(7)) (simp add: arith_decode_none)
  have nr: "opcode ?i \<noteq> OP_RETURN" "\<not> consumes_open ?i" using op by (simp_all add: consumes_open_def)
  note r = vararg_ranges [OF ck op] and top = running_atD(12) [OF F(1)]
  show ?thesis
  proof (cases "vararg_count ?i")
    case (RetFixed n)
    then have "field_b ?i \<noteq> OPEN_COUNT" by (auto simp: vararg_count_def ret_from_operand_def)
    then have "\<not> produces_open ?i" "unat n = unat (field_b ?i)" "unat (field_a ?i) + unat (field_b ?i) \<le> fr_size f"
      using r(1) RetFixed fixed_operands(1) [of "field_b ?i" n] op by (auto simp: produces_open_def vararg_count_def)
    then show ?thesis unfolding RetFixed using F(4) nr top
      by (intro vc_vararg_fixed [OF F(1)]) (auto intro: arm_done_next [OF d F(2) nr(1)])
  next
    case RetAll
    then have "produces_open ?i" using op by (simp add: vararg_count_def fixed_operands produces_open_def)
    then show ?thesis unfolding RetAll using F(4) nr top r(2) E
      by (intro vc_vararg_all [OF F(1)]) (auto intro: arm_done_open [OF d F(2) nr(1)])
  qed
qed

lemma not_open:
  "opcode i \<noteq> OP_CALL \<Longrightarrow> opcode i \<noteq> OP_VARARG \<Longrightarrow> \<not> produces_open i"
  "opcode i \<notin> {OP_CALL, OP_TAILCALL, OP_RETURN, OP_SET_LIST} \<Longrightarrow> \<not> consumes_open i"
  by (auto simp: produces_open_def consumes_open_def)

lemma low_not_open:
  "opcode i \<le> OP_POW_KR \<Longrightarrow> \<not> produces_open i \<and> opcode i \<noteq> OP_RETURN"
  "opcode i \<le> OP_POW_KR \<Longrightarrow> opcode i \<noteq> OP_SET_LIST \<Longrightarrow> \<not> consumes_open i"
  by (auto simp: produces_open_def consumes_open_def split: if_splits)

lemma closure_bound: "w \<le> OP_TAILCALL \<Longrightarrow> w \<noteq> OP_TAILCALL \<Longrightarrow> w \<le> OP_CLOSURE" for w :: u8
  by (simp add: word_le_nat_alt word_unat_eq_iff)

lemma arith_opcode_range: "arith_decode op = Some r \<Longrightarrow> OP_ADD_RR \<le> op \<and> op \<le> OP_POW_KR"
  by (auto simp: arith_decode_def not_less split: if_splits)

lemma forward_loop:
  assumes "checked f inst" "opcode inst \<in> {OP_FOR_PREP, OP_TFOR_LOOP}"
  shows "0 \<le> sint (sj inst)"
  using assms by (auto simp: checked_def check_operands_def Let_def result_simps)

lemma jump_ahead: "jumped (pc + 1) offset = Some t \<Longrightarrow> 0 \<le> offset \<Longrightarrow> pc < t"
  by (auto simp: jumped_def)

lemma operator_fetched:
  assumes W: "world_quiet W" "callbacks_calm W" and call: "call_safe tm b call" and ft: "fetched k s0 f gs b pc len s"
    and op: "\<not> opcode (fr_code f ! pc) \<le> OP_POW_KR" "opcode (fr_code f ! pc) \<notin> {OP_CALL, OP_RETURN, OP_TAILCALL}"
    and E: "\<And>s'. entered k s0 s' \<Longrightarrow> E s'"
  shows "wp tm (operator_arm W call f (fr_code f ! pc) (pc + 1)) (\<lambda>_. arm_done k s0 f gs b pc None) E s"
proof (cases "opcode (fr_code f ! pc) = OP_VARARG")
  case True
  then show ?thesis using vararg_fetched [OF ft True, of E] E by (simp add: operator_arm_def Let_def)
next
  case False
  note F = fetchedD [OF ft]
  let ?i = "fr_code f ! pc"
  obtain d where d: "admitted d (fr_bytecode f)" using F(3) by blast
  have ck: "checked f ?i" using op by (intro F(7) arith_decode_none) simp
  have "opcode ?i \<le> OP_TAILCALL" by (rule known_bound [OF F(8)])
  then have range: "opcode ?i \<le> OP_CLOSURE" using op(2) by (intro closure_bound) simp_all
  have "opcode ?i \<noteq> OP_SET_LIST" using op(1) by auto
  then have "\<not> consumes_open ?i" using op(2) by (intro not_open(2)) simp
  then have top: "running_at k s0 f gs b (pc + 1) (fr_top f) s" using F(1,4) by simp
  obtain t where t: "is_transfer (opcode ?i) \<Longrightarrow> jumped (pc + 1) (sint (sj ?i)) = Some t \<and> positioned f t (fr_top f)"
    using positioned_jump [OF d F(2)] by metis
  have nx: "opcode ?i \<noteq> OP_RETURN" "\<not> produces_open ?i" using op False not_open(1) [of ?i] by auto
  show ?thesis
  proof (rule operator_arm_safe [OF W call top ck op(1) range])
    show "opcode ?i \<notin> {OP_CALL, OP_RETURN, OP_VARARG}" using op(2) False by simp
    show "is_transfer (opcode ?i) \<Longrightarrow> jumped (pc + 1) (sint (sj ?i)) = Some t" using t by blast
    show "running_at k s0 f gs b (pc + 1) (fr_top f) s' \<Longrightarrow> arm_done k s0 f gs b pc None s'" for s'
      by (rule arm_done_next [OF d F(2) nx])
    show "arm_done k s0 f gs b pc None s'" if s': "running_at k s0 f gs b t (fr_top f) s'" "is_transfer (opcode ?i)"
      "b \<and> opcode ?i \<notin> {OP_FOR_PREP, OP_TFOR_LOOP} \<longrightarrow> 0 \<le> sint (sj ?i)" for s'
    proof -
      have "b \<longrightarrow> pc < t" using s'(3) forward_loop [OF ck] t [OF s'(2)] jump_ahead by blast
      then show ?thesis using s'(1) t [OF s'(2)] unfolding arm_done_def by auto
    qed
  qed (rule E)
qed

lemma table_fetched:
  assumes W: "world_quiet W" and call: "call_safe tm b call" and ft: "fetched k s0 f gs b pc len s"
    and op: "\<not> opcode (fr_code f ! pc) \<le> OP_NEW_TABLE_TEMPLATE" "opcode (fr_code f ! pc) \<le> OP_SELF"
    and E: "\<And>s'. entered k s0 s' \<Longrightarrow> E s'"
  shows "wp tm (table_arm W call f (fr_code f ! pc) (pc + 1)) (\<lambda>_. arm_done k s0 f gs b pc None) E s"
proof -
  note F = fetchedD [OF ft]
  let ?i = "fr_code f ! pc"
  obtain d where d: "admitted d (fr_bytecode f)" using F(3) by blast
  have ck: "checked f ?i" using op by (intro F(7) arith_decode_none)
  have low: "opcode ?i \<le> OP_POW_KR" using op(2) by (rule order_trans) simp
  have nx: "opcode ?i \<noteq> OP_RETURN" "\<not> produces_open ?i" and co: "opcode ?i \<noteq> OP_SET_LIST \<Longrightarrow> \<not> consumes_open ?i"
    using low_not_open [OF low] by simp_all
  have top: "fr_top f = fr_bottom f + fr_size f" by (rule running_atD(12) [OF F(1)])
  show ?thesis
  proof (rule table_arm_safe [OF W call F(1) _ ck _ _ op])
    show "opcode ?i \<noteq> OP_SET_LIST \<Longrightarrow> len = fr_top f" using F(4) co by blast
    show list: "opcode ?i = OP_SET_LIST \<Longrightarrow> set_list_count ?i \<noteq> None \<Longrightarrow> len = fr_top f"
      using F(4) by (auto simp: set_list_count_def consumes_open_def split: if_splits)
    show "opcode ?i = OP_SET_LIST \<Longrightarrow> fr_bottom f + unat (field_a ?i) + 1 \<le> len"
      using F(4,5) nx(1) set_list_ranges(1) [OF ck] top by (cases "consumes_open ?i") auto
    show "running_at k s0 f gs b (pc + 1) (fr_top f) s' \<Longrightarrow> arm_done k s0 f gs b pc None s'" for s'
      by (rule arm_done_next [OF d F(2) nx])
  qed (rule E)
qed

lemma plain_fetched:
  assumes ft: "fetched k s0 f gs b pc len s" and op: "opcode (fr_code f ! pc) \<le> OP_POW_KR" "opcode (fr_code f ! pc) \<noteq> OP_SET_LIST"
  shows "running_at k s0 f gs b (pc + 1) (fr_top f) s"
    "running_at k s0 f gs b (pc + 1) (fr_top f) s' \<Longrightarrow> arm_done k s0 f gs b pc None s'"
proof -
  note F = fetchedD [OF ft]
  let ?i = "fr_code f ! pc"
  obtain d where d: "admitted d (fr_bytecode f)" using F(3) by blast
  have nx: "opcode ?i \<noteq> OP_RETURN" "\<not> produces_open ?i" "\<not> consumes_open ?i"
    using low_not_open [OF op(1)] op(2) by simp_all
  then show "running_at k s0 f gs b (pc + 1) (fr_top f) s" using F(1,4) by simp
  show "running_at k s0 f gs b (pc + 1) (fr_top f) s' \<Longrightarrow> arm_done k s0 f gs b pc None s'"
    by (rule arm_done_next [OF d F(2) nx(1,2)])
qed

lemma continue_safe: "wp tm m (\<lambda>_. Q None) E s \<Longrightarrow> wp tm (continue_vm m) Q E s"
  unfolding continue_vm_def wp_bind by (erule wp_mono) (simp_all add: wp_basic)

lemma arm_safe:
  assumes W: "world_quiet W" "callbacks_calm W" and call: "call_safe tm b call" and ft: "fetched k s0 f gs b pc len s"
    and E: "\<And>s'. entered k s0 s' \<Longrightarrow> E s'"
  shows "wp tm (arm W call f (fr_code f ! pc) (pc + 1)) (arm_done k s0 f gs b pc) E s"
  unfolding arm_def wp_bind
proof (rule vc_cost(2) [OF fetchedD(1) [OF ft]])
  fix s' assume s': "running_at k s0 f gs b (pc + 1) len s'"
  let ?i = "fr_code f ! pc"
  have ft': "fetched k s0 f gs b pc len s'" using ft s' by (simp add: fetched_def)
  obtain d where d: "admitted d (fr_bytecode f)" using fetchedD(3) [OF ft] by blast
  show "wp tm (let base = fr_bottom f; ra = base + unat (field_a ?i); op = opcode ?i
       in if op = OP_CALL then call_arm W f ?i ra (pc + 1)
          else if op = OP_RETURN then return_arm ?i ra
          else if op = OP_TAILCALL then tail_call_arm W ?i base ra (pc + 1)
          else case arith_decode op of
                 Some (_, operands) \<Rightarrow>
                   (case arithmetic_op op of
                      Some g \<Rightarrow> continue_vm (arith_arm W f ?i base g operands)
                    | None \<Rightarrow> panic_vm)
               | None \<Rightarrow>
                   if op \<le> OP_NEW_TABLE_TEMPLATE then continue_vm (move_arm W f ?i)
                   else if op \<le> OP_SELF then continue_vm (table_arm W call f ?i (pc + 1))
                   else continue_vm (operator_arm W call f ?i (pc + 1))) (arm_done k s0 f gs b pc) E s'"
  proof (cases "arith_decode (opcode ?i)")
    case (Some r)
    obtain a operands where r: "r = (a, operands)" by (cases r)
    obtain g where g: "arithmetic_op (opcode ?i) = Some g" using arith_rows(1) [OF Some [unfolded r]] by blast
    have range: "OP_ADD_RR \<le> opcode ?i" "opcode ?i \<le> OP_POW_KR" using arith_opcode_range [OF Some] by simp_all
    have "opcode ?i \<noteq> OP_SET_LIST" using range(1) by auto
    note plain = plain_fetched [OF ft' range(2) this]
    have "wp tm (arith_arm W f ?i (fr_bottom f) g operands) (\<lambda>_. arm_done k s0 f gs b pc None) E s'"
      by (rule arith_arm_safe [OF plain(1) admitted_arith [OF d fetchedD(2) [OF ft] Some [unfolded r]] Some [unfolded r]])
        (use plain(2) E in auto)
    from continue_safe [where Q = "arm_done k s0 f gs b pc", OF this] show ?thesis using range(2) Some g r by (auto simp: Let_def)
  next
    case None
    have lo: "wp tm (move_arm W f ?i) (\<lambda>_. arm_done k s0 f gs b pc None) E s'" if o: "opcode ?i \<le> OP_NEW_TABLE_TEMPLATE"
    proof -
      have p: "opcode ?i \<le> OP_POW_KR" "opcode ?i \<noteq> OP_SET_LIST" using o order_trans [OF o, of OP_POW_KR] by auto
      show ?thesis by (rule move_arm_safe [OF W(1) plain_fetched(1) [OF ft' p] fetchedD(7) [OF ft None] o])
        (use plain_fetched(2) [OF ft' p] E in auto)
    qed
    have hi: "\<not> opcode ?i \<le> OP_POW_KR" if "\<not> opcode ?i \<le> OP_SELF"
    proof
      assume "opcode ?i \<le> OP_POW_KR"
      then show False using None that by (auto simp: arith_decode_def word_less_nat_alt word_le_nat_alt Let_def split: if_splits)
    qed
    show ?thesis
      using call_fetched [OF W(2) ft' _ E] return_fetched [OF ft' _ E] tail_fetched [OF W(2) ft' _ E] None
        continue_safe [where Q = "arm_done k s0 f gs b pc", OF lo] continue_safe [where Q = "arm_done k s0 f gs b pc", OF table_fetched [OF W(1) call ft' _ _ E]]
        continue_safe [where Q = "arm_done k s0 f gs b pc", OF operator_fetched [OF W call ft' hi _ E]]
      by (simp add: Let_def)
  qed
qed (rule E)

text \<open>The instructions the frames have left, which bound an interrupted run.\<close>

definition instructions_left :: "frame list \<Rightarrow> nat" where
  "instructions_left fs = (\<Sum>f \<leftarrow> fs. length (fr_code f) - fr_ip f)"

lemma instructions_left_simps [simp]: "instructions_left [] = 0" "instructions_left (f # fs) = length (fr_code f) - fr_ip f + instructions_left fs"
  by (simp_all add: instructions_left_def)

definition stepped :: "nat \<Rightarrow> vm_state \<Rightarrow> bool \<Rightarrow> nat \<Rightarrow> (nat \<times> nat) option \<Rightarrow> vm_state \<Rightarrow> bool" where
  "stepped k s0 b n r s \<longleftrightarrow>
     (case r of
        None \<Rightarrow> ready k s0 s \<and> (b \<longrightarrow> interrupt s \<and> instructions_left (frames s) < n)
      | Some (first, count) \<Rightarrow> \<exists>f. leaving k s0 f [] b first count s)"

lemma ready_at: "ready k s0 s \<Longrightarrow> frames s = f # gs \<Longrightarrow> b \<longrightarrow> interrupt s \<Longrightarrow>
    running_at k s0 f gs b (fr_ip f) (length (stack s)) s \<and> positioned f (fr_ip f) (length (stack s))"
  by (simp add: ready_def running_at_def)

lemma at_ready: "running_at k s0 f gs b ip len s \<Longrightarrow> positioned f ip len \<Longrightarrow> ready k s0 s"
  by (auto simp: ready_def running_at_def positioned_def split: if_splits)

lemma leave_safe:
  assumes fin: "arm_done k s0 f gs b pc (Some l) s" and pc: "pc < length (fr_code f)"
    and n: "instructions_left gs < n" and E: "\<And>s'. entered k s0 s' \<Longrightarrow> E s'"
  shows "wp tm (leave_frame l) (stepped k s0 b n) E s"
proof (cases l)
  case LeaveCall
  obtain len s1 where s1: "running_at k s0 f gs b (pc + 1) len s1"
    "opens_below (fr_bottom f + unat (field_a (fr_code f ! pc))) s1"
    "admitted_at (fr_bottom f + unat (field_a (fr_code f ! pc))) s1 s" "opcode (fr_code f ! pc) = OP_CALL"
    using fin LeaveCall by (auto simp: arm_done_def Let_def)
  have "wp tm push_frame (\<lambda>_. wp tm (return_vm None) (stepped k s0 b n) E) E s"
    by (rule call_frame_ready [OF s1(1-3) refl pc s1(4)]) (simp add: wp_basic stepped_def)
  then show ?thesis using LeaveCall by (simp add: leave_frame_def wp_bind)
next
  case LeaveTailCall
  obtain s1 where s1: "tail_ready k s0 (f\<lparr>fr_ip := pc + 1\<rparr>) gs b (fr_bottom f - 1) s1" "admitted_at (fr_bottom f - 1) s1 s"
    using fin LeaveTailCall by (auto simp: arm_done_def)
  have "wp tm replace_tail_caller (\<lambda>_. wp tm (return_vm None) (stepped k s0 b n) E) E s"
    by (rule replace_tail_safe [OF s1]) (simp add: wp_basic stepped_def)
  then show ?thesis using LeaveTailCall by (simp add: leave_frame_def wp_bind)
next
  case (LeaveReturn first count)
  have lv: "leaving k s0 (f\<lparr>fr_ip := pc + 1\<rparr>) gs b first count s" using fin LeaveReturn by (simp add: arm_done_def)
  then have fr: "frames s = f\<lparr>fr_ip := pc + 1\<rparr> # gs" by (simp add: leaving_def)
  show ?thesis
  proof (cases gs)
    case Nil
    then show ?thesis using fr lv LeaveReturn by (auto simp: leave_frame_def wp_bind wp_basic stepped_def)
  next
    case (Cons g gs')
    have "wp tm (return_to_caller first count) (\<lambda>_. wp tm (return_vm None) (stepped k s0 b n) E) E s"
    proof (rule return_to_caller_safe [OF lv [unfolded Cons]])
      fix s' len assume s': "running_at k s0 g gs' b (fr_ip g) len s'" "positioned g (fr_ip g) len"
      have "frames s' = gs" "b \<longrightarrow> interrupt s'" using s'(1) Cons by (simp_all add: running_at_def)
      then show "wp tm (return_vm None) (stepped k s0 b n) E s'" using at_ready [OF s'] n by (simp add: wp_basic stepped_def)
    qed (rule E)
    then show ?thesis using fr Cons LeaveReturn by (simp add: leave_frame_def wp_bind wp_basic)
  qed
qed

lemma exec_safe:
  assumes W: "world_quiet W" "callbacks_calm W" and call: "call_safe tm b call" and rd: "ready k s0 s" and b: "b \<longrightarrow> interrupt s"
  shows "wp tm (exec_instr W call) (stepped k s0 b (instructions_left (frames s))) (entered k s0) s"
proof -
  obtain f gs where fr: "frames s = f # gs" using rd by (cases "frames s") (auto simp: ready_def running_def entered_def)
  let ?pc = "fr_ip f" and ?n = "instructions_left (frames s)"
  note at = ready_at [OF rd fr b]
  have pc: "?pc < length (fr_code f)" using at by (simp add: positioned_def)
  have ft: "fetched k s0 f gs b ?pc (length (stack s)) (set_ip (?pc + 1) s)"
    using at at_set_ip [of k s0 f gs b ?pc "length (stack s)" s "?pc + 1"] pc by (simp add: fetched_def)
  have "wp tm (case r of None \<Rightarrow> return_vm None | Some l \<Rightarrow> leave_frame l) (stepped k s0 b ?n) (entered k s0) s'"
    if r: "arm_done k s0 f gs b ?pc r s'" for r s'
  proof (cases r)
    case None
    obtain ip len where ip: "running_at k s0 f gs b ip len s'" "positioned f ip len" "b \<longrightarrow> ?pc < ip"
      using r None by (auto simp: arm_done_def)
    have "frames s' = f\<lparr>fr_ip := ip\<rparr> # gs" "b \<longrightarrow> interrupt s'" using ip(1) by (simp_all add: running_at_def)
    then show ?thesis using None at_ready [OF ip(1,2)] ip(3) pc fr by (simp add: wp_basic stepped_def) linarith
  next
    case (Some l)
    then show ?thesis using leave_safe [OF r [unfolded Some] pc, of ?n "entered k s0" tm] fr pc by simp
  qed
  then have "wp tm (arm W call f (fr_code f ! ?pc) (?pc + 1)) (\<lambda>r. wp tm (case r of None \<Rightarrow> return_vm None | Some l \<Rightarrow> leave_frame l)
      (stepped k s0 b ?n) (entered k s0)) (entered k s0) (set_ip (?pc + 1) s)"
    by (intro wp_mono [OF arm_safe [OF W call ft]]) auto
  then have "wp tm (bind_vm (nth_vm (fr_code f) ?pc) (\<lambda>inst. bind_vm (update_vm (set_ip (?pc + 1))) (\<lambda>_.
      bind_vm (arm W call f inst (?pc + 1)) (\<lambda>r. case r of None \<Rightarrow> return_vm None | Some l \<Rightarrow> leave_frame l))))
      (stepped k s0 b ?n) (entered k s0) s"
    using pc by (simp add: wp_bind wp_basic wp_registers(5))
  then show ?thesis using fr by (simp add: wp_def exec_instr_def)
qed

text \<open>The loop: with the interrupt set, the instructions the frames have left are enough fuel.\<close>

lemma eval_safe:
  assumes W: "world_quiet W" "callbacks_calm W" and call: "call_safe tm b call"
  shows "ready k s0 s \<Longrightarrow> b \<longrightarrow> interrupt s \<Longrightarrow> tm \<or> b \<and> instructions_left (frames s) \<le> n \<Longrightarrow>
    wp tm (eval_batched W call n) (\<lambda>(first, count) s'. \<exists>f. leaving k s0 f [] b first count s') (entered k s0) s"
proof (induction n arbitrary: s)
  case 0
  obtain f gs where fr: "frames s = f # gs" using 0(1) by (cases "frames s") (auto simp: ready_def running_def entered_def)
  then have "fr_ip f < length (fr_code f)" using 0(1) by (simp add: ready_def positioned_def)
  then have tm using 0(3) fr by auto
  then show ?case by (simp add: wp_def)
next
  case (Suc n)
  have "wp tm (exec_instr W call) (\<lambda>r. wp tm (case r of Some result \<Rightarrow> return_vm result | None \<Rightarrow> eval_batched W call n)
      (\<lambda>(first, count) s'. \<exists>f. leaving k s0 f [] b first count s') (entered k s0)) (entered k s0) s"
  proof (rule wp_mono [OF exec_safe [OF W call Suc.prems(1,2)]])
    fix r s' assume st: "stepped k s0 b (instructions_left (frames s)) r s'"
    show "wp tm (case r of Some result \<Rightarrow> return_vm result | None \<Rightarrow> eval_batched W call n)
      (\<lambda>(first, count) s'. \<exists>f. leaving k s0 f [] b first count s') (entered k s0) s'"
    proof (cases r)
      case None
      then show ?thesis using st Suc.IH [of s'] Suc.prems(3) by (auto simp: stepped_def)
    next
      case (Some x)
      then show ?thesis using st by (cases x) (simp add: stepped_def wp_basic)
    qed
  qed
  then have "wp tm (bind_vm (exec_instr W call) (\<lambda>r. case r of Some result \<Rightarrow> return_vm result | None \<Rightarrow> eval_batched W call n))
      (\<lambda>(first, count) s'. \<exists>f. leaving k s0 f [] b first count s') (entered k s0) s" by (simp only: wp_bind)
  then show ?case by (simp add: wp_def)
qed

section \<open>Unwinding\<close>

text \<open>The invocation with the frames \<open>frs\<close> left to unwind.\<close>

definition unwinding :: "nat \<Rightarrow> vm_state \<Rightarrow> frame list \<Rightarrow> vm_state \<Rightarrow> bool" where
  "unwinding k s0 frs s \<longleftrightarrow>
     vm_ok s \<and> kept k s0 s \<and> records_above (length frs) s0 s \<and> (\<forall>f \<in> set frs. k < fr_bottom f)
     \<and> k \<notin> fst ` set (open_upvalues s) \<and> (if frs = [] then opens_below k s else fr_bottom (last frs) = k + 1)"

definition frame_left :: "frame \<Rightarrow> frame list \<Rightarrow> vm_state \<Rightarrow> vm_state" where
  "frame_left f frs s =
     (case frs of [] \<Rightarrow> \<lambda>s. s | caller # _ \<Rightarrow> (\<lambda>s. s\<lparr>stack_bottom := fr_bottom caller\<rparr>))
       (pop_frame (popped (truncate_stack (fr_bottom f) (close_upvalues (fr_bottom f) s))))"

lemma unwinding_step:
  assumes u: "unwinding k s0 (f # frs) s"
  shows "unwinding k s0 frs (frame_left f frs s)"
proof -
  note U = u [unfolded unwinding_def]
  have ok: "vm_ok s" and uv: "uv_inv s" and bot: "k < fr_bottom f" and own: "k \<notin> fst ` set (open_upvalues s)"
    using U by (auto simp: vm_ok_def)
  note cf = close_fields [OF uv]
  let ?l = "fr_bottom f" let ?c = "close_upvalues ?l s" and ?t = "frame_left f frs s"
  have same: "stack ?t = take ?l (stack s)" "open_upvalues ?t = open_upvalues ?c" "closures ?t = closures ?c"
    "upvalue_pool ?t = upvalue_pool ?c" "interrupt ?t = interrupt s" "native_call_depth ?t = native_call_depth s"
    "active_rust_fn ?t = active_rust_fn s" "poisoned ?t = poisoned ?c"
    by (cases frs; simp add: frame_left_def pop_frame_def truncate_stack_def cf)+
  have opens: "i < ?l" "(i, r) \<in> set (open_upvalues s)" if "(i, r) \<in> set (open_upvalues ?c)" for i r
    using that by (auto simp: close_upvalues_list [OF uv])
  have "vm_ok (?c\<lparr>stack := replicate ?l VNil\<rparr>)" using ok by (intro vm_ok_close) simp_all
  then have "vm_ok (?c\<lparr>stack := replicate ?l VNil, stack := take ?l (stack s)\<rparr>)"
    by (rule vm_ok_stack) (use opens opens_in_stack [OF ok] in fastforce)
  then have okt: "vm_ok ?t" by (rule vm_ok_fields) (simp_all add: same)
  have k: "k \<le> length (stack s)" using U by (simp add: kept_def)
  have "kept k s ?c" using bot k by (intro kept_close [OF uv]) simp_all
  moreover have "kept k ?c (?c\<lparr>stack := take ?l (stack s)\<rparr>)" using bot k by (intro kept_stack) (simp_all add: cf)
  ultimately have "kept k s ?t" by (rule kept_fields [OF kept_trans]) (simp_all add: same cf)
  then have "kept k s0 ?t" using U kept_trans by blast
  moreover have "records_above (length frs) s0 ?t"
  proof -
    have "records_above (Suc (length frs)) s0 s" using U by simp
    then have "records_above (Suc (length frs)) s0 (truncate_stack ?l ?c)"
      by (rule records_fields) (simp_all add: truncate_stack_def cf)
    from records_popped(1) [OF this] show ?thesis
      by (rule records_fields) (cases frs; simp add: frame_left_def pop_frame_def)+
  qed
  moreover have "k \<notin> fst ` set (open_upvalues ?t)" using own opens same(2) by force
  moreover have "opens_below k ?t" if "frs = []"
  proof -
    have "?l = k + 1" using U that by simp
    then show ?thesis using opens own same(2) by (force simp: opens_below_def less_Suc_eq)
  qed
  ultimately show ?thesis using U okt by (cases "frs = []") (simp_all add: unwinding_def)
qed

lemma unwind_frames_safe:
  "unwinding k s0 frs s \<Longrightarrow> (\<And>s'. unwinding k s0 [] s' \<Longrightarrow> Q () s') \<Longrightarrow> wp tm (unwind_frames frs) Q E s"
proof (induction frs arbitrary: s)
  case (Cons f frs)
  note U = Cons.prems(1) [unfolded unwinding_def]
  have ok: "vm_ok s" and uv: "uv_inv s" and rec: "records_above (Suc (length frs)) s0 s" using U by (simp_all add: vm_ok_def)
  let ?c = "truncate_stack (fr_bottom f) (close_upvalues (fr_bottom f) s)"
  have "accounted ?c" "call_stack ?c \<noteq> []"
    using records_popped(2,3) [OF rec] by (simp_all add: truncate_stack_def close_fields [OF uv] accounted_def)
  note pop = wp_pop_activation [OF this]
  have "wp tm (unwind_frames frs) Q E (frame_left f frs s)" by (rule Cons.IH [OF unwinding_step [OF Cons.prems(1)] Cons.prems(2)])
  then show ?case
    by (cases frs) (simp_all add: wp_bind wp_basic wp_close [OF ok] pop frame_left_def)
qed (simp add: wp_basic)

lemma entered_unwinding: "entered k s0 s \<Longrightarrow> unwinding k s0 (frames s) s"
  by (simp add: entered_records unwinding_def)

section \<open>Invocations\<close>

lemma open_below_all: "opens_below j s \<Longrightarrow> open_below j s = open_upvalues s"
  by (auto simp: opens_below_def open_below_def filter_id_conv)

text \<open>The end of an invocation: nothing is left of it but its results.\<close>

lemma unwinding_calm:
  assumes u: "unwinding j s [] s1" and r: "call_ready j s"
  shows "calm j s (s1\<lparr>stack_bottom := stack_bottom s, frames := frames s, pending := pending s\<rparr>)"
proof -
  note U = u [unfolded unwinding_def records_above_def]
  have "open_upvalues s1 = open_upvalues s"
    using U r open_below_all [of j s] open_below_all [of j s1] by (simp add: kept_def call_ready_def)
  moreover have "call_depth s1 = call_depth s" using U r by (simp add: accounted_def call_ready_def)
  ultimately show ?thesis using U by (simp add: calm_def)
qed

lemma unwind_safe:
  assumes ent: "entered j s s1" and r: "call_ready j s"
    and E: "\<And>s2. calm j s (s2\<lparr>frames := frames s, pending := pending s\<rparr>) \<Longrightarrow> E s2"
  shows "wp tm (unwind_invocation e (stack_bottom s)) Q E s1"
proof -
  have "wp tm (unwind_frames (frames s1)) (\<lambda>_. wp tm (bind_vm (update_vm (\<lambda>s1. s1\<lparr>stack_bottom := stack_bottom s\<rparr>)) (\<lambda>_. fail_vm e)) Q E) E s1"
  proof (rule unwind_frames_safe [OF entered_unwinding [OF ent]])
    fix s2 assume "unwinding j s [] s2"
    from E [of "s2\<lparr>stack_bottom := stack_bottom s\<rparr>"] unwinding_calm [OF this r]
    show "wp tm (bind_vm (update_vm (\<lambda>s1. s1\<lparr>stack_bottom := stack_bottom s\<rparr>)) (\<lambda>_. fail_vm e)) Q E s2"
      by (simp add: wp_bind wp_basic)
  qed
  then show ?thesis by (simp add: unwind_invocation_def wp_bind wp_basic)
qed

lemma returned_calm:
  assumes l: "leaving j s f [] b first count s1" and r: "call_ready j s"
  defines "t \<equiv> popped (collected j first count s1)"
  shows "calm j s (t\<lparr>stack_bottom := stack_bottom s, frames := frames s, pending := pending s\<rparr>)" "length (stack t) = j + count"
    "accounted (collected j first count s1)" "call_stack (collected j first count s1) \<noteq> []" "fr_bottom f = j + 1"
proof -
  note L = l [unfolded leaving_def]
  have ent: "entered j s s1" and fr: "frames s1 = [f]" using L by simp_all
  show bot: "fr_bottom f = j + 1" using ent fr by (simp add: entered_records)
  have ok: "vm_ok s1" and uv: "uv_inv s1" and own: "j \<notin> fst ` set (open_upvalues s1)" and first: "j \<le> first" "first + count \<le> length (stack s1)"
    and rec: "records_above (Suc 0) s s1" using ent fr L bot by (auto simp: entered_records vm_ok_def)
  note c = collected_ok [OF ok own first]
  have "records_above (Suc 0) s (collected j first count s1)" by (rule records_fields [OF rec]) (simp_all add: collected_fields [OF uv])
  note p = records_popped [OF this]
  show "accounted (collected j first count s1)" "call_stack (collected j first count s1) \<noteq> []" by (rule p)+
  show "length (stack t) = j + count" using c(4) by (simp add: t_def)
  have "kept j s s1" by (rule entered_ok(2) [OF ent])
  then have "kept j s (collected j first count s1)" using c(2) kept_trans by blast
  then have keep: "kept j s t" by (rule kept_fields) (simp_all add: t_def)
  moreover have "vm_ok t" by (rule vm_ok_fields [OF c(1)]) (simp_all add: t_def)
  moreover have below: "opens_below j t" using c(3) by (simp add: t_def opens_below_def)
  ultimately have "unwinding j s [] t" using p(1) by (simp add: unwinding_def t_def [symmetric]) (auto simp: opens_below_def)
  from unwinding_calm [OF this r]
  show "calm j s (t\<lparr>stack_bottom := stack_bottom s, frames := frames s, pending := pending s\<rparr>)" .
qed

lemma wp_frame_run:
  assumes "wp tm (eval_batched W call n) Q E (s\<lparr>pending := 0\<rparr>)" "\<And>s' c. E s' \<Longrightarrow> E (s'\<lparr>vm_cost := c\<rparr>)"
  shows "wp tm (frame_run W call n) Q E s"
  using assms by (auto simp: wp_def frame_run_def split: prod.splits outcome.splits)

lemma entered_cost [simp]: "entered k s0 (s\<lparr>vm_cost := c\<rparr>) = entered k s0 s"
  by (simp add: entered_def accounted_def)

lemma ready_pending: "ready k s0 s \<Longrightarrow> ready k s0 (s\<lparr>pending := p\<rparr>)"
proof -
  assume r: "ready k s0 s"
  have "frames_ok (s\<lparr>pending := p\<rparr>) (frames s)" if "frames_ok s (frames s)"
    using that by (rule frames_ok_mono) (simp add: frame_ok_def)
  then show ?thesis using r by (simp add: ready_def running_def entered_def accounted_def)
qed

lemma enter_invocation:
  assumes r: "call_ready j s" and a: "admitted_at j s outer"
    and Q: "\<And>s1. ready j s s1 \<Longrightarrow> Q () s1"
  shows "wp tm push_frame Q E (outer\<lparr>frames := []\<rparr>)"
proof -
  note A = a [unfolded admitted_at_def]
  obtain ci where ci: "call_stack outer = ci # call_stack s" "ci_vararg_start ci = length (vararg_stack s)"
    "metamethod_depth outer = metamethod_depth s + unat (chain_units (ci_chain ci))" using A by blast
  obtain c where c: "lua_function (stack outer ! j) outer = Some c"
    "length (stack outer) = j + 1 + unat (max_stack (body (cl_bytecode c)))" using A by blast
  let ?g = "frame_new (cl_bytecode c) (cl_literals c) (cl_upvalues c) (j + 1)" and ?o = "outer\<lparr>frames := []\<rparr>"
  show ?thesis
  proof (rule push_frame_ready [where gs = "[]" and f = ?g and j = j and c = c])
    show "frames ?o = []" "stack_bottom ?o = j + 1" "opens_below j ?o" "vm_ok ?o"
      using A r by (simp_all add: opens_below_def call_ready_def)
    show "lua_function (stack ?o ! j) ?o = Some c" "length (stack ?o) = j + 1 + unat (max_stack (body (cl_bytecode c)))"
      using c by (simp_all add: lua_function_def split: val.splits)
    have own: "j \<notin> fst ` set (open_upvalues outer)" using A r by (auto simp: call_ready_def opens_below_def)
    have "records_above (Suc 0) s outer" using A ci by (simp add: records_above_def)
    then have "records_above (Suc 0) s (?o\<lparr>frames := [?g]\<rparr>)" by (rule records_fields) simp_all
    then show "entered j s (?o\<lparr>frames := [?g]\<rparr>)" using A own by (simp add: entered_records frame_new_def)
  qed (use Q in simp_all)
qed

lemma run_invocation_safe:
  assumes W: "world_quiet W" "callbacks_calm W" and call: "call_safe tm False call" and tm
    and r: "call_ready j s" and a: "admitted_at j s outer"
  shows "wp tm (run_invocation W call n (stack_bottom s)) (\<lambda>m s'. calm j s s' \<and> length (stack s') = j + unat m) (calm j s) outer"
proof -
  have loc: "frames outer = frames s" "pending outer = pending s" using a by (simp_all add: admitted_at_def)
  have run: "wp tm (bind_vm (update_vm (\<lambda>s. s\<lparr>frames := []\<rparr>)) (\<lambda>_. bind_vm push_frame (\<lambda>_. frame_run W call n)))
      (\<lambda>(first, count) s'. \<exists>f. leaving j s f [] False first count s') (entered j s) outer"
  proof -
    have "wp tm push_frame (\<lambda>_. wp tm (frame_run W call n)
        (\<lambda>(first, count) s'. \<exists>f. leaving j s f [] False first count s') (entered j s)) (entered j s) (outer\<lparr>frames := []\<rparr>)"
    proof (rule enter_invocation [OF r a])
      fix s1 assume "ready j s s1"
      from eval_safe [OF W call ready_pending [OF this]] \<open>tm\<close>
      show "wp tm (frame_run W call n) (\<lambda>(first, count) s'. \<exists>f. leaving j s f [] False first count s') (entered j s) s1"
        by (intro wp_frame_run) simp_all
    qed
    then show ?thesis by (simp add: wp_bind wp_basic)
  qed
  have unwind: "(\<exists>e. r = Failed e) \<and> calm j s (restore_locals outer s2)"
    if "entered j s s1" "unwind_invocation e (stack_bottom s) s1 = (r, s2)" for e s1 s2 and r :: "u8 outcome"
    using unwind_safe [OF that(1) r, of "\<lambda>s2. calm j s (restore_locals outer s2)" False e "\<lambda>(_ :: u8) _. False"] loc that(2)
    by (auto simp: restore_locals_def wp_def split: outcome.splits)
  have fin: "wp tm (\<lambda>s1. case collect_returns f first count s1 of
                  (Done k, s1) \<Rightarrow>
                    bind_vm pop_activation (\<lambda>_.
                    bind_vm (update_vm (\<lambda>t. (restore_locals outer t)\<lparr>stack_bottom := stack_bottom s\<rparr>)) (\<lambda>_.
                    return_vm k)) s1
                | (Failed e, s1) \<Rightarrow>
                    (case unwind_invocation e (stack_bottom s) s1 of (r, s2) \<Rightarrow> (r, restore_locals outer s2))
                | (Panicked, s1) \<Rightarrow> (Panicked, s1)
                | (Timeout, s1) \<Rightarrow> (Timeout, s1)) (\<lambda>m s'. calm j s s' \<and> length (stack s') = j + unat m) (calm j s) s1"
    if l: "leaving j s f [] False first count s1" for f first count s1
  proof -
    note R = returned_calm [OF l r]
    have L: "vm_ok s1" "j \<le> first" "first + count \<le> length (stack s1)" "entered j s s1"
      using l R(5) by (auto simp: leaving_def dest: entered_ok)
    have "calm j s (popped (collected j first count s1)\<lparr>frames := frames s, pending := pending s, stack_bottom := stack_bottom s\<rparr>)"
      using R(1) by (simp add: calm_def)
    then have "wp tm (collect_returns f first count) (\<lambda>m t. wp tm (bind_vm pop_activation (\<lambda>_.
        bind_vm (update_vm (\<lambda>t. (restore_locals outer t)\<lparr>stack_bottom := stack_bottom s\<rparr>)) (\<lambda>_. return_vm m)))
          (\<lambda>m s'. calm j s s' \<and> length (stack s') = j + unat m) (calm j s) t) (entered j s) s1"
      by (intro collect_returns_safe [OF L(1) R(5) L(2,3)])
        (use R(2) loc L(4) in \<open>simp_all add: wp_bind wp_basic wp_pop_activation [OF R(3,4)] restore_locals_def\<close>)
    then show ?thesis by (auto simp: wp_def split: prod.splits outcome.splits dest: unwind)
  qed
  obtain x s1 where x: "bind_vm (update_vm (\<lambda>s. s\<lparr>frames := []\<rparr>)) (\<lambda>_. bind_vm push_frame (\<lambda>_. frame_run W call n)) outer = (x, s1)"
    by fastforce
  show ?thesis
  proof (cases x)
    case (Done y)
    obtain first count where y: "y = (first, count)" by (cases y)
    obtain f where f: "leaving j s f [] False first count s1" using run x Done y by (auto simp: wp_def)
    then have "frames s1 = [f]" by (simp add: leaving_def)
    then show ?thesis using fin [OF f] x Done y by (simp add: wp_def run_invocation_def)
  next
    case (Failed e)
    then have "entered j s s1" using run x by (simp add: wp_def)
    then show ?thesis using x Failed by (auto simp: wp_def run_invocation_def split: prod.splits dest: unwind)
  qed (use run x \<open>tm\<close> in \<open>simp_all add: wp_def run_invocation_def\<close>)
qed

section \<open>Calls from the host\<close>

lemma calm_native:
  assumes "calm j (s\<lparr>native_call_depth := native_call_depth s + 1\<rparr>) s'"
  shows "native_call_depth s' \<noteq> 0" "calm j s (s'\<lparr>native_call_depth := native_call_depth s' - 1\<rparr>)"
  using assms by (simp_all add: calm_def kept_def open_below_def)

lemma fail_call_safe:
  assumes c: "calm j s s'" and r: "call_ready j s" and E: "\<And>s'. calm j s s' \<Longrightarrow> length (stack s') = j \<Longrightarrow> E s'"
  shows "wp tm (fail_call e j (stack_bottom s)) Q E s'"
proof -
  have len: "j \<le> length (stack s')" using c by (simp add: calm_def kept_def)
  have "calm j s (s'\<lparr>stack := take j (stack s')\<rparr>)" using len r by (intro calm_stack [OF c]) (simp_all add: call_ready_def)
  then have "calm j s ((truncate_stack j s')\<lparr>stack_bottom := stack_bottom s\<rparr>)" by (simp add: calm_def truncate_stack_def)
  then have "E ((truncate_stack j s')\<lparr>stack_bottom := stack_bottom s\<rparr>)" using len by (intro E) (simp_all add: truncate_stack_def)
  then show ?thesis by (simp add: wp_def fail_call_def)
qed

lemma call_unguarded_step:
  assumes W: "world_quiet W" "callbacks_calm W" and call: "tm \<Longrightarrow> call_safe tm False (call_unguarded W n)"
    and r: "call_ready j s" and len: "length (stack s) = j + 1 + unat m" and bot: "stack_bottom s \<le> j" and t: "tm \<or> interrupt s"
  shows "wp tm (call_unguarded W (Suc n) m expected) (\<lambda>_ s'. calm j s s' \<and> fits expected j (length (stack s')) \<and> \<not> interrupt s)
      (\<lambda>s'. calm j s s' \<and> length (stack s') = j) s"
proof -
  let ?s = "s\<lparr>native_call_depth := native_call_depth s + 1\<rparr>"
  have base: "call_base m s = Inr j" using len bot by (simp add: call_base_def get_top_def Let_def)
  have r': "call_ready j ?s" using r by (simp add: call_ready_def accounted_def opens_below_def)
  have fin: "wp tm (finish_call expected x) (\<lambda>_ s'. calm j ?s s' \<and> fits expected j (length (stack s')) \<and> \<not> interrupt s) (calm j ?s) s'"
    if c: "calm j ?s s'" "length (stack s') = j + unat x" "\<not> interrupt s" for x s'
    by (rule finish_call_safe [OF c(2)]) (use c(1,3) r' fits_above calm_stack [OF c(1)] in \<open>auto simp: call_ready_def\<close>)
  have run: "wp tm (case x of Some k \<Rightarrow> return_vm k | None \<Rightarrow> run_invocation W (call_unguarded W n) n (stack_bottom s))
      (\<lambda>y. wp tm (finish_call expected y) (\<lambda>_ s'. calm j ?s s' \<and> fits expected j (length (stack s')) \<and> \<not> interrupt s) (calm j ?s)) (calm j ?s) s'"
    if x: "begun j ?s x s'" for x s'
  proof (cases x)
    case None
    then have a: "admitted_at j ?s s'" using x by (simp add: begun_def)
    then have ni: "\<not> interrupt s" by (simp add: admitted_at_def)
    then have tm using t by simp
    from wp_mono [OF run_invocation_safe [OF W call [OF this] this r' a, of n] fin] ni
    show ?thesis using None by auto
  next
    case (Some y)
    then show ?thesis using x fin by (simp add: begun_def wp_basic)
  qed
  have inner: "wp tm (bind_vm (begin_call W j m (stack_bottom s) SHAPE_HOST) (\<lambda>admitted.
        bind_vm (case admitted of Some k \<Rightarrow> return_vm k | None \<Rightarrow> run_invocation W (call_unguarded W n) n (stack_bottom s))
          (\<lambda>actual. finish_call expected actual))) (\<lambda>_ s'. calm j ?s s' \<and> fits expected j (length (stack s')) \<and> \<not> interrupt s) (calm j ?s) ?s"
    unfolding wp_bind
    by (rule wp_mono [OF begin_call_safe [OF W(2) r']]) (use len run in \<open>simp_all add: SHAPE_HOST_def shape_tail_def\<close>)
  have calm: "calm j s s" using r len by (intro calm_refl) (simp_all add: call_ready_def)
  note fc = fail_call_safe [OF _ r, of _ "\<lambda>s'. calm j s s' \<and> length (stack s') = j"]
  obtain x s1 where x: "bind_vm (begin_call W j m (stack_bottom s) SHAPE_HOST) (\<lambda>admitted.
        bind_vm (case admitted of Some k \<Rightarrow> return_vm k | None \<Rightarrow> run_invocation W (call_unguarded W n) n (stack_bottom s))
          (\<lambda>actual. finish_call expected actual)) ?s = (x, s1)" by fastforce
  show ?thesis
  proof (cases "native_call_depth s \<ge> MAX_NATIVE_CALL_DEPTH")
    case True
    then show ?thesis using fc [OF calm] base by (simp add: wp_def bind_vm_def try_vm_def read_vm_def)
  next
    case False
    then show ?thesis
      using inner x base calm_native [of j s s1] fc [of "s1\<lparr>native_call_depth := native_call_depth s1 - 1\<rparr>"]
      by (cases x) (simp_all add: wp_def bind_vm_def [of "try_vm _"] bind_vm_def [of "read_vm _"] try_vm_def read_vm_def)
  qed
qed

lemma call_unguarded_safe:
  assumes W: "world_quiet W" "callbacks_calm W"
  shows "call_safe True False (call_unguarded W n)" "call_safe False True (call_unguarded W (Suc n))"
proof -
  have weak: "wp tm (call_unguarded W (Suc n) m expected) (\<lambda>_ s'. calm j s s' \<and> fits expected j (length (stack s')))
      (\<lambda>s'. calm j s s' \<and> length (stack s') = j) s"
    if "tm \<Longrightarrow> call_safe tm False (call_unguarded W n)" "call_ready j s" "length (stack s) = j + 1 + unat m"
      "stack_bottom s \<le> j" "tm \<or> interrupt s" for tm n m expected j s
    by (rule wp_mono [OF call_unguarded_step [OF W that]]) auto
  show "call_safe True False (call_unguarded W n)"
  proof (induction n)
    case 0
    then show ?case by (simp add: call_safe_def wp_def)
  next
    case (Suc n)
    then show ?case using weak [of True] by (simp add: call_safe_def del: call_unguarded.simps)
  qed
  show "call_safe False True (call_unguarded W (Suc n))"
    using weak [of False] by (simp add: call_safe_def del: call_unguarded.simps)
qed

section \<open>The theorems\<close>


text \<open>
  C2 (vm/frame.rs, run_frame; vm/eval.rs, eval_batched): once the interrupt is set, a running
  invocation leaves the dispatch loop, with a result or an error, before it has executed more
  instructions than its frames have left.
\<close>

theorem interrupted_run_ends:
  assumes "world_quiet W" "callbacks_calm W"
    and "ready j s0 s" "interrupt s" "instructions_left (frames s) \<le> n"
  shows "\<exists>r s'. eval_batched W (call_unguarded W (Suc m)) n s = (r, s') \<and> r \<noteq> Timeout \<and> r \<noteq> Panicked"
proof -
  have "wp False (eval_batched W (call_unguarded W (Suc m)) n) (\<lambda>(first, count) s'. \<exists>f. leaving j s0 f [] True first count s')
      (entered j s0) s"
    using eval_safe [OF assms(1,2) call_unguarded_safe(2) [OF assms(1,2)] assms(3)] assms(4,5) by simp
  then show ?thesis by (auto simp: wp_def split: prod.splits outcome.splits)
qed

text \<open>
  C3 (vm/eval.rs, call_unguarded): a call that is made after the interrupt was set fails, and
  leaves the caller's state as it was, without the operands of the call.
\<close>

theorem interrupted_call_fails:
  assumes "world_quiet W" "callbacks_calm W"
    and "call_ready j s" "length (stack s) = j + 1 + unat n" "stack_bottom s \<le> j" "interrupt s"
  shows "\<exists>e s'. call_unguarded W (Suc m) n expected s = (Failed e, s') \<and> calm j s s' \<and> length (stack s') = j"
proof -
  have "wp False (call_unguarded W (Suc m) n expected)
      (\<lambda>_ s'. calm j s s' \<and> fits expected j (length (stack s')) \<and> \<not> interrupt s) (\<lambda>s'. calm j s s' \<and> length (stack s') = j) s"
    using assms(6) by (intro call_unguarded_step [OF assms(1,2) _ assms(3-5)]) simp_all
  then show ?thesis using assms(6) by (auto simp: wp_def split: prod.splits outcome.splits)
qed

text \<open>
  C4 (vm/eval.rs, admit_lua_call): admission of a Lua call either lays out the callee's frame (one
  activation record more, the registers of the verified frame size above the function slot, the
  surplus arguments in the vararg arena) or fails and leaves the caller's records, counters and
  registers as they were.
\<close>

theorem admission_all_or_nothing:
  assumes "call_ready j s" "length (stack s) = j + 1 + unat n" "stack_bottom s = old"
    and "lua_function (stack s ! j) s = Some c" "tail \<longrightarrow> 0 < call_depth s"
  shows "case admit_lua_call (cl_bytecode c) n old tail s of
      (Done _, s') \<Rightarrow> admitted_at j s s' | (Failed _, s') \<Rightarrow> calm j s s' | _ \<Rightarrow> False"
  using admit_safe [OF assms, of False] by (auto simp: wp_def split: prod.splits outcome.splits)

section \<open>A world and a state the hypotheses hold of\<close>

text \<open>Pointers of the stack, and one above them.\<close>

fun pointers :: "val list \<Rightarrow> nat list" where
  "pointers [] = []"
| "pointers (VObj p # vs) = p # pointers vs"
| "pointers (_ # vs) = pointers vs"

definition fresh_pointer :: "val list \<Rightarrow> nat" where
  "fresh_pointer vs = Suc (sum_list (pointers vs))"

lemma fresh_pointer: "VObj p \<in> set vs \<Longrightarrow> p < fresh_pointer vs"
proof -
  have "VObj p \<in> set vs \<Longrightarrow> p \<in> set (pointers vs)" by (induction vs rule: pointers.induct) auto
  then show "VObj p \<in> set vs \<Longrightarrow> p < fresh_pointer vs"
    using member_le_sum_list [of p "pointers vs"] by (simp add: fresh_pointer_def less_Suc_eq_le)
qed

text \<open>
  A world in which a Rust function returns its first argument, globals and table fields are nil,
  and closures are allocated one after the other.
\<close>

definition sample_world :: world where
  "sample_world =
     \<lparr> w_rust_fn = (\<lambda>f s. if stack_bottom s < length (stack s)
                        then (Inr 1, s\<lparr>stack := take (Suc (stack_bottom s)) (stack s)\<rparr>) else (Inl (HostError f), s)),
       w_call_handler = (\<lambda>_ _. VNil), w_arith = (\<lambda>_ x _. x), w_string_cmp = (\<lambda>_ _ _. OrderEqual),
       w_value = (\<lambda>_ _ s. (Inr VNil, s)), w_store = (\<lambda>_ _ s. (Inr (), s)),
       w_index = (\<lambda>_ _ _ s. (Inr (IndexValue VNil), s)), w_newindex = (\<lambda>_ _ _ _ s. (Inr None, s)),
       w_length = (\<lambda>_ s. (Inr (Some VNil), s)), w_iterate = (\<lambda>_ _ _ _. None),
       w_runtime = (\<lambda>bc s. (Inr (replicate (length (string_literals (body bc))) VNil), s)),
       w_alloc_closure = (\<lambda>c s. let p = fresh_pointer (stack s) in (p, s\<lparr>closures := (closures s)(p \<mapsto> c)\<rparr>)) \<rparr>"

lemma sample_world_quiet: "world_quiet sample_world"
proof -
  have "quiet s (s\<lparr>closures := (closures s)(fresh_pointer (stack s) \<mapsto> c)\<rparr>)" if "vm_ok s" "closure_ok s c" for s c
  proof -
    let ?t = "s\<lparr>closures := (closures s)(fresh_pointer (stack s) \<mapsto> c)\<rparr>"
    have "closure_ok ?t = closure_ok s" by (simp add: closure_ok_def captured_def fun_eq_iff)
    then have "vm_ok ?t" using that by (auto simp: vm_ok_def uv_inv_def ran_def)
    then show ?thesis using fresh_pointer by (fastforce simp: quiet_def)
  qed
  then show ?thesis by (simp add: world_quiet_def sample_world_def quiet_refl Let_def)
qed

lemma sample_world_calm: "callbacks_calm sample_world"
proof -
  have "calm (stack_bottom s) s (snd (w_rust_fn sample_world f s))"
    if ok: "vm_ok s" "stack_bottom s \<le> length (stack s)" "opens_below (stack_bottom s) s" for f s
  proof (cases "stack_bottom s < length (stack s)")
    case True
    then show ?thesis using calm_stack [OF calm_refl [OF ok(1,2)], of "take (Suc (stack_bottom s)) (stack s)"] ok(3)
      by (simp add: sample_world_def min_def)
  qed (use calm_refl ok in \<open>simp add: sample_world_def\<close>)
  then show ?thesis by (simp add: callbacks_calm_def)
qed

definition tiny_closure :: closure where
  "tiny_closure = \<lparr> cl_bytecode = tiny_tree, cl_literals = [], cl_upvalues = [] \<rparr>"

text \<open>A host that has pushed the function of a compiled chunk.\<close>

definition sample_call :: vm_state where
  "sample_call = sample_state\<lparr> stack := [VBool True, VObj 0], stack_bottom := 1, closures := [0 \<mapsto> tiny_closure] \<rparr>"

lemma tiny_admitted: "admitted 1 tiny_tree"
proof -
  have shape: "Bytecode (body tiny_child) [] = tiny_child" "Bytecode (body tiny_tree) [tiny_child] = tiny_tree"
    by (simp_all add: tiny_child_def tiny_tree_def)
  have "validate_child (view_of tiny_tree) (view_of tiny_child) = Inr ()"
    by (simp add: validate_child_def view_of_def tiny_tree_def tiny_child_def default_chunk_def)
  moreover have "chunk_name (body tiny_tree) = None" "chunk_name (body tiny_child) = None"
    by (simp_all add: tiny_tree_def tiny_child_def default_chunk_def)
  moreover have "Suc 1 \<le> MAX_CHUNK_NESTING" by (simp add: MAX_CHUNK_NESTING_def MAX_SYNTAX_DEPTH_def)
  ultimately show ?thesis
    using tiny_verified admitted.simps [of "Suc 1" "body tiny_child" "[]", unfolded shape]
      admitted.simps [of 1 "body tiny_tree" "[tiny_child]", unfolded shape]
    by simp
qed

lemma sample_call_ready: "call_ready 1 sample_call" "length (stack sample_call) = 1 + 1 + unat (0 :: u8)" "stack_bottom sample_call \<le> 1"
proof -
  have "closure_ok sample_call tiny_closure" using tiny_admitted
    by (auto simp: closure_ok_def tiny_closure_def tiny_tree_def default_chunk_def)
  then have "vm_ok sample_call"
    by (simp add: vm_ok_def uv_inv_def pool_ok_def sample_call_def sample_state_def pool_new_def)
  then show "call_ready 1 sample_call"
    by (simp add: call_ready_def accounted_def opens_below_def) (simp add: sample_call_def sample_state_def)
qed (simp_all add: sample_call_def)

text \<open>A host that has pushed a library function and one argument.\<close>

definition rust_call :: vm_state where
  "rust_call = sample_state\<lparr> stack := [VBool True, VRustFn 3, VBool False], stack_bottom := 1 \<rparr>"

lemmas run_defs = bind_vm_def try_vm_def read_vm_def call_base_def get_top_def begin_call_def invoke_rust_fn_def
  finish_call_def MAX_NATIVE_CALL_DEPTH_def resize_stack_def remove_slot_def map_outcome_def return_vm_def apply_vm_def
  expect_vm_def fail_call_def truncate_stack_def update_vm_def poll_interrupt_def keep_results_def

lemma rust_call_runs:
  "case call_unguarded sample_world 1 1 (RetFixed 1) rust_call of
     (Done _, s') \<Rightarrow> stack s' = [VBool True, VBool False] | _ \<Rightarrow> False"
  by (simp add: rust_call_def sample_state_def run_defs Let_def) (simp add: sample_world_def run_defs Let_def)

lemma rust_call_ready: "call_ready 1 rust_call" "length (stack rust_call) = 1 + 1 + unat (1 :: u8)" "stack_bottom rust_call \<le> 1"
proof -
  have "vm_ok rust_call"
    by (simp add: vm_ok_def uv_inv_def pool_ok_def rust_call_def sample_state_def pool_new_def)
  then show "call_ready 1 rust_call"
    by (simp add: call_ready_def accounted_def opens_below_def) (simp add: rust_call_def sample_state_def)
qed (simp_all add: rust_call_def)


lemma interrupted_ready: "call_ready 1 (rust_call\<lparr>interrupt := True\<rparr>)"
  using rust_call_ready(1) by (simp add: call_ready_def vm_ok_def uv_inv_def accounted_def opens_below_def closure_ok_def captured_def)

theorem interrupted_call_fails_witness:
  "\<exists>e s'. call_unguarded sample_world 1 1 (RetFixed 1) (rust_call\<lparr>interrupt := True\<rparr>) = (Failed e, s')
     \<and> stack s' = [VBool True]"
proof -
  have "length (stack (rust_call\<lparr>interrupt := True\<rparr>)) = 1 + 1 + unat (1 :: u8)" "stack_bottom (rust_call\<lparr>interrupt := True\<rparr>) \<le> 1"
    using rust_call_ready by simp_all
  from interrupted_call_fails [OF sample_world_quiet sample_world_calm interrupted_ready this, of 0 "RetFixed 1"]
  obtain e s' where r: "call_unguarded sample_world (Suc 0) 1 (RetFixed 1) (rust_call\<lparr>interrupt := True\<rparr>) = (Failed e, s')"
    and c: "calm 1 (rust_call\<lparr>interrupt := True\<rparr>) s'" "length (stack s') = 1" by auto
  have "stack s' ! 0 = VBool True" using c(1) by (simp add: calm_def kept_def rust_call_def sample_state_def)
  then show ?thesis using r c(2) by (cases "stack s'") simp_all
qed

theorem admission_all_or_nothing_witness:
  "case admit_lua_call tiny_tree 0 1 False sample_call of
     (Done _, s') \<Rightarrow> admitted_at 1 sample_call s' | (Failed _, s') \<Rightarrow> calm 1 sample_call s' | _ \<Rightarrow> False"
proof -
  have "lua_function (stack sample_call ! 1) sample_call = Some tiny_closure" "stack_bottom sample_call = 1"
    by (simp_all add: sample_call_def lua_function_def)
  then show ?thesis using admission_all_or_nothing [OF sample_call_ready(1,2), of 1 tiny_closure False]
    by (simp add: tiny_closure_def)
qed

text \<open>The chunk at its first instruction, interrupted.\<close>

definition sample_run :: vm_state where
  "sample_run = sample_call\<lparr> stack := [VBool True, VObj 0, VNil], stack_bottom := 2, interrupt := True, call_depth := 1,
     call_stack := [\<lparr> ci_bytecode = tiny_tree, ci_ip = 0, ci_vararg_start = 0, ci_chain = 0 \<rparr>],
     frames := [frame_new tiny_tree [] [] 2] \<rparr>"

lemma sample_run_ready: "ready 1 sample_call sample_run"
proof -
  have ok: "vm_ok sample_call" using sample_call_ready(1) by (simp add: call_ready_def)
  have "vm_ok sample_run" using ok
    by (simp add: vm_ok_def sample_run_def closure_ok_def captured_def uv_inv_def) (simp add: sample_call_def sample_state_def)
  moreover have "accounted sample_run" "kept 1 sample_call sample_run"
    by (simp_all add: accounted_def kept_def record_units_def chain_units_def open_below_def sample_run_def less_Suc_eq)
      (simp_all add: sample_call_def sample_state_def)
  ultimately have "entered 1 sample_call sample_run"
    by (simp add: entered_def) (simp add: sample_run_def sample_call_def sample_state_def frame_new_def record_units_def chain_units_def)
  moreover have "frame_ok sample_run (frame_new tiny_tree [] [] 2)"
    by (simp add: frame_ok_def frame_new_def sample_run_def sample_call_def sample_state_def tiny_closure_def tiny_tree_def default_chunk_def)
  ultimately show ?thesis
    by (simp add: ready_def running_def positioned_def)
      (simp add: sample_run_def sample_call_def sample_state_def frame_new_def tiny_tree_def default_chunk_def consumes_open_def)
qed

theorem interrupted_run_ends_witness:
  "\<exists>r s'. eval_batched sample_world (call_unguarded sample_world 1) 2 sample_run = (r, s') \<and> r \<noteq> Timeout \<and> r \<noteq> Panicked"
  using interrupted_run_ends [OF sample_world_quiet sample_world_calm sample_run_ready, of 2 0]
  by (simp add: sample_run_def frame_new_def tiny_tree_def)

end
