(* ===== verification/Byte_Class.thy ===== *)
theory Byte_Class
  imports Vm_Limits
begin

text \<open>
  The byte classes of Lua patterns (\<open>patterns/luapat.rs\<close>): sets of bytes as four 64-bit words, the
  letters of \<open>%a\<close>-style classes and the table that is built from them at compile time. Characters are
  classified as in the C locale, by the ASCII predicates of the standard library.

  Shown here: the operations on the words are the set operations, and the table holds for every
  escaped byte the class that the per-byte classifier describes.
\<close>

abbreviation byte :: "char \<Rightarrow> u8" where
  "byte c \<equiv> of_char c"

section \<open>ASCII predicates of the standard library\<close>

definition is_ascii_lowercase :: "u8 \<Rightarrow> bool" where
  "is_ascii_lowercase b \<longleftrightarrow> byte CHR ''a'' \<le> b \<and> b \<le> byte CHR ''z''"

definition is_ascii_uppercase :: "u8 \<Rightarrow> bool" where
  "is_ascii_uppercase b \<longleftrightarrow> byte CHR ''A'' \<le> b \<and> b \<le> byte CHR ''Z''"

definition is_ascii_digit :: "u8 \<Rightarrow> bool" where
  "is_ascii_digit b \<longleftrightarrow> byte CHR ''0'' \<le> b \<and> b \<le> byte CHR ''9''"

definition is_ascii_alphabetic :: "u8 \<Rightarrow> bool" where
  "is_ascii_alphabetic b \<longleftrightarrow> is_ascii_lowercase b \<or> is_ascii_uppercase b"

definition is_ascii_alphanumeric :: "u8 \<Rightarrow> bool" where
  "is_ascii_alphanumeric b \<longleftrightarrow> is_ascii_alphabetic b \<or> is_ascii_digit b"

definition is_ascii_hexdigit :: "u8 \<Rightarrow> bool" where
  "is_ascii_hexdigit b \<longleftrightarrow>
     is_ascii_digit b \<or> (byte CHR ''a'' \<le> b \<and> b \<le> byte CHR ''f'') \<or> (byte CHR ''A'' \<le> b \<and> b \<le> byte CHR ''F'')"

definition is_ascii_graphic :: "u8 \<Rightarrow> bool" where
  "is_ascii_graphic b \<longleftrightarrow> byte CHR ''!'' \<le> b \<and> b \<le> byte CHR ''~''"

definition is_ascii_punctuation :: "u8 \<Rightarrow> bool" where
  "is_ascii_punctuation b \<longleftrightarrow> is_ascii_graphic b \<and> \<not> is_ascii_alphanumeric b"

definition is_ascii_control :: "u8 \<Rightarrow> bool" where
  "is_ascii_control b \<longleftrightarrow> b \<le> 0x1F \<or> b = 0x7F"

definition to_ascii_lowercase :: "u8 \<Rightarrow> u8" where
  "to_ascii_lowercase b = (if is_ascii_uppercase b then b + 32 else b)"

definition is_lua_whitespace :: "u8 \<Rightarrow> bool" where
  "is_lua_whitespace b \<longleftrightarrow> b = byte CHR '' '' \<or> b = 0x09 \<or> b = 0x0A \<or> b = 0x0B \<or> b = 0x0C \<or> b = 0x0D"

section \<open>Byte sets\<close>

type_synonym byte_class = "u64 list"

definition bc_empty :: byte_class where
  "bc_empty = replicate 4 0"

definition bc_insert :: "u8 \<Rightarrow> byte_class \<Rightarrow> byte_class" where
  "bc_insert b c =
     (let word = (if b \<le> 63 then 0 else if b \<le> 127 then 1 else if b \<le> 191 then 2 else 3)
      in c[word := c ! word OR push_bit (unat (b mod 64)) 1])"

definition bc_contains :: "byte_class \<Rightarrow> u8 \<Rightarrow> bool" where
  "bc_contains c b \<longleftrightarrow> c ! (unat b div 64) AND push_bit (unat (b mod 64)) 1 \<noteq> 0"

definition bc_union :: "byte_class \<Rightarrow> byte_class \<Rightarrow> byte_class" where
  "bc_union c d = [c ! 0 OR d ! 0, c ! 1 OR d ! 1, c ! 2 OR d ! 2, c ! 3 OR d ! 3]"

definition bc_invert :: "byte_class \<Rightarrow> byte_class" where
  "bc_invert c = map (\<lambda>w. NOT w) c"

lemma bc_length [simp]:
  "length bc_empty = 4" "length (bc_insert b c) = length c" "length (bc_union c d) = 4" "length (bc_invert c) = length c"
  by (simp_all add: bc_empty_def bc_insert_def bc_union_def bc_invert_def Let_def)

lemma unat_mod_64: "unat (b mod 64 :: u8) = unat b mod 64"
  by (simp add: unat_mod)

lemma bc_contains_bit: "bc_contains c b \<longleftrightarrow> bit (c ! (unat b div 64)) (unat b mod 64)"
proof -
  have "x AND push_bit n 1 \<noteq> 0 \<longleftrightarrow> bit x n" if "n < 64" for x :: u64 and n
    using that by (auto simp: bit_eq_iff [where 'a = "64 word"] bit_and_iff bit_exp_iff)
  then show ?thesis by (simp add: bc_contains_def unat_mod_64)
qed

lemma byte_word: "unat (b :: u8) div 64 < 4"
  using unsigned_less [of b, where ?'a = nat] by simp

lemma byte_word_index:
  "(if b \<le> 63 then 0 else if b \<le> 127 then 1 else if b \<le> 191 then 2 else 3) = unat (b :: u8) div 64"
proof -
  have "unat b < 256" using unsigned_less [of b, where ?'a = nat] by simp
  then show ?thesis by (auto simp: word_le_nat_alt)
qed

lemma bc_contains_empty [simp]: "\<not> bc_contains bc_empty b"
  using byte_word [of b] by (simp add: bc_contains_bit bc_empty_def)

lemma bc_contains_insert [simp]: "length c = 4 \<Longrightarrow> bc_contains (bc_insert a c) b \<longleftrightarrow> a = b \<or> bc_contains c b"
proof -
  assume "length c = 4"
  moreover have "a = b \<longleftrightarrow> unat a div 64 = unat b div 64 \<and> unat a mod 64 = unat b mod 64"
    by (metis div_mult_mod_eq word_unat_eq_iff)
  ultimately show ?thesis using byte_word [of b] byte_word [of a]
    by (auto simp: bc_contains_bit bc_insert_def Let_def byte_word_index unat_mod_64 nth_list_update bit_or_iff bit_exp_iff)
qed

lemma bc_contains_union [simp]: "bc_contains (bc_union c d) b \<longleftrightarrow> bc_contains c b \<or> bc_contains d b"
proof -
  have "unat b div 64 \<in> {0, 1, 2, 3}" using byte_word [of b] by auto
  then show ?thesis by (auto simp: bc_contains_bit bc_union_def bit_or_iff)
qed

lemma bc_contains_invert [simp]: "length c = 4 \<Longrightarrow> bc_contains (bc_invert c) b \<longleftrightarrow> \<not> bc_contains c b"
  using byte_word [of b] by (simp add: bc_contains_bit bc_invert_def bit_not_iff)

lemma bc_contains_fold [simp]:
  "length c = 4 \<Longrightarrow> bc_contains (fold (\<lambda>x c. if P x then bc_insert x c else c) bs c) b \<longleftrightarrow> bc_contains c b \<or> (b \<in> set bs \<and> P b)"
  by (induction bs arbitrary: c) auto

lemma bc_fold_length [simp]: "length (fold (\<lambda>x c. if P x then bc_insert x c else c) bs c) = length c"
  by (induction bs arbitrary: c) auto

section \<open>The table of escaped classes\<close>

definition ESCAPE_CLASS_LETTERS :: "u8 list" where
  "ESCAPE_CLASS_LETTERS = map byte ''aAcCdDgGlLpPsSuUwWxXzZ''"

definition table_match_class :: "u8 \<Rightarrow> u8 \<Rightarrow> bool" where
  "table_match_class ch cl =
     (let lower = to_ascii_lowercase cl;
          negate = (\<lambda>result. if is_ascii_uppercase cl then \<not> result else result)
      in if lower = byte CHR ''a'' then negate (is_ascii_alphabetic ch)
         else if lower = byte CHR ''c'' then negate (ch \<le> 0x1F \<or> ch = 0x7F)
         else if lower = byte CHR ''d'' then negate (is_ascii_digit ch)
         else if lower = byte CHR ''g'' then negate (is_ascii_graphic ch)
         else if lower = byte CHR ''l'' then negate (is_ascii_lowercase ch)
         else if lower = byte CHR ''p'' then negate (is_ascii_punctuation ch)
         else if lower = byte CHR ''s'' then negate (is_lua_whitespace ch)
         else if lower = byte CHR ''u'' then negate (is_ascii_uppercase ch)
         else if lower = byte CHR ''w'' then negate (is_ascii_alphanumeric ch)
         else if lower = byte CHR ''x'' then negate (is_ascii_hexdigit ch)
         else if lower = byte CHR ''z'' then negate (ch = 0)
         else cl = ch)"

definition all_bytes :: "u8 list" where
  "all_bytes = map of_nat [0..<256]"

definition build_escape_classes :: "byte_class list" where
  "build_escape_classes =
     map (\<lambda>letter. fold (\<lambda>b c. if table_match_class b letter then bc_insert b c else c) all_bytes bc_empty)
       ESCAPE_CLASS_LETTERS"

definition escape_index :: "u8 \<Rightarrow> nat option" where
  "escape_index cl =
     (if cl = byte CHR ''a'' then Some 0 else if cl = byte CHR ''A'' then Some 1
      else if cl = byte CHR ''c'' then Some 2 else if cl = byte CHR ''C'' then Some 3
      else if cl = byte CHR ''d'' then Some 4 else if cl = byte CHR ''D'' then Some 5
      else if cl = byte CHR ''g'' then Some 6 else if cl = byte CHR ''G'' then Some 7
      else if cl = byte CHR ''l'' then Some 8 else if cl = byte CHR ''L'' then Some 9
      else if cl = byte CHR ''p'' then Some 10 else if cl = byte CHR ''P'' then Some 11
      else if cl = byte CHR ''s'' then Some 12 else if cl = byte CHR ''S'' then Some 13
      else if cl = byte CHR ''u'' then Some 14 else if cl = byte CHR ''U'' then Some 15
      else if cl = byte CHR ''w'' then Some 16 else if cl = byte CHR ''W'' then Some 17
      else if cl = byte CHR ''x'' then Some 18 else if cl = byte CHR ''X'' then Some 19
      else if cl = byte CHR ''z'' then Some 20 else if cl = byte CHR ''Z'' then Some 21
      else None)"

definition escape_class :: "u8 \<Rightarrow> byte_class" where
  "escape_class cl =
     (case escape_index cl of Some i \<Rightarrow> build_escape_classes ! i | None \<Rightarrow> bc_insert cl bc_empty)"

text \<open>The classifier that the table replaced, which the source keeps for its test.\<close>

definition match_class :: "u8 \<Rightarrow> u8 \<Rightarrow> bool" where
  "match_class ch cl =
     (let lower = to_ascii_lowercase cl;
          negate = (\<lambda>result. if is_ascii_lowercase cl then result else \<not> result)
      in if lower = byte CHR ''a'' then negate (is_ascii_alphabetic ch)
         else if lower = byte CHR ''c'' then negate (is_ascii_control ch)
         else if lower = byte CHR ''d'' then negate (is_ascii_digit ch)
         else if lower = byte CHR ''g'' then negate (is_ascii_graphic ch)
         else if lower = byte CHR ''l'' then negate (is_ascii_lowercase ch)
         else if lower = byte CHR ''p'' then negate (is_ascii_punctuation ch)
         else if lower = byte CHR ''s'' then negate (is_lua_whitespace ch)
         else if lower = byte CHR ''u'' then negate (is_ascii_uppercase ch)
         else if lower = byte CHR ''w'' then negate (is_ascii_alphanumeric ch)
         else if lower = byte CHR ''x'' then negate (is_ascii_hexdigit ch)
         else if lower = byte CHR ''z'' then negate (ch = 0)
         else cl = ch)"

lemma all_bytes_complete: "b \<in> set all_bytes"
proof -
  have "b = of_nat (unat b)" "unat b < 256" using unsigned_less [of b, where ?'a = nat] by simp_all
  then show ?thesis unfolding all_bytes_def set_map by (metis atLeast0LessThan atLeast_upt image_eqI lessThan_iff)
qed

lemma escape_index_letter: "escape_index cl = Some i \<Longrightarrow> i < 22 \<and> ESCAPE_CLASS_LETTERS ! i = cl"
  by (simp add: escape_index_def ESCAPE_CLASS_LETTERS_def split: if_splits)

lemma table_entry:
  assumes "escape_index cl = Some i"
  shows "bc_contains (escape_class cl) b \<longleftrightarrow> table_match_class b cl" "length (escape_class cl) = 4"
proof -
  have "i < length ESCAPE_CLASS_LETTERS" "ESCAPE_CLASS_LETTERS ! i = cl"
    using escape_index_letter [OF assms] by (simp_all add: ESCAPE_CLASS_LETTERS_def)
  then show "bc_contains (escape_class cl) b \<longleftrightarrow> table_match_class b cl" "length (escape_class cl) = 4"
    using assms all_bytes_complete by (simp_all add: escape_class_def build_escape_classes_def)
qed

lemma escape_class_length [simp]: "length (escape_class cl) = 4"
  using table_entry(2) by (cases "escape_index cl") (simp_all add: escape_class_def)

lemma lower_letter:
  "to_ascii_lowercase cl = l \<Longrightarrow> byte CHR ''a'' \<le> l \<Longrightarrow> l \<le> byte CHR ''z'' \<Longrightarrow> cl = l \<or> cl = l - 32"
  by (auto simp: to_ascii_lowercase_def split: if_splits)

lemma not_letter: "escape_index cl = None \<Longrightarrow> match_class b cl \<longleftrightarrow> b = cl"
  using lower_letter [of cl "to_ascii_lowercase cl"]
  by (auto simp: match_class_def Let_def escape_index_def dest!: lower_letter split: if_splits)

lemma letter_case: "escape_index cl = Some i \<Longrightarrow> is_ascii_lowercase cl \<longleftrightarrow> \<not> is_ascii_uppercase cl"
  by (auto simp: escape_index_def is_ascii_lowercase_def is_ascii_uppercase_def split: if_splits)

lemma letter_class: "escape_index cl = Some i \<Longrightarrow> table_match_class b cl \<longleftrightarrow> match_class b cl"
  by (simp add: table_match_class_def match_class_def letter_case is_ascii_control_def Let_def) 

text \<open>
  C37 (patterns/luapat.rs, escape_class): the class compiled for an escaped byte contains exactly the
  bytes the per-byte classifier accepts, for every byte and every escape.
\<close>

theorem escape_table_exact: "bc_contains (escape_class cl) b \<longleftrightarrow> match_class b cl"
proof (cases "escape_index cl")
  case None
  then show ?thesis using not_letter [OF None] by (auto simp: escape_class_def)
next
  case (Some i)
  then show ?thesis by (simp add: table_entry(1) letter_class)
qed

end
