(* ===== verification/Pattern_Compile.thy ===== *)
theory Pattern_Compile
  imports Byte_Class
begin

text \<open>
  The compiler of Lua patterns (\<open>patterns/luapat.rs\<close>, \<open>patterns/errors.rs\<close>). A pattern is compiled in one
  pass to a list of items; every atom becomes an index into a table of distinct byte classes, and
  the first malformed point becomes an item that fails when a match reaches it, so compiling itself
  cannot fail. A Rust panic (an index outside the fixed capture stack) is \<^const>\<open>None\<close>.

  Shown here: compiling never panics, and its output is well scoped: class indices are within the
  table, a backreference is to a capture that is complete at that point and is not written again,
  every capture slot is opened once, and nothing follows an end anchor.
\<close>

definition LUA_MAXCAPTURES :: nat where
  "LUA_MAXCAPTURES = 32"

definition MAXCCALLS :: nat where
  "MAXCCALLS = 200"

definition L_ESC :: u8 where
  "L_ESC = byte CHR ''%''"

definition PATTERN_MAGIC_BYTES :: "u8 list" where
  "PATTERN_MAGIC_BYTES = map byte ''^$*+?.([%-)''"

definition is_pattern_magic :: "u8 \<Rightarrow> bool" where
  "is_pattern_magic b \<longleftrightarrow> b \<in> set PATTERN_MAGIC_BYTES"

section \<open>Errors and items\<close>

datatype malformed_pattern = EndsWithPercent | MissingBalancedArguments | MissingBracket | MissingFrontierBracket

datatype pattern_error =
    InvalidPatternCapture
  | InvalidCaptureIndex int
  | MalformedPattern malformed_pattern
  | TooManyCaptures
  | MatchDepthExceeded
  | UnfinishedCapture

datatype repeat = One | Optional | ZeroOrMoreGreedy | OneOrMoreGreedy | ZeroOrMoreMinimal

datatype item =
    Atom nat repeat
  | Balance u8 u8
  | Frontier nat
  | Backref u8
  | CaptureStart u8
  | CaptureEnd u8
  | PositionCapture u8
  | EndAnchor
  | Fail pattern_error

datatype anchor_mode = Honour | Literal

record compiled_pattern =
  p_items :: "item list"
  p_classes :: "byte_class list"
  p_anchored :: bool
  p_captures :: nat

section \<open>The compiler\<close>

record compiler =
  c_pos :: nat
  c_items :: "item list"
  c_classes :: "byte_class list"
  c_class_ids :: "byte_class \<rightharpoonup> nat"
  c_capture_stack :: "nat list"
  c_stack_len :: nat
  c_captures :: nat

definition compiler_new :: compiler where
  "compiler_new =
     \<lparr> c_pos = 0, c_items = [], c_classes = [], c_class_ids = Map.empty,
       c_capture_stack = replicate LUA_MAXCAPTURES 0, c_stack_len = 0, c_captures = 0 \<rparr>"

text \<open>\<open>slice::get\<close>.\<close>

definition get :: "'a list \<Rightarrow> nat \<Rightarrow> 'a option" where
  "get xs i = (if i < length xs then Some (xs ! i) else None)"

definition push_item :: "item \<Rightarrow> compiler \<Rightarrow> compiler" where
  "push_item i c = c\<lparr> c_items := c_items c @ [i] \<rparr>"

definition intern_class :: "byte_class \<Rightarrow> compiler \<Rightarrow> nat \<times> compiler" where
  "intern_class cl c =
     (case c_class_ids c cl of
        Some i \<Rightarrow> (i, c)
      | None \<Rightarrow>
          (let i = length (c_classes c)
           in (i, c\<lparr> c_class_ids := (c_class_ids c)(cl \<mapsto> i), c_classes := c_classes c @ [cl] \<rparr>)))"

definition literal_class :: "u8 \<Rightarrow> compiler \<Rightarrow> nat \<times> compiler" where
  "literal_class b = intern_class (bc_insert b bc_empty)"

definition any_class :: "compiler \<Rightarrow> nat \<times> compiler" where
  "any_class = intern_class (bc_invert bc_empty)"

definition class_for_escape :: "u8 \<Rightarrow> compiler \<Rightarrow> nat \<times> compiler" where
  "class_for_escape cl = intern_class (escape_class cl)"

text \<open>The scan for the closing bracket.\<close>

function bracket_close :: "u8 list \<Rightarrow> nat \<Rightarrow> nat option" where
  "bracket_close p scan =
     (case get p scan of
        None \<Rightarrow> None
      | Some b \<Rightarrow>
          (let scan1 = scan + 1;
               scan2 = (if b = L_ESC \<and> scan1 < length p then scan1 + 1 else scan1)
           in if scan2 \<ge> length p then None
              else if p ! scan2 = byte CHR '']'' then Some scan2
              else bracket_close p scan2))"
  by pat_completeness auto

termination bracket_close
  by (relation "measure (\<lambda>(p, scan). length p - scan)") (auto simp: get_def Let_def split: if_splits)

text \<open>The items between the brackets.\<close>

function bracket_items :: "u8 list \<Rightarrow> nat \<Rightarrow> nat \<Rightarrow> byte_class \<Rightarrow> byte_class" where
  "bracket_items p close pos cl =
     (if pos < close then
        (let b = p ! pos in
         if b = L_ESC \<and> pos + 1 < close
         then bracket_items p close (pos + 2) (bc_union cl (escape_class (p ! (pos + 1))))
         else if pos + 2 < close \<and> p ! (pos + 1) = byte CHR ''-''
         then bracket_items p close (pos + 3)
                (fold bc_insert (map of_nat [unat b..<Suc (unat (p ! (pos + 2)))]) cl)
         else bracket_items p close (pos + 1) (bc_insert b cl))
      else cl)"
  by pat_completeness auto

termination bracket_items
  by (relation "measure (\<lambda>(p, close, pos, cl). close - pos)") auto

declare bracket_close.simps [simp del] bracket_items.simps [simp del]

definition bracket_class :: "u8 list \<Rightarrow> compiler \<Rightarrow> (pattern_error + nat) \<times> compiler" where
  "bracket_class p c =
     (let invert = get p (c_pos c) = Some (byte CHR ''^'');
          c1 = (if invert then c\<lparr> c_pos := c_pos c + 1 \<rparr> else c)
      in case bracket_close p (c_pos c1) of
           None \<Rightarrow> (Inl (MalformedPattern MissingBracket), c1)
         | Some close \<Rightarrow>
             (let cl = bracket_items p close (c_pos c1) bc_empty;
                  cl' = (if invert then bc_invert cl else cl)
              in case intern_class cl' (c1\<lparr> c_pos := close + 1 \<rparr>) of (i, c2) \<Rightarrow> (Inr i, c2)))"

definition push_atom :: "u8 list \<Rightarrow> nat \<Rightarrow> compiler \<Rightarrow> compiler" where
  "push_atom p cl c =
     (let rep = (case get p (c_pos c) of
                   None \<Rightarrow> One
                 | Some b \<Rightarrow>
                     if b = byte CHR ''?'' then Optional
                     else if b = byte CHR ''*'' then ZeroOrMoreGreedy
                     else if b = byte CHR ''+'' then OneOrMoreGreedy
                     else if b = byte CHR ''-'' then ZeroOrMoreMinimal
                     else One)
      in push_item (Atom cl rep) (if rep \<noteq> One then c\<lparr> c_pos := c_pos c + 1 \<rparr> else c))"

text \<open>The arms of \<open>compile_items\<close>, each after the byte that selects it has been consumed.\<close>

type_synonym compile_step = "((pattern_error + unit) \<times> compiler) option"

definition compile_open :: "u8 list \<Rightarrow> compiler \<Rightarrow> compile_step" where
  "compile_open p c =
     (if c_captures c = LUA_MAXCAPTURES then Some (Inl TooManyCaptures, c)
      else
        (let slot = c_captures c;
             c1 = c\<lparr> c_captures := slot + 1 \<rparr>
         in if get p (c_pos c) = Some (byte CHR '')'')
            then Some (Inr (), push_item (PositionCapture (of_nat slot)) (c1\<lparr> c_pos := c_pos c + 1 \<rparr>))
            else if c_stack_len c < length (c_capture_stack c)
            then Some (Inr (), push_item (CaptureStart (of_nat slot))
                   (c1\<lparr> c_capture_stack := (c_capture_stack c)[c_stack_len c := slot], c_stack_len := c_stack_len c + 1 \<rparr>))
            else None))"

definition compile_close :: "compiler \<Rightarrow> compile_step" where
  "compile_close c =
     (if c_stack_len c = 0 then Some (Inl InvalidPatternCapture, c)
      else
        (let n = c_stack_len c - 1
         in if n < length (c_capture_stack c)
            then Some (Inr (), push_item (CaptureEnd (of_nat (c_capture_stack c ! n))) (c\<lparr> c_stack_len := n \<rparr>))
            else None))"

definition compile_balance :: "u8 list \<Rightarrow> compiler \<Rightarrow> compile_step" where
  "compile_balance p c =
     (case (get p (c_pos c), get p (c_pos c + 1)) of
        (Some open_byte, Some close_byte) \<Rightarrow>
          Some (Inr (), push_item (Balance open_byte close_byte) (c\<lparr> c_pos := c_pos c + 2 \<rparr>))
      | _ \<Rightarrow> Some (Inl (MalformedPattern MissingBalancedArguments), c))"

definition compile_frontier :: "u8 list \<Rightarrow> compiler \<Rightarrow> compile_step" where
  "compile_frontier p c =
     (if get p (c_pos c) \<noteq> Some (byte CHR ''['') then Some (Inl (MalformedPattern MissingFrontierBracket), c)
      else case bracket_class p (c\<lparr> c_pos := c_pos c + 1 \<rparr>) of
             (Inl e, c1) \<Rightarrow> Some (Inl e, c1)
           | (Inr cl, c1) \<Rightarrow> Some (Inr (), push_item (Frontier cl) c1))"

definition compile_backref :: "u8 \<Rightarrow> compiler \<Rightarrow> compile_step" where
  "compile_backref escaped c =
     (let index = int (unat escaped) - int (unat (byte CHR ''1''))
      in if 0 \<le> index \<and> nat index < c_captures c \<and> c_stack_len c > length (c_capture_stack c) then None
         else if 0 \<le> index \<and> nat index < c_captures c \<and> nat index \<notin> set (take (c_stack_len c) (c_capture_stack c))
         then Some (Inr (), push_item (Backref (of_int index)) c)
         else Some (Inl (InvalidCaptureIndex index), c))"

definition compile_escape :: "u8 list \<Rightarrow> compiler \<Rightarrow> compile_step" where
  "compile_escape p c =
     (case get p (c_pos c) of
        None \<Rightarrow> Some (Inl (MalformedPattern EndsWithPercent), c)
      | Some escaped \<Rightarrow>
          (let c1 = c\<lparr> c_pos := c_pos c + 1 \<rparr> in
           if escaped = byte CHR ''b'' then compile_balance p c1
           else if escaped = byte CHR ''f'' then compile_frontier p c1
           else if is_ascii_digit escaped then compile_backref escaped c1
           else case class_for_escape escaped c1 of (cl, c2) \<Rightarrow> Some (Inr (), push_atom p cl c2)))"

definition compile_item :: "u8 list \<Rightarrow> compiler \<Rightarrow> compile_step" where
  "compile_item p c =
     (let b = p ! c_pos c; c1 = c\<lparr> c_pos := c_pos c + 1 \<rparr> in
      if b = byte CHR ''('' then compile_open p c1
      else if b = byte CHR '')'' then compile_close c1
      else if b = byte CHR ''$'' \<and> c_pos c1 = length p then Some (Inr (), push_item EndAnchor c1)
      else if b = L_ESC then compile_escape p c1
      else if b = byte CHR ''['' then
        (case bracket_class p c1 of
           (Inl e, c2) \<Rightarrow> Some (Inl e, c2)
         | (Inr cl, c2) \<Rightarrow> Some (Inr (), push_atom p cl c2))
      else if b = byte CHR ''.'' then
        (case any_class c1 of (cl, c2) \<Rightarrow> Some (Inr (), push_atom p cl c2))
      else
        (case literal_class b c1 of (cl, c2) \<Rightarrow> Some (Inr (), push_atom p cl c2)))"

section \<open>The loop\<close>

lemma intern_fields:
  "intern_class cl c = (i, c') \<Longrightarrow> c_pos c' = c_pos c \<and> c_items c' = c_items c \<and> c_captures c' = c_captures c
     \<and> c_stack_len c' = c_stack_len c \<and> c_capture_stack c' = c_capture_stack c"
  by (auto simp: intern_class_def Let_def split: option.splits)

lemma bracket_close_bounds: "bracket_close p scan = Some close \<Longrightarrow> scan < close \<and> close < length p"
proof (induction p scan rule: bracket_close.induct)
  case (1 p scan)
  from 1(2) [unfolded bracket_close.simps [of p scan]] show ?case
    by (auto simp: Let_def split: if_splits option.splits dest!: 1(1))
qed

lemma bracket_class_pos: "bracket_class p c = (r, c') \<Longrightarrow> c_pos c \<le> c_pos c'"
  by (auto simp: bracket_class_def Let_def split: option.splits prod.splits if_splits
      dest!: intern_fields bracket_close_bounds)

lemma push_atom_pos: "c_pos c \<le> c_pos (push_atom p cl c)"
  by (simp add: push_atom_def push_item_def Let_def)

lemma push_item_fields [simp]:
  "c_pos (push_item i c) = c_pos c" "c_items (push_item i c) = c_items c @ [i]" "c_classes (push_item i c) = c_classes c"
  "c_class_ids (push_item i c) = c_class_ids c" "c_capture_stack (push_item i c) = c_capture_stack c"
  "c_stack_len (push_item i c) = c_stack_len c" "c_captures (push_item i c) = c_captures c"
  by (simp_all add: push_item_def)

text \<open>Every round consumes a byte of the pattern.\<close>

lemma compile_item_progress:
  assumes "compile_item p c = Some (r, c')"
  shows "c_pos c < c_pos c'"
proof -
  have atom: "c_pos c < c_pos c'" if "intern_class cl c1 = (i, c2)" "c' = push_atom p i c2" "c_pos c < c_pos c1" for cl i c1 c2
    using that push_atom_pos [of c2 p i] by (auto dest!: intern_fields)
  have bracket: "c_pos c < c_pos c2" if "bracket_class p c1 = (r, c2)" "c_pos c < c_pos c1" for r c1 c2
    using bracket_class_pos [OF that(1)] that(2) by simp
  have bracket_atom: "c_pos c < c_pos c'" if "bracket_class p c1 = (r, c2)" "c' = push_atom p i c2" "c_pos c < c_pos c1" for r i c1 c2
    using bracket [OF that(1,3)] that(2) push_atom_pos [of c2 p i] by simp
  show ?thesis using assms
    unfolding compile_item_def compile_open_def compile_close_def compile_escape_def compile_balance_def compile_frontier_def
      compile_backref_def class_for_escape_def any_class_def literal_class_def
    by (auto simp: Let_def split: if_splits option.splits prod.splits sum.splits dest: atom bracket bracket_atom)
qed

function compile_items :: "u8 list \<Rightarrow> compiler \<Rightarrow> compile_step" where
  "compile_items p c =
     (if c_pos c < length p then
        (case compile_item p c of
           Some (Inr _, c') \<Rightarrow> compile_items p c'
         | r \<Rightarrow> r)
      else Some (Inr (), c))"
  by pat_completeness auto

termination compile_items
  by (relation "measure (\<lambda>(p, c). length p - c_pos c)") (auto dest: compile_item_progress)

declare compile_items.simps [simp del]

definition compile_pattern :: "u8 list \<Rightarrow> anchor_mode \<Rightarrow> compiled_pattern option" where
  "compile_pattern p mode =
     (let anchored = (mode = Honour \<and> get p 0 = Some (byte CHR ''^''));
          c = (if anchored then compiler_new\<lparr> c_pos := 1 \<rparr> else compiler_new)
      in case compile_items p c of
           None \<Rightarrow> None
         | Some (r, c1) \<Rightarrow>
             (let c2 = (case r of Inl e \<Rightarrow> push_item (Fail e) c1 | Inr _ \<Rightarrow> c1)
              in Some \<lparr> p_items = c_items c2, p_classes = c_classes c2, p_anchored = anchored, p_captures = c_captures c2 \<rparr>))"

text \<open>\<open>AnchorMode::effective\<close>, the mode compiled-pattern caches key on.\<close>

definition effective_mode :: "anchor_mode \<Rightarrow> u8 list \<Rightarrow> anchor_mode" where
  "effective_mode m p = (if get p 0 = Some (byte CHR ''^'') then m else Honour)"

lemma effective_mode_same: "compile_pattern p (effective_mode m p) = compile_pattern p m"
  by (cases m) (simp_all add: effective_mode_def compile_pattern_def)

section \<open>Well-scoped programs\<close>

fun opened :: "item \<Rightarrow> nat set" where
  "opened (CaptureStart s) = {unat s}"
| "opened (PositionCapture s) = {unat s}"
| "opened _ = {}"

fun closed :: "item \<Rightarrow> nat set" where
  "closed (CaptureEnd s) = {unat s}"
| "closed _ = {}"

definition opens :: "item list \<Rightarrow> nat set" where
  "opens its = (\<Union>i \<in> set its. opened i)"

definition closes :: "item list \<Rightarrow> nat set" where
  "closes its = (\<Union>i \<in> set its. closed i)"

lemma opens_simps [simp]: "opens [] = {}" "opens (i # its) = opened i \<union> opens its" "opens (xs @ ys) = opens xs \<union> opens ys"
  by (auto simp: opens_def)

lemma closes_simps [simp]: "closes [] = {}" "closes (i # its) = closed i \<union> closes its" "closes (xs @ ys) = closes xs \<union> closes ys"
  by (auto simp: closes_def)

text \<open>
  Items over \<open>m\<close> classes and \<open>n\<close> capture slots. A backreference is to a slot that no later item opens or
  closes, a capture ends after the only item that opens its slot.
\<close>

fun scoped :: "nat \<Rightarrow> nat \<Rightarrow> item list \<Rightarrow> bool" where
  "scoped m n [] = True"
| "scoped m n (i # its) =
     (scoped m n its \<and>
      (case i of
         Atom cl _ \<Rightarrow> cl < m
       | Frontier cl \<Rightarrow> cl < m
       | Backref s \<Rightarrow> unat s < n \<and> unat s \<notin> opens its \<union> closes its
       | CaptureStart s \<Rightarrow> unat s < n
       | CaptureEnd s \<Rightarrow> unat s < n \<and> unat s \<notin> opens its
       | PositionCapture s \<Rightarrow> unat s < n
       | EndAnchor \<Rightarrow> its = []
       | _ \<Rightarrow> True))"

lemma scoped_mono: "scoped m n its \<Longrightarrow> m \<le> m' \<Longrightarrow> n \<le> n' \<Longrightarrow> scoped m' n' its"
  by (induction its) (auto split: item.splits)

lemma scoped_append:
  "scoped m n (its @ [j]) \<longleftrightarrow>
     scoped m n its \<and> scoped m n [j] \<and> EndAnchor \<notin> set its \<and> (\<forall>s. Backref s \<in> set its \<longrightarrow> unat s \<notin> opened j \<union> closed j)
     \<and> (\<forall>s. CaptureEnd s \<in> set its \<longrightarrow> unat s \<notin> opened j)"
  by (induction its) (auto split: item.splits)

lemma scoped_end: "scoped m n its \<Longrightarrow> CaptureEnd s \<in> set its \<Longrightarrow> unat s < n"
  by (induction its) auto

lemma scoped_drop: "scoped m n its \<Longrightarrow> scoped m n (drop k its)"
  by (induction its arbitrary: k) (simp_all add: drop_Cons split: nat.split)

text \<open>What the compiler maintains.\<close>

definition compile_inv :: "compiler \<Rightarrow> bool" where
  "compile_inv c \<longleftrightarrow>
     scoped (length (c_classes c)) (c_captures c) (c_items c)
     \<and> c_stack_len c \<le> c_captures c \<and> c_captures c \<le> LUA_MAXCAPTURES \<and> length (c_capture_stack c) = LUA_MAXCAPTURES
     \<and> set (take (c_stack_len c) (c_capture_stack c)) \<subseteq> {..<c_captures c}
     \<and> (\<forall>s. Backref s \<in> set (c_items c) \<longrightarrow> unat s < c_captures c \<and> unat s \<notin> set (take (c_stack_len c) (c_capture_stack c)))
     \<and> opens (c_items c) = {..<c_captures c}
     \<and> (\<forall>cl i. c_class_ids c cl = Some i \<longrightarrow> i < length (c_classes c) \<and> c_classes c ! i = cl)
     \<and> (\<forall>cl \<in> set (c_classes c). length cl = 4)"

definition open_ended :: "compiler \<Rightarrow> bool" where
  "open_ended c \<longleftrightarrow> compile_inv c \<and> EndAnchor \<notin> set (c_items c)"

definition step_ok :: "u8 list \<Rightarrow> compile_step \<Rightarrow> bool" where
  "step_ok p r \<longleftrightarrow> (\<exists>x c. r = Some (x, c) \<and> compile_inv c \<and> (EndAnchor \<in> set (c_items c) \<longrightarrow> x = Inr () \<and> length p \<le> c_pos c))"

lemma inv_pos [simp]: "compile_inv (c\<lparr> c_pos := n \<rparr>) = compile_inv c" "open_ended (c\<lparr> c_pos := n \<rparr>) = open_ended c"
  by (simp_all add: compile_inv_def open_ended_def)

lemma step_ok_return [simp]: "open_ended c \<Longrightarrow> step_ok p (Some (x, c))"
  by (simp add: step_ok_def open_ended_def)

lemma intern_inv:
  assumes c: "open_ended c" and cl: "length cl = 4" and r: "intern_class cl c = (i, c')"
  shows "open_ended c' \<and> i < length (c_classes c') \<and> c_classes c' ! i = cl"
proof (cases "c_class_ids c cl")
  case None
  then have eq: "i = length (c_classes c)"
    "c' = c\<lparr> c_class_ids := (c_class_ids c)(cl \<mapsto> i), c_classes := c_classes c @ [cl] \<rparr>"
    using r by (auto simp: intern_class_def Let_def)
  have "scoped (Suc (length (c_classes c))) (c_captures c) (c_items c)"
    by (rule scoped_mono [of "length (c_classes c)" "c_captures c"]) (use c in \<open>simp_all add: open_ended_def compile_inv_def\<close>)
  moreover have "\<forall>d k. c_class_ids c d = Some k \<longrightarrow> k < length (c_classes c) \<and> c_classes c ! k = d"
    using c by (simp add: open_ended_def compile_inv_def)
  then have "\<forall>d k. c_class_ids c' d = Some k \<longrightarrow> k < length (c_classes c') \<and> c_classes c' ! k = d"
    unfolding eq by (auto simp: nth_append less_Suc_eq)
  ultimately show ?thesis using c cl unfolding open_ended_def compile_inv_def by (simp add: eq)
next
  case (Some k)
  then show ?thesis using c r by (auto simp: intern_class_def open_ended_def compile_inv_def)
qed

lemma plain_item_inv:
  assumes "open_ended c" "scoped (length (c_classes c)) (c_captures c) [i]" "opened i = {}" "closed i = {}" "i \<noteq> EndAnchor"
    "\<forall>s. Backref s \<noteq> i"
  shows "open_ended (push_item i c)"
  using assms by (simp add: open_ended_def compile_inv_def scoped_append)

lemma push_atom_inv: "open_ended c \<Longrightarrow> cl < length (c_classes c) \<Longrightarrow> open_ended (push_atom p cl c)"
  by (auto simp: push_atom_def Let_def intro!: plain_item_inv)

lemma bracket_items_length: "length cl = 4 \<Longrightarrow> length (bracket_items p close pos cl) = 4"
proof (induction p close pos cl rule: bracket_items.induct)
  case (1 p close pos cl)
  have f: "length (fold bc_insert bs cl) = length cl" for bs :: "u8 list" and cl by (induction bs arbitrary: cl) simp_all
  show ?case using 1(1,2,3) [OF _ refl] 1(4) by (subst bracket_items.simps) (simp add: f Let_def)
qed

lemma bracket_class_inv:
  assumes "open_ended c" "bracket_class p c = (r, c')"
  shows "open_ended c' \<and> (\<forall>i. r = Inr i \<longrightarrow> i < length (c_classes c'))"
proof -
  define c1 where "c1 = (if get p (c_pos c) = Some (byte CHR ''^'') then c\<lparr> c_pos := c_pos c + 1 \<rparr> else c)"
  have c1: "open_ended c1" using assms(1) by (simp add: c1_def)
  note r = assms(2) [unfolded bracket_class_def Let_def, folded c1_def]
  show ?thesis
  proof (cases "bracket_close p (c_pos c1)")
    case None
    then show ?thesis using r c1 by auto
  next
    case (Some close)
    obtain cl where "intern_class cl (c1\<lparr> c_pos := close + 1 \<rparr>) = (projr r, c')" "length cl = 4" "\<exists>i. r = Inr i"
      using r Some bracket_items_length [of bc_empty p close "c_pos c1"] by (auto split: prod.splits if_splits)
    then show ?thesis using intern_inv [of "c1\<lparr> c_pos := close + 1 \<rparr>"] c1 by auto
  qed
qed


lemma slot_word: "n < LUA_MAXCAPTURES \<Longrightarrow> unat (of_nat n :: u8) = n"
  by (simp add: LUA_MAXCAPTURES_def unat_of_nat)

lemma compile_open_ok: "open_ended c \<Longrightarrow> step_ok p (compile_open p c)"
proof (cases "c_captures c = LUA_MAXCAPTURES")
  case False
  assume c: "open_ended c"
  note f = c [unfolded open_ended_def compile_inv_def]
  have n: "c_captures c < LUA_MAXCAPTURES" using False f by simp
  have s: "scoped (length (c_classes c)) (Suc (c_captures c)) (c_items c)"
    by (rule scoped_mono [of "length (c_classes c)" "c_captures c"]) (use f in simp_all)
  have refs: "unat r < Suc (c_captures c) \<and> unat r \<noteq> c_captures c \<and> unat r \<notin> set (take (c_stack_len c) (c_capture_stack c))"
    if "Backref r \<in> set (c_items c)" for r
  proof -
    have "unat r < c_captures c \<and> unat r \<notin> set (take (c_stack_len c) (c_capture_stack c))" using f that by blast
    then show ?thesis by simp
  qed
  have ends: "unat r \<noteq> c_captures c" if "CaptureEnd r \<in> set (c_items c)" for r using scoped_end [OF conjunct1 [OF conjunct1 [OF f]] that] by simp
  have below: "set (take (c_stack_len c) (c_capture_stack c)) \<subseteq> insert (c_captures c) {..<c_captures c}" using f by blast
  have stack: "set (take (Suc k) (st[k := v])) = insert v (set (take k st))" if "k < length st" for k v and st :: "nat list"
    using that by (simp add: take_Suc_conv_app_nth)
  have pos: "open_ended (push_item (PositionCapture (of_nat (c_captures c))) (c\<lparr> c_captures := Suc (c_captures c), c_pos := q \<rparr>))" for q
    using f s n refs ends below unfolding open_ended_def compile_inv_def by (simp add: scoped_append slot_word lessThan_Suc)
  have k: "c_stack_len c < length (c_capture_stack c)" using f n by simp
  have start: "open_ended (push_item (CaptureStart (of_nat (c_captures c))) (c\<lparr> c_captures := Suc (c_captures c),
      c_capture_stack := (c_capture_stack c)[c_stack_len c := c_captures c], c_stack_len := Suc (c_stack_len c) \<rparr>))"
    using f s n refs ends below k unfolding open_ended_def compile_inv_def by (simp add: scoped_append slot_word lessThan_Suc stack)
  show ?thesis using False pos start k by (simp add: compile_open_def Let_def)
qed (simp add: compile_open_def)

lemma compile_close_ok: "open_ended c \<Longrightarrow> step_ok p (compile_close c)"
proof (cases "c_stack_len c")
  case (Suc k)
  assume c: "open_ended c"
  then have k: "k < length (c_capture_stack c)" using Suc by (simp add: open_ended_def compile_inv_def)
  have split: "set (take (Suc k) (c_capture_stack c)) = insert (c_capture_stack c ! k) (set (take k (c_capture_stack c)))"
    using k by (simp add: take_Suc_conv_app_nth)
  have slot: "c_capture_stack c ! k < c_captures c" "c_captures c \<le> LUA_MAXCAPTURES" using c Suc split by (auto simp: open_ended_def compile_inv_def)
  then have "unat (of_nat (c_capture_stack c ! k) :: u8) = c_capture_stack c ! k" by (intro slot_word) simp
  then have "open_ended (push_item (CaptureEnd (of_nat (c_capture_stack c ! k))) (c\<lparr> c_stack_len := k \<rparr>))"
    using c k slot(1) Suc split unfolding open_ended_def compile_inv_def by (simp add: scoped_append)
  then show ?thesis using Suc k by (simp add: compile_close_def Let_def)
qed (simp add: compile_close_def)

lemma compile_backref_ok: "open_ended c \<Longrightarrow> step_ok p (compile_backref b c)"
proof -
  assume c: "open_ended c"
  define index where "index = int (unat b) - int (unat (byte CHR ''1''))"
  have "open_ended (push_item (Backref (of_int index)) c)"
    if i: "0 \<le> index" "nat index < c_captures c" "nat index \<notin> set (take (c_stack_len c) (c_capture_stack c))"
  proof -
    have "c_captures c \<le> LUA_MAXCAPTURES" using c by (simp add: open_ended_def compile_inv_def)
    then have "unat (of_nat (nat index) :: u8) = nat index" using i by (intro slot_word) simp
    then have "unat (of_int index :: u8) = nat index" using i(1) by simp
    then show ?thesis using c i unfolding open_ended_def compile_inv_def by (auto simp: scoped_append)
  qed
  moreover have "\<not> length (c_capture_stack c) < c_stack_len c" using c by (simp add: open_ended_def compile_inv_def)
  ultimately show ?thesis using c unfolding compile_backref_def index_def [symmetric] Let_def by simp
qed

lemma atom_ok: "open_ended c \<Longrightarrow> length cl = 4 \<Longrightarrow>
    step_ok p (case intern_class cl c of (i, c1) \<Rightarrow> Some (Inr (), push_atom p i c1))"
  by (cases "intern_class cl c") (use intern_inv [of c cl] push_atom_inv in \<open>auto\<close>)

lemma bracket_ok: "open_ended c \<Longrightarrow> step_ok p (case bracket_class p c of
    (Inl e, c1) \<Rightarrow> Some (Inl e, c1) | (Inr cl, c1) \<Rightarrow> Some (Inr (), push_atom p cl c1))"
  by (cases "bracket_class p c") (use bracket_class_inv [of c p] push_atom_inv in \<open>auto split: sum.splits\<close>)

lemma compile_frontier_ok: "open_ended c \<Longrightarrow> step_ok p (compile_frontier p c)"
  unfolding compile_frontier_def
  by (cases "bracket_class p (c\<lparr> c_pos := c_pos c + 1 \<rparr>)")
    (use bracket_class_inv [of "c\<lparr> c_pos := c_pos c + 1 \<rparr>" p] in \<open>auto intro!: step_ok_return plain_item_inv split: sum.splits\<close>)

lemma compile_balance_ok: "open_ended c \<Longrightarrow> step_ok p (compile_balance p c)"
  by (auto simp: compile_balance_def intro!: step_ok_return plain_item_inv split: option.splits)

lemma compile_escape_ok: "open_ended c \<Longrightarrow> step_ok p (compile_escape p c)"
  unfolding compile_escape_def class_for_escape_def Let_def
  using compile_balance_ok compile_frontier_ok compile_backref_ok atom_ok [of "c\<lparr> c_pos := c_pos c + 1 \<rparr>"]
  by (simp split: option.splits)

lemma compile_item_ok: "open_ended c \<Longrightarrow> step_ok p (compile_item p c)"
proof -
  assume c: "open_ended c"
  let ?c = "c\<lparr> c_pos := c_pos c + 1 \<rparr>"
  have "step_ok p (Some (Inr (), push_item EndAnchor ?c))" if "c_pos ?c = length p"
    using c that by (auto simp: step_ok_def open_ended_def compile_inv_def scoped_append)
  then show ?thesis using c compile_open_ok [of ?c] compile_close_ok [of ?c] compile_escape_ok [of ?c]
      bracket_ok [of ?c] atom_ok [of ?c]
    unfolding compile_item_def any_class_def literal_class_def Let_def by simp
qed

lemma compile_items_ok: "open_ended c \<Longrightarrow> \<exists>x c'. compile_items p c = Some (x, c') \<and> compile_inv c' \<and> (\<forall>e. x = Inl e \<longrightarrow> open_ended c')"
proof (induction p c rule: compile_items.induct)
  case (1 p c)
  show ?case
  proof (cases "c_pos c < length p")
    case True
    obtain x c1 where c1: "compile_item p c = Some (x, c1)" "compile_inv c1" "EndAnchor \<in> set (c_items c1) \<Longrightarrow> x = Inr () \<and> length p \<le> c_pos c1"
      using compile_item_ok [OF 1(2), of p] by (auto simp: step_ok_def)
    show ?thesis
    proof (cases x)
      case (Inl e)
      then show ?thesis using c1 True by (subst compile_items.simps) (auto simp: open_ended_def)
    next
      case (Inr u)
      show ?thesis
      proof (cases "EndAnchor \<in> set (c_items c1)")
        case True
        then show ?thesis using c1 Inr \<open>c_pos c < length p\<close> compile_items.simps [of p c1]
          by (subst compile_items.simps) auto
      next
        case False
        then show ?thesis using 1(1) [OF True c1(1) _] c1 Inr True
          by (subst compile_items.simps) (simp add: open_ended_def)
      qed
    qed
  next
    case False
    then show ?thesis using 1(2) by (subst compile_items.simps) (simp add: open_ended_def)
  qed
qed

lemma new_open_ended: "open_ended compiler_new"
  by (simp add: open_ended_def compile_inv_def compiler_new_def)

definition program_ok :: "compiled_pattern \<Rightarrow> bool" where
  "program_ok P \<longleftrightarrow>
     scoped (length (p_classes P)) (p_captures P) (p_items P) \<and> p_captures P \<le> LUA_MAXCAPTURES
     \<and> opens (p_items P) = {..<p_captures P} \<and> (\<forall>cl \<in> set (p_classes P). length cl = 4)"

lemma compile_pattern_ok: "\<exists>P. compile_pattern p mode = Some P \<and> program_ok P"
proof -
  define c where "c = (if mode = Honour \<and> get p 0 = Some (byte CHR ''^'') then compiler_new\<lparr> c_pos := 1 \<rparr> else compiler_new)"
  have "open_ended c" using new_open_ended by (simp add: c_def)
  then obtain x c' where c': "compile_items p c = Some (x, c')" "compile_inv c'" "\<forall>e. x = Inl e \<longrightarrow> open_ended c'"
    using compile_items_ok by blast
  define d where "d = (case x of Inl e \<Rightarrow> push_item (Fail e) c' | Inr _ \<Rightarrow> c')"
  have "compile_inv d" unfolding d_def using c' plain_item_inv [of c' "Fail _"] by (auto simp: open_ended_def split: sum.split)
  then have "program_ok \<lparr> p_items = c_items d, p_classes = c_classes d, p_anchored = b, p_captures = c_captures d \<rparr>" for b
    by (simp add: compile_inv_def program_ok_def)
  then show ?thesis unfolding compile_pattern_def Let_def c_def [symmetric] c'(1) by (simp add: d_def)
qed

end
