(* ===== verification/Pattern_Match.thy ===== *)
theory Pattern_Match
  imports Pattern_Compile Cost_Meter
begin

text \<open>
  The matcher of compiled Lua patterns (\<open>patterns/luapat.rs\<close>, \<open>patterns/mod.rs\<close>): backtracking over the items
  with capture slots that every alternative and every start position share and none resets. Each
  step polls the host's interrupt and charges the meter. The interrupt flag can be set at any time
  by another thread; it is the argument \<open>interrupt\<close>, the flag's value at each poll. Recursion below
  \<open>match_at\<close> and the loops around it are functions with termination proofs: the item index grows.
\<close>

datatype match_error = PatternErr pattern_error | MatchBudgetExceeded | MatchInterrupted

datatype 'a match_result = Ok 'a | Err match_error | MatchPanic

datatype cap_len = Len nat | Unfinished | Position

record capture =
  cap_init :: nat
  cap_len :: cap_len

datatype lua_capture = CapBytes nat nat | CapPosition nat | CapUnfinished

type_synonym capture_slots = "capture list"

definition capture_slots_new :: capture_slots where
  "capture_slots_new = replicate LUA_MAXCAPTURES \<lparr> cap_init = 0, cap_len = Len 0 \<rparr>"

text \<open>\<open>CaptureSlots::get\<close>; \<^const>\<open>None\<close> is an index outside the array.\<close>

definition get_slot :: "capture_slots \<Rightarrow> nat \<Rightarrow> lua_capture option" where
  "get_slot cs i =
     (if i < length cs
      then Some (case cap_len (cs ! i) of
             Len n \<Rightarrow> CapBytes (cap_init (cs ! i)) (cap_init (cs ! i) + n)
           | Position \<Rightarrow> CapPosition (cap_init (cs ! i))
           | Unfinished \<Rightarrow> CapUnfinished)
      else None)"

section \<open>Steps\<close>

record match_state =
  m_captures :: capture_slots
  m_meter :: cost_meter
  m_polls :: nat

type_synonym 'a matcher = "match_state \<Rightarrow> 'a match_result \<times> match_state"

definition bind_m :: "'a matcher \<Rightarrow> ('a \<Rightarrow> 'b matcher) \<Rightarrow> 'b matcher" where
  "bind_m m f st =
     (case m st of (Ok x, st') \<Rightarrow> f x st' | (Err e, st') \<Rightarrow> (Err e, st') | (MatchPanic, st') \<Rightarrow> (MatchPanic, st'))"

definition return_m :: "'a \<Rightarrow> 'a matcher" where
  "return_m x st = (Ok x, st)"

definition match_charge :: "(nat \<Rightarrow> bool) \<Rightarrow> unit matcher" where
  "match_charge interrupt st =
     (let st1 = st\<lparr> m_polls := m_polls st + 1 \<rparr> in
      if interrupt (m_polls st) then (Err MatchInterrupted, st1)
      else case consume_units 1 (m_meter st) of
             (True, m) \<Rightarrow> (Ok (), st1\<lparr> m_meter := m \<rparr>)
           | (False, m) \<Rightarrow> (Err MatchBudgetExceeded, st1\<lparr> m_meter := m \<rparr>))"

definition singlematch :: "(nat \<Rightarrow> bool) \<Rightarrow> u8 list \<Rightarrow> compiled_pattern \<Rightarrow> nat \<Rightarrow> nat \<Rightarrow> bool matcher" where
  "singlematch interrupt subject P pos cl =
     bind_m (match_charge interrupt) (\<lambda>_ st.
       case get subject pos of
         None \<Rightarrow> (Ok False, st)
       | Some b \<Rightarrow>
           if cl < length (p_classes P) then (Ok (bc_contains (p_classes P ! cl) b), st) else (MatchPanic, st))"

function balance_loop :: "(nat \<Rightarrow> bool) \<Rightarrow> u8 list \<Rightarrow> u8 \<Rightarrow> u8 \<Rightarrow> nat \<Rightarrow> nat \<Rightarrow> nat option matcher" where
  "balance_loop interrupt subject opening closing depth cursor st =
     (case get subject cursor of
        None \<Rightarrow> (Ok None, st)
      | Some b \<Rightarrow>
          bind_m (match_charge interrupt) (\<lambda>_ st.
            if b = closing then
              (if depth - 1 = 0 then (Ok (Some (cursor + 1)), st)
               else balance_loop interrupt subject opening closing (depth - 1) (cursor + 1) st)
            else if b = opening then balance_loop interrupt subject opening closing (depth + 1) (cursor + 1) st
            else balance_loop interrupt subject opening closing depth (cursor + 1) st) st)"
  by pat_completeness auto

termination balance_loop
  by (relation "measure (\<lambda>(_, subject, _, _, _, cursor, _). length subject - cursor)") (auto simp: get_def split: if_splits)

definition match_balance :: "(nat \<Rightarrow> bool) \<Rightarrow> u8 list \<Rightarrow> nat \<Rightarrow> u8 \<Rightarrow> u8 \<Rightarrow> nat option matcher" where
  "match_balance interrupt subject pos opening closing =
     bind_m (match_charge interrupt) (\<lambda>_.
       if get subject pos \<noteq> Some opening then return_m None
       else balance_loop interrupt subject opening closing 1 (pos + 1))"

text \<open>The byte loop of a backreference.\<close>

function backref_loop :: "(nat \<Rightarrow> bool) \<Rightarrow> u8 list \<Rightarrow> nat \<Rightarrow> nat \<Rightarrow> nat \<Rightarrow> nat \<Rightarrow> bool matcher" where
  "backref_loop interrupt subject pos start n offset st =
     (if offset < n then
        (case get subject (pos + offset) of
           None \<Rightarrow> (Ok False, st)
         | Some b \<Rightarrow>
             bind_m (match_charge interrupt) (\<lambda>_ st.
               if \<not> start + offset < length subject then (MatchPanic, st)
               else if subject ! (start + offset) \<noteq> b then (Ok False, st)
               else backref_loop interrupt subject pos start n (offset + 1) st) st)
      else (Ok True, st))"
  by pat_completeness auto

termination backref_loop
  by (relation "measure (\<lambda>(_, _, _, _, n, offset, _). n - offset)") auto

text \<open>The two loops of \<open>max_expand\<close> and the loop of \<open>min_expand\<close>; \<open>next\<close> matches the items that follow.\<close>

lemma singlematch_inside: "singlematch interrupt subject P pos cl st = (Ok True, st') \<Longrightarrow> pos < length subject"
  by (auto simp: singlematch_def bind_m_def get_def split: prod.splits match_result.splits if_splits)

function expand_end :: "(nat \<Rightarrow> bool) \<Rightarrow> u8 list \<Rightarrow> compiled_pattern \<Rightarrow> nat \<Rightarrow> nat \<Rightarrow> nat matcher" where
  "expand_end interrupt subject P cl stop st =
     (case singlematch interrupt subject P stop cl st of
        (Ok True, st') \<Rightarrow> expand_end interrupt subject P cl (stop + 1) st'
      | (Ok False, st') \<Rightarrow> (Ok stop, st')
      | (Err e, st') \<Rightarrow> (Err e, st')
      | (MatchPanic, st') \<Rightarrow> (MatchPanic, st'))"
  by pat_completeness auto

termination expand_end
  by (relation "measure (\<lambda>(_, subject, _, _, stop, _). length subject - stop)") (auto dest!: sym [THEN singlematch_inside] simp: diff_less_mono2)

fun shrink_loop :: "(nat \<Rightarrow> nat option matcher) \<Rightarrow> nat \<Rightarrow> nat \<Rightarrow> nat option matcher" where
  "shrink_loop follow pos stop st =
     (case follow stop st of
        (Ok None, st') \<Rightarrow>
          if stop = pos then (Ok None, st')
          else (case stop of 0 \<Rightarrow> (MatchPanic, st') | Suc k \<Rightarrow> shrink_loop follow pos k st')
      | r \<Rightarrow> r)"

definition max_expand ::
  "(nat \<Rightarrow> bool) \<Rightarrow> u8 list \<Rightarrow> compiled_pattern \<Rightarrow> (nat \<Rightarrow> nat option matcher) \<Rightarrow> nat \<Rightarrow> nat \<Rightarrow> nat option matcher" where
  "max_expand interrupt subject P follow pos cl =
     bind_m (expand_end interrupt subject P cl pos) (\<lambda>stop. shrink_loop follow pos stop)"

function min_expand ::
  "(nat \<Rightarrow> bool) \<Rightarrow> u8 list \<Rightarrow> compiled_pattern \<Rightarrow> (nat \<Rightarrow> nat option matcher) \<Rightarrow> nat \<Rightarrow> nat \<Rightarrow> nat option matcher" where
  "min_expand interrupt subject P follow pos cl st =
     (case follow pos st of
        (Ok None, st') \<Rightarrow>
          (case singlematch interrupt subject P pos cl st' of
             (Ok True, st'') \<Rightarrow> min_expand interrupt subject P follow (pos + 1) cl st''
           | (Ok False, st'') \<Rightarrow> (Ok None, st'')
           | (Err e, st'') \<Rightarrow> (Err e, st'')
           | (MatchPanic, st'') \<Rightarrow> (MatchPanic, st''))
      | r \<Rightarrow> r)"
  by pat_completeness auto

termination min_expand
  by (relation "measure (\<lambda>(_, subject, _, _, pos, _, _). length subject - pos)") (auto dest!: sym [THEN singlematch_inside] simp: diff_less_mono2)

declare balance_loop.simps [simp del] backref_loop.simps [simp del] expand_end.simps [simp del]
  shrink_loop.simps [simp del] min_expand.simps [simp del]

text \<open>
  One round of the loop of \<open>match_at\<close>, on the current item: \<open>recurse\<close> is the recursive call on the next item,
  \<open>proceed\<close> the next round of the same loop.
\<close>

definition match_item ::
  "(nat \<Rightarrow> bool) \<Rightarrow> u8 list \<Rightarrow> compiled_pattern \<Rightarrow> (nat \<Rightarrow> nat option matcher) \<Rightarrow> (nat \<Rightarrow> nat option matcher)
     \<Rightarrow> item \<Rightarrow> nat \<Rightarrow> nat option matcher" where
  "match_item interrupt subject P recurse proceed current pos =
     (case current of
        CaptureStart slot \<Rightarrow> (\<lambda>st.
          if unat slot < length (m_captures st)
          then recurse pos (st\<lparr> m_captures := (m_captures st)[unat slot := \<lparr> cap_init = pos, cap_len = Unfinished \<rparr>] \<rparr>)
          else (MatchPanic, st))
      | CaptureEnd slot \<Rightarrow> (\<lambda>st.
          if unat slot < length (m_captures st) \<and> cap_init (m_captures st ! unat slot) \<le> pos
          then recurse pos (st\<lparr> m_captures := (m_captures st)[unat slot :=
                 (m_captures st ! unat slot)\<lparr> cap_len := Len (pos - cap_init (m_captures st ! unat slot)) \<rparr>] \<rparr>)
          else (MatchPanic, st))
      | PositionCapture slot \<Rightarrow> (\<lambda>st.
          if unat slot < length (m_captures st)
          then recurse pos (st\<lparr> m_captures := (m_captures st)[unat slot := \<lparr> cap_init = pos, cap_len = Position \<rparr>] \<rparr>)
          else (MatchPanic, st))
      | Balance opening closing \<Rightarrow>
          bind_m (match_balance interrupt subject pos opening closing) (\<lambda>r.
            case r of Some p \<Rightarrow> proceed p | None \<Rightarrow> return_m None)
      | Frontier cl \<Rightarrow> (\<lambda>st.
          let previous = (if pos = 0 then 0 else case get subject (pos - 1) of Some b \<Rightarrow> b | None \<Rightarrow> 0);
              this = (case get subject pos of Some b \<Rightarrow> b | None \<Rightarrow> 0)
          in if \<not> cl < length (p_classes P) then (MatchPanic, st)
             else if bc_contains (p_classes P ! cl) previous \<or> \<not> bc_contains (p_classes P ! cl) this then (Ok None, st)
             else proceed pos st)
      | Backref slot \<Rightarrow> (\<lambda>st.
          if \<not> unat slot < length (m_captures st) then (MatchPanic, st)
          else case cap_len (m_captures st ! unat slot) of
            Len n \<Rightarrow>
              bind_m (backref_loop interrupt subject pos (cap_init (m_captures st ! unat slot)) n 0) (\<lambda>same.
                if same then proceed (pos + n) else return_m None) st
          | Position \<Rightarrow> (Ok None, st)
          | Unfinished \<Rightarrow> (Err (PatternErr (InvalidCaptureIndex (sint slot))), st))
      | EndAnchor \<Rightarrow> return_m (if pos = length subject then Some pos else None)
      | Fail e \<Rightarrow> (\<lambda>st. (Err (PatternErr e), st))
      | Atom cl rep \<Rightarrow>
          bind_m (singlematch interrupt subject P pos cl) (\<lambda>hit.
            case rep of
              One \<Rightarrow> if \<not> hit then return_m None else proceed (pos + 1)
            | Optional \<Rightarrow>
                if hit then bind_m (recurse (pos + 1)) (\<lambda>r.
                  case r of Some p \<Rightarrow> return_m (Some p) | None \<Rightarrow> proceed pos)
                else proceed pos
            | ZeroOrMoreGreedy \<Rightarrow> if \<not> hit then proceed pos else max_expand interrupt subject P recurse pos cl
            | OneOrMoreGreedy \<Rightarrow> if \<not> hit then return_m None else max_expand interrupt subject P recurse (pos + 1) cl
            | ZeroOrMoreMinimal \<Rightarrow> if \<not> hit then proceed pos else min_expand interrupt subject P recurse pos cl))"

function match_at :: "(nat \<Rightarrow> bool) \<Rightarrow> u8 list \<Rightarrow> compiled_pattern \<Rightarrow> nat \<Rightarrow> nat \<Rightarrow> nat \<Rightarrow> nat option matcher"
  and match_loop :: "(nat \<Rightarrow> bool) \<Rightarrow> u8 list \<Rightarrow> compiled_pattern \<Rightarrow> nat \<Rightarrow> nat \<Rightarrow> nat \<Rightarrow> nat option matcher" where
  "match_at interrupt subject P pos item depth st =
     (if depth \<ge> MAXCCALLS then (Err (PatternErr MatchDepthExceeded), st)
      else match_loop interrupt subject P pos item depth st)"
| "match_loop interrupt subject P pos item depth st =
     bind_m (match_charge interrupt) (\<lambda>_ st.
       if item < length (p_items P)
       then match_item interrupt subject P
              (\<lambda>p st. match_at interrupt subject P p (item + 1) (depth + 1) st)
              (\<lambda>p st. match_loop interrupt subject P p (item + 1) depth st) (p_items P ! item) pos st
       else (Ok (Some pos), st)) st"
  by pat_completeness auto

termination
  by (relation "measure (\<lambda>x. case x of
        Inl (_, _, P, _, item, _, _) \<Rightarrow> 2 * (length (p_items P) - item) + 1
      | Inr (_, _, P, _, item, _, _) \<Rightarrow> 2 * (length (p_items P) - item))") auto

declare match_at.simps [simp del] match_loop.simps [simp del]

text \<open>
  The loop of \<open>str_match\<close>. Callers pass a start within the subject; past its end the loop would count up
  to the overflow of its position, which the model takes as a panic.
\<close>

function search_loop :: "(nat \<Rightarrow> bool) \<Rightarrow> u8 list \<Rightarrow> compiled_pattern \<Rightarrow> nat \<Rightarrow> (nat \<times> nat) option matcher" where
  "search_loop interrupt subject P pos st =
     (case match_at interrupt subject P pos 0 0 st of
        (Ok (Some stop), st') \<Rightarrow> (Ok (Some (pos, stop)), st')
      | (Ok None, st') \<Rightarrow>
          if p_anchored P \<or> pos = length subject then (Ok None, st')
          else if pos > length subject then (MatchPanic, st')
          else search_loop interrupt subject P (pos + 1) st'
      | (Err e, st') \<Rightarrow> (Err e, st')
      | (MatchPanic, st') \<Rightarrow> (MatchPanic, st'))"
  by pat_completeness auto

termination search_loop
  by (relation "measure (\<lambda>(_, subject, _, pos, _). Suc (length subject) - pos)") auto

declare search_loop.simps [simp del]

text \<open>\<open>str_match\<close> takes the slots it publishes to and the meter, and gives them back.\<close>

definition str_match ::
  "(nat \<Rightarrow> bool) \<Rightarrow> u8 list \<Rightarrow> compiled_pattern \<Rightarrow> nat \<Rightarrow> capture_slots \<Rightarrow> cost_meter
     \<Rightarrow> (nat \<times> nat) option match_result \<times> capture_slots \<times> cost_meter" where
  "str_match interrupt subject P start captures m =
     (if p_items P = [] then (Ok (Some (start, start)), captures, m)
      else case search_loop interrupt subject P start \<lparr> m_captures = capture_slots_new, m_meter = m, m_polls = 0 \<rparr> of
        (Ok (Some whole), st) \<Rightarrow>
          (let n = p_captures P
           in if n \<le> length captures \<and> n \<le> length (m_captures st)
              then (Ok (Some whole), take n (m_captures st) @ drop n captures, m_meter st)
              else (MatchPanic, captures, m_meter st))
      | (r, st) \<Rightarrow> (r, captures, m_meter st))"

end
