(* ===== verification/Pattern_Spec.thy ===== *)
theory Pattern_Spec
  imports Pattern_Match
begin

text \<open>
  What Lua patterns mean: for a list of items, a position and the captures so far, all ways to
  match, in the order of preference, with immutable captures and without charges or limits. A way
  ends in a match or in a malformed item. Shown here: a search returns the first way at the
  leftmost start that has one.
\<close>

section \<open>All matches in the order of preference\<close>

datatype attempt = Hit nat capture_slots | Stuck pattern_error

definition run_length :: "u8 list \<Rightarrow> byte_class \<Rightarrow> nat \<Rightarrow> nat" where
  "run_length subject cl pos = length (takeWhile (bc_contains cl) (drop pos subject))"

fun balanced_length :: "u8 \<Rightarrow> u8 \<Rightarrow> nat \<Rightarrow> u8 list \<Rightarrow> nat option" where
  "balanced_length opening closing d [] = None"
| "balanced_length opening closing d (b # bs) =
     (if b = closing then (if d \<le> 1 then Some 1 else map_option Suc (balanced_length opening closing (d - 1) bs))
      else map_option Suc (balanced_length opening closing (if b = opening then d + 1 else d) bs))"

definition balanced_end :: "u8 list \<Rightarrow> u8 \<Rightarrow> u8 \<Rightarrow> nat \<Rightarrow> nat option" where
  "balanced_end subject opening closing pos =
     (case drop pos subject of
        [] \<Rightarrow> None
      | b # bs \<Rightarrow> if b = opening then map_option (\<lambda>k. pos + 1 + k) (balanced_length opening closing 1 bs) else None)"

text \<open>The byte at a position, and zero outside the subject.\<close>

definition byte_at :: "u8 list \<Rightarrow> nat \<Rightarrow> u8" where
  "byte_at subject pos = (if pos < length subject then subject ! pos else 0)"

definition at_frontier :: "u8 list \<Rightarrow> byte_class \<Rightarrow> nat \<Rightarrow> bool" where
  "at_frontier subject cl pos \<longleftrightarrow>
     \<not> bc_contains cl (if pos = 0 then 0 else byte_at subject (pos - 1)) \<and> bc_contains cl (byte_at subject pos)"

fun choices :: "repeat \<Rightarrow> nat \<Rightarrow> nat \<Rightarrow> nat list" where
  "choices One pos n = (if 0 < n then [pos + 1] else [])"
| "choices Optional pos n = (if 0 < n then [pos + 1, pos] else [pos])"
| "choices ZeroOrMoreGreedy pos n = rev [pos..<Suc (pos + n)]"
| "choices OneOrMoreGreedy pos n = rev [Suc pos..<Suc (pos + n)]"
| "choices ZeroOrMoreMinimal pos n = [pos..<Suc (pos + n)]"

fun successes :: "u8 list \<Rightarrow> byte_class list \<Rightarrow> item list \<Rightarrow> nat \<Rightarrow> capture_slots \<Rightarrow> attempt list" where
  "successes subject cls [] pos cs = [Hit pos cs]"
| "successes subject cls (i # its) pos cs =
     (case i of
        Atom cl rep \<Rightarrow> concat (map (\<lambda>p. successes subject cls its p cs) (choices rep pos (run_length subject (cls ! cl) pos)))
      | Balance opening closing \<Rightarrow>
          (case balanced_end subject opening closing pos of Some p \<Rightarrow> successes subject cls its p cs | None \<Rightarrow> [])
      | Frontier cl \<Rightarrow> if at_frontier subject (cls ! cl) pos then successes subject cls its pos cs else []
      | Backref s \<Rightarrow>
          (case cap_len (cs ! unat s) of
             Len n \<Rightarrow>
               if pos + n \<le> length subject \<and> take n (drop pos subject) = take n (drop (cap_init (cs ! unat s)) subject)
               then successes subject cls its (pos + n) cs else []
           | Position \<Rightarrow> []
           | Unfinished \<Rightarrow> [Stuck (InvalidCaptureIndex (sint s))])
      | CaptureStart s \<Rightarrow> successes subject cls its pos (cs[unat s := \<lparr> cap_init = pos, cap_len = Unfinished \<rparr>])
      | CaptureEnd s \<Rightarrow>
          successes subject cls its pos (cs[unat s := (cs ! unat s)\<lparr> cap_len := Len (pos - cap_init (cs ! unat s)) \<rparr>])
      | PositionCapture s \<Rightarrow> successes subject cls its pos (cs[unat s := \<lparr> cap_init = pos, cap_len = Position \<rparr>])
      | EndAnchor \<Rightarrow> if pos = length subject then [Hit pos cs] else []
      | Fail e \<Rightarrow> [Stuck e])"

section \<open>Dirty slots\<close>

text \<open>
  Slots that items still open are arbitrary; of slots that items still close, only the start
  counts.
\<close>

definition agree :: "item list \<Rightarrow> capture_slots \<Rightarrow> capture_slots \<Rightarrow> bool" where
  "agree its cs ds \<longleftrightarrow>
     length cs = length ds \<and>
     (\<forall>s < length cs. s \<notin> opens its \<longrightarrow>
        cap_init (cs ! s) = cap_init (ds ! s) \<and> (s \<notin> closes its \<longrightarrow> cs ! s = ds ! s))"

lemma agree_refl [simp]: "agree its cs cs"
  by (simp add: agree_def)

lemma agree_trans: "agree its cs ds \<Longrightarrow> agree its ds es \<Longrightarrow> agree its cs es"
  by (simp add: agree_def)

lemma agree_Nil [simp]: "agree [] cs ds \<longleftrightarrow> cs = ds"
  by (auto simp: agree_def intro: nth_equalityI)

lemma agree_neutral: "opened i = {} \<Longrightarrow> closed i = {} \<Longrightarrow> agree (i # its) cs ds \<longleftrightarrow> agree its cs ds"
  by (simp add: agree_def)

lemma nth_update: "xs[i := x] ! j = (if i = j \<and> j < length xs then x else xs ! j)"
  by (cases "i < length xs") (auto simp: nth_list_update list_update_beyond)

lemma same_length_update: "cap_init a = cap_init b \<Longrightarrow> a\<lparr>cap_len := l\<rparr> = b\<lparr>cap_len := l\<rparr>" for a b :: capture
  by (cases a; cases b) simp

lemma agree_open:
  "agree (CaptureStart s # its) cs ds \<Longrightarrow> agree its (cs[unat s := x]) (ds[unat s := x])"
  "agree (PositionCapture s # its) cs ds \<Longrightarrow> agree its (cs[unat s := x]) (ds[unat s := x])"
  by (auto simp: agree_def nth_update)

lemma agree_close:
  "agree (CaptureEnd s # its) cs ds \<Longrightarrow>
     agree its (cs[unat s := (cs ! unat s)\<lparr>cap_len := Len (pos - cap_init (cs ! unat s))\<rparr>])
       (ds[unat s := (ds ! unat s)\<lparr>cap_len := Len (pos - cap_init (ds ! unat s))\<rparr>])"
  by (auto simp: agree_def nth_update intro: same_length_update)

lemma agree_after_open:
  "agree its (cs[unat s := x]) ds \<Longrightarrow> agree (CaptureStart s # its) cs ds"
  "agree its (cs[unat s := x]) ds \<Longrightarrow> agree (PositionCapture s # its) cs ds"
  by (auto simp: agree_def nth_update split: if_splits)

lemma agree_after_close:
  "agree its (cs[unat s := (cs ! unat s)\<lparr>cap_len := l\<rparr>]) ds \<Longrightarrow> agree (CaptureEnd s # its) cs ds"
  by (auto simp: agree_def nth_update split: if_splits)

lemma successes_agree:
  "agree its cs ds \<Longrightarrow> scoped m (length cs) its \<Longrightarrow> successes subject cls its pos cs = successes subject cls its pos ds"
proof (induction its arbitrary: pos cs ds)
  case (Cons i its)
  note IH = Cons.IH
  have n: "scoped m (length cs) its" using Cons.prems(2) by simp
  show ?case
  proof (cases i)
    case (CaptureStart s)
    then show ?thesis using IH [OF agree_open(1)] Cons.prems n by simp
  next
    case (PositionCapture s)
    then show ?thesis using IH [OF agree_open(2)] Cons.prems n by simp
  next
    case (CaptureEnd s)
    then show ?thesis using IH [OF agree_close] Cons.prems n by simp
  next
    case (Backref s)
    then have "cs ! unat s = ds ! unat s" "agree its cs ds" using Cons.prems by (auto simp: agree_def)
    then show ?thesis using IH [OF _ n] Backref by (simp split: cap_len.split)
  next
    case EndAnchor
    then show ?thesis using Cons.prems by (simp add: agree_neutral)
  qed (use Cons.prems IH [OF _ n] in \<open>simp_all add: agree_neutral split: option.split\<close>)
qed simp

section \<open>Steps that leave the slots alone\<close>

fun unlimited :: "cost_meter \<Rightarrow> bool" where
  "unlimited (FiniteBudget _ _ _) = False"
| "unlimited _ = True"

text \<open>
  The step gives \<open>v\<close>, unless the budget or an interrupt stops it, which cannot happen when the search is
  \<open>free\<close> of both.
\<close>

definition free_search :: "bool \<Rightarrow> (nat \<Rightarrow> bool) \<Rightarrow> bool" where
  "free_search free interrupt \<longleftrightarrow> (free \<longrightarrow> (\<forall>k. \<not> interrupt k))"

definition gives :: "bool \<Rightarrow> 'a matcher \<Rightarrow> match_state \<Rightarrow> 'a \<Rightarrow> bool" where
  "gives free m st v \<longleftrightarrow>
     (\<exists>r st'. m st = (r, st') \<and> m_captures st' = m_captures st \<and> (free \<longrightarrow> unlimited (m_meter st) \<longrightarrow> unlimited (m_meter st'))
        \<and> (r = Ok v \<or> r \<in> {Err MatchBudgetExceeded, Err MatchInterrupted} \<and> (free \<longrightarrow> \<not> unlimited (m_meter st))))"

lemma gives_return [simp]: "gives free (\<lambda>st. (Ok v, st)) st v" "gives free (return_m v) st v"
  by (simp_all add: gives_def return_m_def)

lemma gives_charge: "free_search free interrupt \<Longrightarrow> gives free (match_charge interrupt) st ()"
proof -
  assume f: "free_search free interrupt"
  obtain ok m where c: "consume_units 1 (m_meter st) = (ok, m)" by fastforce
  then have "unlimited (m_meter st) \<Longrightarrow> ok \<and> unlimited m"
    by (cases "m_meter st") (auto simp: consume_units_def)
  then show ?thesis using f c by (cases ok) (auto simp: gives_def match_charge_def free_search_def Let_def)
qed

lemma gives_bind:
  assumes "gives free m st v" "\<And>st'. m_captures st' = m_captures st \<Longrightarrow> gives free (f v) st' w"
  shows "gives free (bind_m m f) st w"
proof -
  obtain r st' where r: "m st = (r, st')" "m_captures st' = m_captures st" "free \<longrightarrow> unlimited (m_meter st) \<longrightarrow> unlimited (m_meter st')"
    "r = Ok v \<or> r \<in> {Err MatchBudgetExceeded, Err MatchInterrupted} \<and> (free \<longrightarrow> \<not> unlimited (m_meter st))"
    using assms(1) by (auto simp: gives_def)
  then show ?thesis using assms(2) [of st'] by (auto simp: gives_def bind_m_def)
qed

definition fits_class :: "u8 list \<Rightarrow> byte_class \<Rightarrow> nat \<Rightarrow> bool" where
  "fits_class subject cl pos \<longleftrightarrow> pos < length subject \<and> bc_contains cl (subject ! pos)"

lemma run_length_unfold:
  "run_length subject cl pos = (if fits_class subject cl pos then Suc (run_length subject cl (Suc pos)) else 0)"
proof (cases "pos < length subject")
  case True
  then have "drop pos subject = subject ! pos # drop (Suc pos) subject" by (simp add: Cons_nth_drop_Suc)
  then show ?thesis using True by (simp add: run_length_def fits_class_def)
qed (simp add: run_length_def fits_class_def)

lemma run_length_bound: "pos \<le> length subject \<Longrightarrow> pos + run_length subject cl pos \<le> length subject"
  using length_takeWhile_le [of "bc_contains cl" "drop pos subject"] by (simp add: run_length_def)

lemma gives_singlematch:
  assumes "free_search free interrupt" "cl < length (p_classes P)"
  shows "gives free (singlematch interrupt subject P pos cl) st (fits_class subject (p_classes P ! cl) pos)"
  unfolding singlematch_def
  by (rule gives_bind [OF gives_charge [OF assms(1)]]) (use assms(2) in \<open>simp add: get_def fits_class_def gives_def\<close>)

lemma gives_expand_end:
  assumes "free_search free interrupt" "cl < length (p_classes P)"
  shows "gives free (expand_end interrupt subject P cl pos) st (pos + run_length subject (p_classes P ! cl) pos)"
proof (induction "length subject - pos" arbitrary: pos st rule: less_induct)
  case less
  have "expand_end interrupt subject P cl pos =
      bind_m (singlematch interrupt subject P pos cl) (\<lambda>hit. if hit then expand_end interrupt subject P cl (pos + 1) else return_m pos)"
    by (rule ext, subst expand_end.simps) (auto simp: bind_m_def return_m_def split: prod.split match_result.split bool.split)
  moreover have "gives free (bind_m (singlematch interrupt subject P pos cl)
      (\<lambda>hit. if hit then expand_end interrupt subject P cl (pos + 1) else return_m pos)) st (pos + run_length subject (p_classes P ! cl) pos)"
    by (rule gives_bind [OF gives_singlematch [OF assms]])
      (use less [of "Suc pos"] in \<open>simp add: run_length_unfold [of _ _ pos] fits_class_def diff_less_mono2\<close>)
  ultimately show ?case by simp
qed

lemma shift_eta: "(\<lambda>x. Suc (n + x)) = (+) (Suc n)"
  by (simp add: fun_eq_iff)

lemma gives_balance_loop:
  assumes "free_search free interrupt" "0 < d"
  shows "gives free (balance_loop interrupt subject opening closing d cursor) st
    (map_option (\<lambda>k. cursor + k) (balanced_length opening closing d (drop cursor subject)))"
  using assms(2)
proof (induction "length subject - cursor" arbitrary: d cursor st rule: less_induct)
  case less
  let ?rec = "\<lambda>d. balance_loop interrupt subject opening closing d (cursor + 1)"
  show ?case
  proof (cases "cursor < length subject")
    case True
    define b where "b = subject ! cursor"
    have dr: "drop cursor subject = b # drop (Suc cursor) subject" using True by (simp add: b_def Cons_nth_drop_Suc)
    have IH: "gives free (?rec d') st' (map_option (\<lambda>k. cursor + k) (map_option Suc (balanced_length opening closing d' (drop (Suc cursor) subject))))"
      if "0 < d'" for d' st'
      using less(1) [of "Suc cursor" d' st'] that True by (simp add: diff_less_mono2 option.map_comp comp_def shift_eta)
    have "balance_loop interrupt subject opening closing d cursor st = bind_m (match_charge interrupt) (\<lambda>_.
        if b = closing then (if d - 1 = 0 then return_m (Some (cursor + 1)) else ?rec (d - 1))
        else if b = opening then ?rec (d + 1) else ?rec d) st"
      using True by (subst balance_loop.simps) (simp add: get_def b_def bind_m_def return_m_def split: prod.split match_result.split)
    moreover have "gives free (bind_m (match_charge interrupt) (\<lambda>_.
        if b = closing then (if d - 1 = 0 then return_m (Some (cursor + 1)) else ?rec (d - 1))
        else if b = opening then ?rec (d + 1) else ?rec d)) st (map_option (\<lambda>k. cursor + k) (balanced_length opening closing d (drop cursor subject)))"
      by (rule gives_bind [OF gives_charge [OF assms(1)]]) (use IH less(2) in \<open>auto simp: dr\<close>)
    ultimately show ?thesis by (simp add: gives_def)
  next
    case False
    then show ?thesis by (simp add: gives_def balance_loop.simps [of _ _ _ _ _ cursor] get_def)
  qed
qed

lemma gives_match_balance:
  assumes "free_search free interrupt"
  shows "gives free (match_balance interrupt subject pos opening closing) st (balanced_end subject opening closing pos)"
  unfolding match_balance_def
proof (rule gives_bind [OF gives_charge [OF assms]])
  fix st'
  show "gives free (if get subject pos \<noteq> Some opening then return_m None
      else balance_loop interrupt subject opening closing 1 (pos + 1)) st' (balanced_end subject opening closing pos)"
  proof (cases "pos < length subject")
    case True
    then have "drop pos subject = subject ! pos # drop (Suc pos) subject" by (simp add: Cons_nth_drop_Suc)
    then show ?thesis using gives_balance_loop [OF assms zero_less_one, of subject "opening" "closing" "pos + 1" st'] True
      by (simp add: balanced_end_def get_def shift_eta)
  qed (simp add: balanced_end_def get_def)
qed

lemma gives_backref_loop:
  assumes "free_search free interrupt" "start + n \<le> length subject"
  shows "gives free (backref_loop interrupt subject pos start n offset) st
    (\<forall>k. offset \<le> k \<and> k < n \<longrightarrow> pos + k < length subject \<and> subject ! (pos + k) = subject ! (start + k))"
proof (induction "n - offset" arbitrary: offset st rule: less_induct)
  case less
  have step: "(\<forall>k. offset \<le> k \<and> k < n \<longrightarrow> Q k) \<longleftrightarrow> Q offset \<and> (\<forall>k. Suc offset \<le> k \<and> k < n \<longrightarrow> Q k)" if "offset < n" for Q
    using that by (metis Suc_leI antisym_conv2 le_SucI not_less_eq_eq order.strict_implies_order order_refl)
  show ?case
  proof (cases "offset < n \<and> pos + offset < length subject")
    case True
    let ?k = "\<lambda>_ :: unit. if subject ! (start + offset) \<noteq> subject ! (pos + offset) then return_m False
      else backref_loop interrupt subject pos start n (offset + 1)"
    have "backref_loop interrupt subject pos start n offset st = bind_m (match_charge interrupt) ?k st"
      using True assms(2) by (subst backref_loop.simps) (simp add: get_def bind_m_def return_m_def split: prod.split match_result.split)
    moreover have "gives free (bind_m (match_charge interrupt) ?k) st
        (\<forall>k. offset \<le> k \<and> k < n \<longrightarrow> pos + k < length subject \<and> subject ! (pos + k) = subject ! (start + k))"
      by (rule gives_bind [OF gives_charge [OF assms(1)]])
        (use less [of "Suc offset"] True in \<open>auto simp: step diff_less_mono2\<close>)
    ultimately show ?thesis by (simp add: gives_def)
  next
    case False
    then have "backref_loop interrupt subject pos start n offset st = (Ok (\<not> offset < n), st)"
      by (subst backref_loop.simps) (auto simp: get_def)
    moreover have "(\<not> offset < n) = (\<forall>k. offset \<le> k \<and> k < n \<longrightarrow> pos + k < length subject \<and> subject ! (pos + k) = subject ! (start + k))"
      using False by auto
    ultimately show ?thesis by (simp add: gives_def)
  qed
qed

lemma same_bytes:
  assumes "start + n \<le> length subject" "pos \<le> length subject"
  shows "(\<forall>k. 0 \<le> k \<and> k < n \<longrightarrow> pos + k < length subject \<and> subject ! (pos + k) = subject ! (start + k)) \<longleftrightarrow>
    pos + n \<le> length subject \<and> take n (drop pos subject) = take n (drop start subject)" (is "?l \<longleftrightarrow> ?r")
proof
  assume l: ?l
  then have "pos + n \<le> length subject" using assms(2) by (cases n) auto
  then show ?r using l assms by (auto intro: nth_equalityI)
next
  assume r: ?r
  have "subject ! (pos + k) = subject ! (start + k)" if "k < n" for k
  proof -
    have "pos \<le> length subject" "start \<le> length subject" using assms by simp_all
    then have "take n (drop pos subject) ! k = subject ! (pos + k)" "take n (drop start subject) ! k = subject ! (start + k)"
      using that by simp_all
    then show ?thesis using r by simp
  qed
  then show ?l using r by auto
qed

end
