(* ===== verification/Pattern_Refine.thy ===== *)
theory Pattern_Refine
  imports Pattern_Spec
begin

text \<open>
  The matcher implements the specification of \<open>Pattern_Spec\<close>: item by item and loop by loop, an outcome is the
  first of the attempts, whatever an abandoned alternative has left in the slots. The contract
  that the matcher's loops need of the matching of the following items is \<open>follows\<close>.
\<close>

section \<open>The matcher finds the first way\<close>

text \<open>Captures lie before the position; slots that are still to be opened are arbitrary.\<close>

definition bounded :: "u8 list \<Rightarrow> item list \<Rightarrow> nat \<Rightarrow> capture_slots \<Rightarrow> bool" where
  "bounded subject its pos cs \<longleftrightarrow>
     pos \<le> length subject \<and>
     (\<forall>s < length cs. s \<notin> opens its \<longrightarrow>
        cap_init (cs ! s) \<le> pos \<and> (s \<notin> closes its \<longrightarrow> (\<forall>l. cap_len (cs ! s) = Len l \<longrightarrow> cap_init (cs ! s) + l \<le> pos)))"

lemma bounded_mono: "bounded subject its p cs \<Longrightarrow> p \<le> q \<Longrightarrow> q \<le> length subject \<Longrightarrow> bounded subject its q cs"
  unfolding bounded_def by (meson le_trans)

lemma bounded_neutral: "opened i = {} \<Longrightarrow> closed i = {} \<Longrightarrow> bounded subject (i # its) pos cs \<longleftrightarrow> bounded subject its pos cs"
  by (simp add: bounded_def)

lemma bounded_open:
  "bounded subject (CaptureStart s # its) pos cs \<Longrightarrow> bounded subject its pos (cs[unat s := \<lparr> cap_init = pos, cap_len = Unfinished \<rparr>])"
  "bounded subject (PositionCapture s # its) pos cs \<Longrightarrow> bounded subject its pos (cs[unat s := \<lparr> cap_init = pos, cap_len = Position \<rparr>])"
  by (auto simp: bounded_def nth_update)

lemma bounded_close:
  "bounded subject (CaptureEnd s # its) pos cs \<Longrightarrow>
     bounded subject its pos (cs[unat s := (cs ! unat s)\<lparr>cap_len := Len (pos - cap_init (cs ! unat s))\<rparr>])"
  by (auto simp: bounded_def nth_update)

text \<open>The slots of a state that may have been left by an abandoned alternative.\<close>

definition slots_fit :: "bool \<Rightarrow> item list \<Rightarrow> capture_slots \<Rightarrow> match_state \<Rightarrow> bool" where
  "slots_fit free its cs st \<longleftrightarrow>
     length cs \<le> length (m_captures st) \<and> agree its cs (take (length cs) (m_captures st)) \<and> (free \<longrightarrow> unlimited (m_meter st))"

lemma slots_fit_neutral: "opened i = {} \<Longrightarrow> closed i = {} \<Longrightarrow> slots_fit free (i # its) cs st \<longleftrightarrow> slots_fit free its cs st"
  by (simp add: slots_fit_def agree_neutral)

text \<open>
  An outcome of the matcher answers the list of attempts: its first element, or no attempt. The
  flags say whether budget and interrupts can stop it and whether the depth limit can.
\<close>

definition answers :: "bool \<Rightarrow> bool \<Rightarrow> item list \<Rightarrow> capture_slots \<Rightarrow> attempt list \<Rightarrow> nat option match_result \<times> match_state \<Rightarrow> bool" where
  "answers free deep its cs as out \<longleftrightarrow>
     slots_fit free its cs (snd out) \<and>
     (case fst out of
        Ok (Some p) \<Rightarrow> \<exists>rest. as = Hit p (take (length cs) (m_captures (snd out))) # rest
      | Ok None \<Rightarrow> as = []
      | Err (PatternErr e) \<Rightarrow> (e = MatchDepthExceeded \<and> deep) \<or> (\<exists>rest. as = Stuck e # rest)
      | Err _ \<Rightarrow> \<not> free
      | MatchPanic \<Rightarrow> False)"

lemma answers_bind:
  assumes "gives free m st v" "slots_fit free its cs st"
    and "\<And>st'. slots_fit free its cs st' \<Longrightarrow> answers free deep its cs as (f v st')"
  shows "answers free deep its cs as (bind_m m f st)"
proof -
  obtain r st' where r: "m st = (r, st')" "m_captures st' = m_captures st" "free \<longrightarrow> unlimited (m_meter st) \<longrightarrow> unlimited (m_meter st')"
    "r = Ok v \<or> r \<in> {Err MatchBudgetExceeded, Err MatchInterrupted} \<and> (free \<longrightarrow> \<not> unlimited (m_meter st))"
    using assms(1) by (auto simp: gives_def)
  have f: "slots_fit free its cs st'" using assms(2) r(2,3) by (auto simp: slots_fit_def)
  show ?thesis
  proof (cases "r = Ok v")
    case True
    then show ?thesis using r(1) assms(3) [OF f] by (simp add: bind_m_def)
  next
    case False
    then have "r \<in> {Err MatchBudgetExceeded, Err MatchInterrupted}" "\<not> free" using r(4) assms(2) by (auto simp: slots_fit_def)
    then show ?thesis using r(1) f by (auto simp: bind_m_def answers_def)
  qed
qed

lemma answers_append: "answers free deep its cs as o' \<Longrightarrow> fst o' \<noteq> Ok None \<Longrightarrow> answers free deep its cs (as @ bs) o'"
  by (auto simp: answers_def split: match_result.splits option.splits match_error.splits)

lemma answers_none: "answers free deep its cs as (Ok None, st) \<longleftrightarrow> slots_fit free its cs st \<and> as = []"
  by (simp add: answers_def)

text \<open>The contract of a continuation.\<close>

definition follows :: "bool \<Rightarrow> bool \<Rightarrow> u8 list \<Rightarrow> byte_class list \<Rightarrow> item list \<Rightarrow> capture_slots \<Rightarrow> (nat \<Rightarrow> nat option matcher) \<Rightarrow> bool" where
  "follows free deep subject cls its cs follow \<longleftrightarrow>
     (\<forall>p st. bounded subject its p cs \<longrightarrow> slots_fit free its cs st \<longrightarrow>
        answers free deep its cs (successes subject cls its p cs) (follow p st))"

lemma answers_shrink:
  assumes "follows free deep subject cls its cs follow" "bounded subject its pos cs"
  shows "pos \<le> stop \<Longrightarrow> stop \<le> length subject \<Longrightarrow> slots_fit free its cs st \<Longrightarrow>
    answers free deep its cs (concat (map (\<lambda>p. successes subject cls its p cs) (rev [pos..<Suc stop]))) (shrink_loop follow pos stop st)"
proof (induction stop arbitrary: st)
  case (Suc stop)
  let ?s = "\<lambda>p. successes subject cls its p cs"
  obtain r st' where r: "follow (Suc stop) st = (r, st')" by fastforce
  have a: "answers free deep its cs (?s (Suc stop)) (r, st')"
    using assms(1) bounded_mono [OF assms(2) Suc.prems(1,2)] Suc.prems(3) r unfolding follows_def by metis
  show ?case
  proof (cases "r = Ok None")
    case True
    then show ?thesis using a r Suc.IH [of st'] Suc.prems
      by (cases "pos = Suc stop") (simp_all add: shrink_loop.simps answers_none)
  next
    case False
    then have "shrink_loop follow pos (Suc stop) st = (r, st')"
      using r by (auto simp: shrink_loop.simps [of _ _ "Suc stop"] split: match_result.split option.split)
    then show ?thesis using answers_append [OF a] False Suc.prems(1) by simp
  qed
next
  case 0
  have "shrink_loop follow 0 0 st = follow 0 st"
    by (cases "follow 0 st") (auto simp: shrink_loop.simps split: match_result.split option.split)
  then show ?case using 0 assms unfolding follows_def by simp
qed

lemma answers_max_expand:
  assumes "follows free deep subject (p_classes P) its cs follow" "bounded subject its pos cs" "slots_fit free its cs st"
    and "free_search free interrupt" "cl < length (p_classes P)"
  shows "answers free deep its cs (concat (map (\<lambda>p. successes subject (p_classes P) its p cs)
    (rev [pos..<Suc (pos + run_length subject (p_classes P ! cl) pos)]))) (max_expand interrupt subject P follow pos cl st)"
  unfolding max_expand_def
  by (rule answers_bind [OF gives_expand_end [OF assms(4,5)] assms(3)], rule answers_shrink [OF assms(1,2)])
    (use assms(2) run_length_bound in \<open>auto simp: bounded_def\<close>)

lemma answers_min_expand:
  assumes "follows free deep subject (p_classes P) its cs follow" "free_search free interrupt" "cl < length (p_classes P)"
  shows "bounded subject its pos cs \<Longrightarrow> slots_fit free its cs st \<Longrightarrow>
    answers free deep its cs (concat (map (\<lambda>p. successes subject (p_classes P) its p cs)
      [pos..<Suc (pos + run_length subject (p_classes P ! cl) pos)])) (min_expand interrupt subject P follow pos cl st)"
proof (induction "length subject - pos" arbitrary: pos st rule: less_induct)
  case less
  let ?s = "\<lambda>p. successes subject (p_classes P) its p cs" and ?n = "run_length subject (p_classes P ! cl)"
  obtain r st' where r: "follow pos st = (r, st')" by fastforce
  have a: "answers free deep its cs (?s pos) (r, st')"
    using assms(1) less(2,3) r unfolding follows_def by metis
  have split: "[pos..<Suc (pos + ?n pos)] = pos # [Suc pos..<Suc (pos + ?n pos)]" by (simp add: upt_rec)
  show ?case
  proof (cases "r = Ok None")
    case True
    have "min_expand interrupt subject P follow pos cl st = bind_m (singlematch interrupt subject P pos cl)
        (\<lambda>hit. if hit then min_expand interrupt subject P follow (pos + 1) cl else return_m None) st'"
      using True r by (subst min_expand.simps) (auto simp: bind_m_def return_m_def split: prod.split match_result.split bool.split)
    moreover have "answers free deep its cs (concat (map ?s [Suc pos..<Suc (pos + ?n pos)])) (bind_m (singlematch interrupt subject P pos cl)
        (\<lambda>hit. if hit then min_expand interrupt subject P follow (pos + 1) cl else return_m None) st')"
      by (rule answers_bind [OF gives_singlematch [OF assms(2,3)]])
        (use a True less(1) [of "Suc pos"] less(2) bounded_mono [OF less(2), of "Suc pos"] in
          \<open>auto simp: answers_none return_m_def run_length_unfold [of _ _ pos] fits_class_def diff_less_mono2 simp del: upt_Suc\<close>)
    ultimately show ?thesis using a True unfolding split by (simp add: answers_none)
  next
    case False
    then have "min_expand interrupt subject P follow pos cl st = (r, st')"
      using r by (subst min_expand.simps) (auto split: match_result.split option.split)
    then show ?thesis using answers_append [OF a] False unfolding split by simp
  qed
qed

section \<open>One item\<close>

text \<open>The items that match what follows them in a recursive call, which the depth limit counts.\<close>

fun recursing :: "item \<Rightarrow> bool" where
  "recursing (Atom _ rep) = (rep \<noteq> One)"
| "recursing i = (opened i \<noteq> {} \<or> closed i \<noteq> {})"

definition nesting :: "item list \<Rightarrow> nat" where
  "nesting its = length (filter recursing its)"

lemma answers_neutral: "opened i = {} \<Longrightarrow> closed i = {} \<Longrightarrow> answers free deep (i # its) cs as out \<longleftrightarrow> answers free deep its cs as out"
  by (simp add: answers_def slots_fit_neutral)

lemma followsD: "follows free deep subject cls its cs follow \<Longrightarrow> bounded subject its p cs \<Longrightarrow> slots_fit free its cs st \<Longrightarrow>
    answers free deep its cs (successes subject cls its p cs) (follow p st)"
  by (simp add: follows_def)

lemma answers_scope:
  assumes "answers free deep its ds as out" "length cs = length ds" "\<And>es. agree its ds es \<Longrightarrow> agree its' cs es"
  shows "answers free deep its' cs as out"
  using assms(1,3) unfolding answers_def slots_fit_def assms(2) by blast

text \<open>A write to a slot, of the state and of the captures of the specification.\<close>

lemma answers_write:
  assumes k: "follows free deep subject cls its (cs[k := x]) recurse" and b: "bounded subject its pos (cs[k := x])"
    and fit: "slots_fit free (i # its) cs st" "k < length cs"
    and up: "agree its (cs[k := x]) ((take (length cs) (m_captures st))[k := x])"
    and down: "\<And>ds. agree its (cs[k := x]) ds \<Longrightarrow> agree (i # its) cs ds"
  shows "answers free deep (i # its) cs (successes subject cls its pos (cs[k := x])) (recurse pos (st\<lparr> m_captures := (m_captures st)[k := x] \<rparr>))"
proof -
  have "slots_fit free its (cs[k := x]) (st\<lparr> m_captures := (m_captures st)[k := x] \<rparr>)"
    using fit up by (simp add: slots_fit_def take_update_swap)
  from answers_scope [OF followsD [OF k b this] _ down] show ?thesis by simp
qed

lemma answers_captures:
  assumes rec: "\<And>ds. length ds = length cs \<Longrightarrow> follows free deep subject (p_classes P) its ds recurse"
    and b: "bounded subject (i # its) pos cs" and fit: "slots_fit free (i # its) cs st"
    and sc: "scoped (length (p_classes P)) (length cs) (i # its)" and i: "opened i \<noteq> {} \<or> closed i \<noteq> {}"
  shows "answers free deep (i # its) cs (successes subject (p_classes P) (i # its) pos cs)
    (match_item interrupt subject P recurse proceed i pos st)"
proof -
  have ag: "agree (i # its) cs (take (length cs) (m_captures st))" "length cs \<le> length (m_captures st)"
    using fit by (simp_all add: slots_fit_def)
  show ?thesis
  proof (cases i)
    case (CaptureStart s)
    then have s: "unat s < length cs" using sc by simp
    show ?thesis using answers_write [OF rec bounded_open(1) [OF b [unfolded CaptureStart]] fit s] agree_open(1) [OF ag(1) [unfolded CaptureStart]]
      agree_after_open(1) s ag(2) unfolding CaptureStart by (simp add: match_item_def)
  next
    case (PositionCapture s)
    then have s: "unat s < length cs" using sc by simp
    show ?thesis using answers_write [OF rec bounded_open(2) [OF b [unfolded PositionCapture]] fit s] agree_open(2) [OF ag(1) [unfolded PositionCapture]]
      agree_after_open(2) s ag(2) unfolding PositionCapture by (simp add: match_item_def)
  next
    case (CaptureEnd s)
    let ?c = "m_captures st ! unat s"
    have s: "unat s < length cs" "unat s \<notin> opens its" using sc CaptureEnd by simp_all
    then have eq: "cap_init (cs ! unat s) = cap_init ?c" using ag CaptureEnd by (simp add: agree_def)
    define x where "x = (cs ! unat s)\<lparr>cap_len := Len (pos - cap_init (cs ! unat s))\<rparr>"
    have x: "x = ?c\<lparr>cap_len := Len (pos - cap_init ?c)\<rparr>" unfolding x_def eq by (rule same_length_update [OF eq])
    have c: "take (length cs) (m_captures st) ! unat s = ?c" using s(1) ag(2) by simp
    have up: "agree its (cs[unat s := x]) ((take (length cs) (m_captures st))[unat s := x])"
      using agree_close [OF ag(1) [unfolded CaptureEnd], of pos] unfolding c x_def [symmetric] x [symmetric] .
    have down: "agree (i # its) cs ds" if "agree its (cs[unat s := x]) ds" for ds
      using agree_after_close [OF that [unfolded x_def]] CaptureEnd by simp
    have le: "cap_init ?c \<le> pos" unfolding eq [symmetric] using b s CaptureEnd by (simp add: bounded_def)
    have "bounded subject its pos (cs[unat s := x])" using bounded_close [OF b [unfolded CaptureEnd]] by (simp add: x_def)
    from answers_write [OF rec this fit s(1) up down] show ?thesis
      using s(1) ag(2) le unfolding CaptureEnd by (simp add: match_item_def x [symmetric]) (simp add: x_def)
  qed (use i in auto)
qed

lemma balanced_end_bound: "balanced_end subject opening closing pos = Some p \<Longrightarrow> pos \<le> p \<and> p \<le> length subject"
proof -
  have l: "balanced_length opening closing d bs = Some k \<Longrightarrow> k \<le> length bs" for d bs k
    by (induction "opening" "closing" d bs arbitrary: k rule: balanced_length.induct) (auto split: if_splits)
  assume "balanced_end subject opening closing pos = Some p"
  then show ?thesis
  proof (cases "drop pos subject")
    case (Cons b bs)
    then have "length (drop pos subject) = Suc (length bs)" by simp
    then have "length subject = pos + Suc (length bs)" by simp
    then show ?thesis using \<open>balanced_end subject opening closing pos = Some p\<close> Cons l [of 1 bs]
      by (fastforce simp: balanced_end_def split: if_splits)
  qed (simp add: balanced_end_def)
qed

lemma answers_atom:
  assumes rec: "rep \<noteq> One \<Longrightarrow> follows free deep subject (p_classes P) its cs recurse" and prc: "follows free deep subject (p_classes P) its cs proceed"
    and b: "bounded subject its pos cs" and fit: "slots_fit free its cs st"
    and cl: "cl < length (p_classes P)" and fs: "free_search free interrupt"
  shows "answers free deep its cs (concat (map (\<lambda>p. successes subject (p_classes P) its p cs)
      (choices rep pos (run_length subject (p_classes P ! cl) pos))))
    (match_item interrupt subject P recurse proceed (Atom cl rep) pos st)"
  unfolding match_item_def item.case
proof (rule answers_bind [OF gives_singlematch [OF fs cl] fit])
  fix st assume fit: "slots_fit free its cs st"
  let ?c = "p_classes P ! cl" and ?s = "\<lambda>p. successes subject (p_classes P) its p cs"
  let ?k = "\<lambda>hit. case rep of
      One \<Rightarrow> if \<not> hit then return_m None else proceed (pos + 1)
    | Optional \<Rightarrow> if hit then bind_m (recurse (pos + 1)) (\<lambda>r. case r of Some p \<Rightarrow> return_m (Some p) | None \<Rightarrow> proceed pos) else proceed pos
    | ZeroOrMoreGreedy \<Rightarrow> if \<not> hit then proceed pos else max_expand interrupt subject P recurse pos cl
    | OneOrMoreGreedy \<Rightarrow> if \<not> hit then return_m None else max_expand interrupt subject P recurse (pos + 1) cl
    | ZeroOrMoreMinimal \<Rightarrow> if \<not> hit then proceed pos else min_expand interrupt subject P recurse pos cl"
  show "answers free deep its cs (concat (map ?s (choices rep pos (run_length subject ?c pos)))) (?k (fits_class subject ?c pos) st)"
  proof (cases "fits_class subject ?c pos")
    case False
    then have "run_length subject ?c pos = 0" by (simp add: run_length_unfold [of _ _ pos])
    then show ?thesis using False followsD [OF prc b fit] fit by (cases rep) (simp_all add: return_m_def answers_none)
  next
    case True
    then have n: "run_length subject ?c pos = Suc (run_length subject ?c (Suc pos))" by (simp add: run_length_unfold [of _ _ pos])
    have b1: "bounded subject its (Suc pos) cs" using bounded_mono [OF b, of "Suc pos"] True by (simp add: fits_class_def)
    have opt: "rep \<noteq> One \<Longrightarrow> answers free deep its cs (?s (Suc pos) @ ?s pos) (bind_m (recurse (Suc pos)) (\<lambda>r. case r of Some p \<Rightarrow> return_m (Some p) | None \<Rightarrow> proceed pos) st)"
    proof -
      assume "rep \<noteq> One"
      note rec = rec [OF this]
      obtain r st' where r: "recurse (Suc pos) st = (r, st')" by fastforce
      have a: "answers free deep its cs (?s (Suc pos)) (r, st')" using followsD [OF rec b1 fit] r by simp
      show ?thesis
      proof (cases "r = Ok None")
        case True
        then show ?thesis using a r followsD [OF prc b, of st'] by (simp add: bind_m_def answers_none)
      next
        case False
        then have "bind_m (recurse (Suc pos)) (\<lambda>r. case r of Some p \<Rightarrow> return_m (Some p) | None \<Rightarrow> proceed pos) st = (r, st')"
          using r by (auto simp: bind_m_def return_m_def split: match_result.split option.split)
        then show ?thesis using answers_append [OF a] False by simp
      qed
    qed
    show ?thesis
    proof (cases rep)
      case OneOrMoreGreedy
      then show ?thesis using True n answers_max_expand [OF rec b1 fit fs cl] by simp
    qed (use True n opt followsD [OF prc b1 fit] answers_max_expand [OF rec b fit fs cl] answers_min_expand [OF rec fs cl b fit] in \<open>simp_all del: upt_Suc\<close>)
  qed
qed

lemma answers_balance:
  assumes prc: "follows free deep subject (p_classes P) its cs proceed" and b: "bounded subject its pos cs" and fit: "slots_fit free its cs st"
    and fs: "free_search free interrupt"
  shows "answers free deep its cs (case balanced_end subject x y pos of Some p \<Rightarrow> successes subject (p_classes P) its p cs | None \<Rightarrow> [])
    (match_item interrupt subject P recurse proceed (Balance x y) pos st)"
  unfolding match_item_def item.case
proof (rule answers_bind [OF gives_match_balance [OF fs] fit])
  fix st assume fit: "slots_fit free its cs st"
  show "answers free deep its cs (case balanced_end subject x y pos of Some p \<Rightarrow> successes subject (p_classes P) its p cs | None \<Rightarrow> [])
    ((case balanced_end subject x y pos of Some p \<Rightarrow> proceed p | None \<Rightarrow> return_m None) st)"
  proof (cases "balanced_end subject x y pos")
    case (Some p)
    then show ?thesis using followsD [OF prc bounded_mono [OF b] fit] balanced_end_bound [OF Some] by simp
  qed (simp add: return_m_def answers_none fit)
qed

lemma answers_backref:
  assumes prc: "follows free deep subject (p_classes P) its cs proceed" and b: "bounded subject its pos cs" and fit: "slots_fit free its cs st"
    and fs: "free_search free interrupt" and sc: "scoped (length (p_classes P)) (length cs) (Backref s # its)"
  shows "answers free deep its cs (successes subject (p_classes P) (Backref s # its) pos cs)
    (match_item interrupt subject P recurse proceed (Backref s) pos st)"
proof -
  have s: "unat s < length cs" "unat s \<notin> opens its" "unat s \<notin> closes its" using sc by auto
  then have eq: "m_captures st ! unat s = cs ! unat s" "unat s < length (m_captures st)" using fit by (auto simp: slots_fit_def agree_def)
  show ?thesis
  proof (cases "cap_len (cs ! unat s)")
    case (Len n)
    let ?c = "cs ! unat s"
    have n: "cap_init ?c + n \<le> pos" "pos \<le> length subject" using b s Len by (auto simp: bounded_def)
    then have bytes: "(\<forall>k. 0 \<le> k \<and> k < n \<longrightarrow> pos + k < length subject \<and> subject ! (pos + k) = subject ! (cap_init ?c + k)) \<longleftrightarrow>
        pos + n \<le> length subject \<and> take n (drop pos subject) = take n (drop (cap_init ?c) subject)" by (intro same_bytes) simp_all
    have "cap_init ?c + n \<le> length subject" using n by simp
    note g = gives_backref_loop [OF fs this, of pos 0, unfolded bytes]
    have "answers free deep its cs (successes subject (p_classes P) (Backref s # its) pos cs)
      (bind_m (backref_loop interrupt subject pos (cap_init ?c) n 0) (\<lambda>same. if same then proceed (pos + n) else return_m None) st)"
      by (rule answers_bind [OF g fit]) (use followsD [OF prc bounded_mono [OF b]] Len in \<open>auto simp: return_m_def answers_none\<close>)
    then show ?thesis using eq Len by (simp add: match_item_def)
  qed (use fit eq in \<open>simp_all add: match_item_def answers_def\<close>)
qed

lemma answers_match_item:
  assumes rec: "\<And>ds. recursing i \<Longrightarrow> length ds = length cs \<Longrightarrow> follows free deep subject (p_classes P) its ds recurse"
    and prc: "follows free deep subject (p_classes P) its cs proceed"
    and b: "bounded subject (i # its) pos cs" and fit: "slots_fit free (i # its) cs st"
    and sc: "scoped (length (p_classes P)) (length cs) (i # its)" and fs: "free_search free interrupt"
  shows "answers free deep (i # its) cs (successes subject (p_classes P) (i # its) pos cs)
    (match_item interrupt subject P recurse proceed i pos st)"
proof (cases "opened i = {} \<and> closed i = {}")
  case True
  then have b': "bounded subject its pos cs" and fit': "slots_fit free its cs st"
    and an: "\<And>as out. answers free deep (i # its) cs as out \<longleftrightarrow> answers free deep its cs as out"
    using b fit by (simp_all add: bounded_neutral slots_fit_neutral answers_neutral)
  have at: "(if pos = 0 then 0 else case get subject (pos - 1) of Some b \<Rightarrow> b | None \<Rightarrow> 0) = (if pos = 0 then 0 else byte_at subject (pos - 1))"
    "(case get subject pos of Some b \<Rightarrow> b | None \<Rightarrow> 0) = byte_at subject pos"
    by (simp_all add: get_def byte_at_def)
  show ?thesis unfolding an
  proof (cases i)
    case (Atom cl rep)
    then show "answers free deep its cs (successes subject (p_classes P) (i # its) pos cs) (match_item interrupt subject P recurse proceed i pos st)"
      using answers_atom [OF rec [OF _ refl] prc b' fit' _ fs, of rep] sc by simp
  next
    case (Balance x y)
    then show "answers free deep its cs (successes subject (p_classes P) (i # its) pos cs) (match_item interrupt subject P recurse proceed i pos st)"
      using answers_balance [OF prc b' fit' fs] by simp
  next
    case (Backref s)
    then show "answers free deep its cs (successes subject (p_classes P) (i # its) pos cs) (match_item interrupt subject P recurse proceed i pos st)"
      using answers_backref [OF prc b' fit' fs] sc by simp
  next
    case (Frontier cl)
    then show "answers free deep its cs (successes subject (p_classes P) (i # its) pos cs) (match_item interrupt subject P recurse proceed i pos st)"
      using followsD [OF prc b' fit'] sc fit' unfolding match_item_def Frontier item.case Let_def at
      by (simp add: at_frontier_def answers_none)
  next
    case EndAnchor
    then have "agree [] cs (take (length cs) (m_captures st))" using fit' sc by (simp add: slots_fit_def)
    then show "answers free deep its cs (successes subject (p_classes P) (i # its) pos cs) (match_item interrupt subject P recurse proceed i pos st)"
      using EndAnchor fit' by (auto simp: match_item_def return_m_def answers_def)
  qed (use True fit' in \<open>auto simp: match_item_def answers_def\<close>)
next
  case False
  then have "recursing i" by (cases i) simp_all
  from answers_captures [OF rec [OF this] b fit sc] show ?thesis using False by simp
qed

section \<open>Searches\<close>

lemma match_at_answers:
  assumes loop: "answers free deep its cs as (match_loop interrupt subject P pos item depth st)" and fit: "slots_fit free its cs st"
    and deep: "deep \<or> depth < MAXCCALLS"
  shows "answers free deep its cs as (match_at interrupt subject P pos item depth st)"
proof (cases "depth \<ge> MAXCCALLS")
  case True
  then show ?thesis using fit deep by (simp add: match_at.simps answers_def)
qed (use loop in \<open>simp add: match_at.simps\<close>)

lemma match_loop_answers:
  assumes fs: "free_search free interrupt" and sc: "scoped (length (p_classes P)) n (p_items P)"
  shows "deep \<or> depth + nesting (drop item (p_items P)) < MAXCCALLS \<Longrightarrow> length cs = n \<Longrightarrow>
    bounded subject (drop item (p_items P)) pos cs \<Longrightarrow> slots_fit free (drop item (p_items P)) cs st \<Longrightarrow>
    answers free deep (drop item (p_items P)) cs (successes subject (p_classes P) (drop item (p_items P)) pos cs)
      (match_loop interrupt subject P pos item depth st)"
proof (induction "length (p_items P) - item" arbitrary: item depth pos cs st rule: less_induct)
  case less
  show ?case
  proof (subst match_loop.simps, rule answers_bind [OF gives_charge [OF fs] less(5)])
    fix st assume fit: "slots_fit free (drop item (p_items P)) cs st"
    let ?recurse = "\<lambda>p st. match_at interrupt subject P p (item + 1) (depth + 1) st"
    let ?proceed = "\<lambda>p st. match_loop interrupt subject P p (item + 1) depth st"
    let ?its = "drop (Suc item) (p_items P)"
    show "answers free deep (drop item (p_items P)) cs (successes subject (p_classes P) (drop item (p_items P)) pos cs)
      (if item < length (p_items P) then match_item interrupt subject P ?recurse ?proceed (p_items P ! item) pos st else (Ok (Some pos), st))"
    proof (cases "item < length (p_items P)")
      case True
      then have dr: "drop item (p_items P) = p_items P ! item # ?its" by (simp add: Cons_nth_drop_Suc)
      have lt: "length (p_items P) - Suc item < length (p_items P) - item" using True by simp
      have "follows free deep subject (p_classes P) ?its ds ?recurse" if "recursing (p_items P ! item)" "length ds = length cs" for ds
        unfolding follows_def
      proof (intro allI impI)
        fix p st assume "bounded subject ?its p ds" and f: "slots_fit free ?its ds st"
        moreover have d: "deep \<or> (depth + 1) + nesting ?its < MAXCCALLS" using less(2) that(1) by (simp add: dr nesting_def)
        ultimately have "answers free deep ?its ds (successes subject (p_classes P) ?its p ds) (match_loop interrupt subject P p (item + 1) (depth + 1) st)"
          using less(1) [of "Suc item" "depth + 1" ds p st] lt less(3) that(2) by simp
        moreover have "deep \<or> depth + 1 < MAXCCALLS" using d by auto
        ultimately show "answers free deep ?its ds (successes subject (p_classes P) ?its p ds) (?recurse p st)"
          using f by (intro match_at_answers)
      qed
      moreover have "follows free deep subject (p_classes P) ?its cs ?proceed"
        unfolding follows_def using less(1) [of "Suc item" depth cs] less(2,3) lt by (auto simp: dr nesting_def split: if_splits)
      moreover have "scoped (length (p_classes P)) (length cs) (drop item (p_items P))" using scoped_drop [OF sc] less(3) by simp
      ultimately show ?thesis using answers_match_item [OF _ _ _ _ _ fs, of "p_items P ! item" cs deep subject P ?its ?recurse ?proceed pos st]
          less(4) fit True unfolding dr by simp
    next
      case False
      then show ?thesis using fit by (simp add: answers_def slots_fit_def)
    qed
  qed
qed

text \<open>The whole program at one start position: the slots it starts with are arbitrary.\<close>

lemma start_answers:
  assumes fs: "free_search free interrupt" and P: "program_ok P" and deep: "deep \<or> nesting (p_items P) < MAXCCALLS"
    and pos: "pos \<le> length subject" and st: "p_captures P \<le> length (m_captures st)" "free \<longrightarrow> unlimited (m_meter st)" and cs: "length cs = p_captures P"
  shows "answers free deep (p_items P) cs (successes subject (p_classes P) (p_items P) pos cs) (match_at interrupt subject P pos 0 0 st)"
proof -
  have "bounded subject (p_items P) pos cs" "slots_fit free (p_items P) cs st"
    using P pos st cs by (auto simp: bounded_def slots_fit_def agree_def program_ok_def)
  then show ?thesis
    using match_loop_answers [OF fs, of P "p_captures P" deep 0 0 cs subject pos st] P deep cs
    by (intro match_at_answers) (auto simp: program_ok_def MAXCCALLS_def)
qed

text \<open>What a search is to find: the first attempt at the first start that has one.\<close>

definition no_captures :: "compiled_pattern \<Rightarrow> capture_slots" where
  "no_captures P = replicate (p_captures P) \<lparr> cap_init = 0, cap_len = Len 0 \<rparr>"

definition attempts_at :: "u8 list \<Rightarrow> compiled_pattern \<Rightarrow> nat \<Rightarrow> (nat \<times> attempt) list" where
  "attempts_at subject P pos = map (Pair pos) (successes subject (p_classes P) (p_items P) pos (no_captures P))"

definition starts :: "u8 list \<Rightarrow> compiled_pattern \<Rightarrow> nat \<Rightarrow> nat list" where
  "starts subject P start = (if p_anchored P then [start] else [start..<Suc (length subject)])"

definition all_attempts :: "u8 list \<Rightarrow> compiled_pattern \<Rightarrow> nat \<Rightarrow> (nat \<times> attempt) list" where
  "all_attempts subject P start = concat (map (attempts_at subject P) (starts subject P start))"

definition found :: "bool \<Rightarrow> bool \<Rightarrow> compiled_pattern \<Rightarrow> (nat \<times> attempt) list \<Rightarrow> (nat \<times> nat) option match_result \<times> match_state \<Rightarrow> bool" where
  "found free deep P as out \<longleftrightarrow>
     p_captures P \<le> length (m_captures (snd out)) \<and> (free \<longrightarrow> unlimited (m_meter (snd out))) \<and>
     (case fst out of
        Ok (Some (start, stop)) \<Rightarrow> \<exists>rest. as = (start, Hit stop (take (p_captures P) (m_captures (snd out)))) # rest
      | Ok None \<Rightarrow> as = []
      | Err (PatternErr e) \<Rightarrow> (e = MatchDepthExceeded \<and> deep) \<or> (\<exists>start rest. as = (start, Stuck e) # rest)
      | Err _ \<Rightarrow> \<not> free
      | MatchPanic \<Rightarrow> False)"

lemma search_loop_found:
  assumes fs: "free_search free interrupt" and P: "program_ok P" and deep: "deep \<or> nesting (p_items P) < MAXCCALLS"
  shows "pos \<le> length subject \<Longrightarrow> p_captures P \<le> length (m_captures st) \<Longrightarrow> free \<longrightarrow> unlimited (m_meter st) \<Longrightarrow>
    found free deep P (all_attempts subject P pos) (search_loop interrupt subject P pos st)"
proof (induction "length subject - pos" arbitrary: pos st rule: less_induct)
  case less
  obtain r st' where r: "match_at interrupt subject P pos 0 0 st = (r, st')" by fastforce
  have a: "answers free deep (p_items P) (no_captures P) (successes subject (p_classes P) (p_items P) pos (no_captures P)) (r, st')"
    using start_answers [OF fs P deep less(2-4), of "no_captures P"] r by (simp add: no_captures_def)
  have fit: "p_captures P \<le> length (m_captures st')" "free \<longrightarrow> unlimited (m_meter st')" using a by (simp_all add: answers_def slots_fit_def no_captures_def)
  have later: "all_attempts subject P pos = attempts_at subject P pos @ (if p_anchored P \<or> pos = length subject then [] else all_attempts subject P (Suc pos))"
    using less(2) by (simp add: all_attempts_def starts_def upt_rec [of pos])
  show ?case
  proof (cases "r = Ok None")
    case True
    then have "attempts_at subject P pos = []" using a by (simp add: answers_none attempts_at_def)
    then have none: "all_attempts subject P pos = (if p_anchored P \<or> pos = length subject then [] else all_attempts subject P (Suc pos))"
      using later by simp
    show ?thesis
    proof (cases "p_anchored P \<or> pos = length subject")
      case True
      then show ?thesis using \<open>r = Ok None\<close> r fit none by (subst search_loop.simps) (simp add: found_def)
    next
      case False
      then have "found free deep P (all_attempts subject P (Suc pos)) (search_loop interrupt subject P (Suc pos) st')"
        using less(1) [of "Suc pos" st'] less(2) fit by (simp add: diff_less_mono2)
      then show ?thesis using False \<open>r = Ok None\<close> r none less(2) by (subst search_loop.simps) simp
    qed
  next
    case False
    then show ?thesis using a r fit unfolding later
      by (subst search_loop.simps) (auto simp: found_def answers_def attempts_at_def no_captures_def split: match_result.splits option.splits match_error.splits)
  qed
qed

end
