(* ===== verification/Patterns.thy ===== *)
theory Patterns
  imports Pattern_Refine
begin

text \<open>
  The pattern interface of the string library (\<open>patterns/mod.rs\<close>): a compiled pattern with the captures of
  its latest match, and the tests for patterns without magic bytes. The theorems about searches.
\<close>

record lua_pattern =
  lp_compiled :: compiled_pattern
  lp_slots :: capture_slots
  lp_whole :: "nat \<times> nat"
  lp_n_match :: nat

definition from_compiled :: "compiled_pattern \<Rightarrow> lua_pattern" where
  "from_compiled P = \<lparr> lp_compiled = P, lp_slots = capture_slots_new, lp_whole = (0, 0), lp_n_match = 0 \<rparr>"

definition matches_bytes_from ::
  "(nat \<Rightarrow> bool) \<Rightarrow> u8 list \<Rightarrow> nat \<Rightarrow> cost_meter \<Rightarrow> lua_pattern \<Rightarrow> bool match_result \<times> lua_pattern \<times> cost_meter" where
  "matches_bytes_from interrupt s start m lp =
     (case str_match interrupt s (lp_compiled lp) start (lp_slots lp) m of
        (r, slots, m') \<Rightarrow>
          (let lp1 = lp\<lparr> lp_n_match := 0, lp_slots := slots \<rparr>
           in case r of
                Ok (Some whole) \<Rightarrow> (Ok True, lp1\<lparr> lp_whole := whole, lp_n_match := p_captures (lp_compiled lp) + 1 \<rparr>, m')
              | Ok None \<Rightarrow> (Ok False, lp1, m')
              | Err e \<Rightarrow> (Err e, lp1, m')
              | MatchPanic \<Rightarrow> (MatchPanic, lp1, m')))"

definition match_range :: "lua_pattern \<Rightarrow> (nat \<times> nat) option" where
  "match_range lp = (if lp_n_match lp > 0 then Some (lp_whole lp) else None)"

definition match_capture :: "lua_pattern \<Rightarrow> nat \<Rightarrow> lua_capture option" where
  "match_capture lp i =
     (if i < lp_n_match lp
      then (case i of 0 \<Rightarrow> Some (CapBytes (fst (lp_whole lp)) (snd (lp_whole lp))) | Suc k \<Rightarrow> get_slot (lp_slots lp) k)
      else None)"

definition num_matches :: "lua_pattern \<Rightarrow> nat" where
  "num_matches lp = lp_n_match lp"

definition is_plain :: "u8 list \<Rightarrow> bool" where
  "is_plain p \<longleftrightarrow> \<not> (\<exists>b \<in> set p. is_pattern_magic b)"

definition is_plain_for_find :: "u8 list \<Rightarrow> bool" where
  "is_plain_for_find p \<longleftrightarrow> \<not> (\<exists>b \<in> set p. is_pattern_magic b \<and> b \<noteq> byte CHR '')'')"

section \<open>Searches of compiled patterns\<close>

lemma str_match_found:
  assumes P: "program_ok P" and start: "start \<le> length subject" and slots: "length slots = LUA_MAXCAPTURES"
    and free: "free_search free interrupt" "free \<longrightarrow> unlimited m" and deep: "deep \<or> nesting (p_items P) < MAXCCALLS"
    and r: "str_match interrupt subject P start slots m = (r, slots', m')"
  shows "case r of
      Ok (Some (i, j)) \<Rightarrow> drop (p_captures P) slots' = drop (p_captures P) slots \<and> length slots' = LUA_MAXCAPTURES \<and>
        (\<exists>rest. all_attempts subject P start = (i, Hit j (take (p_captures P) slots')) # rest)
    | Ok None \<Rightarrow> slots' = slots \<and> all_attempts subject P start = []
    | Err (PatternErr e) \<Rightarrow> slots' = slots \<and> ((e = MatchDepthExceeded \<and> deep) \<or> (\<exists>i rest. all_attempts subject P start = (i, Stuck e) # rest))
    | Err _ \<Rightarrow> slots' = slots \<and> \<not> free
    | MatchPanic \<Rightarrow> False"
proof (cases "p_items P = []")
  case True
  then have "p_captures P = 0" using P by (auto simp: program_ok_def)
  moreover have "all_attempts subject P start = (start, Hit start []) # tl (all_attempts subject P start)"
    using True start \<open>p_captures P = 0\<close> by (simp add: all_attempts_def starts_def attempts_at_def no_captures_def upt_rec [of start])
  ultimately show ?thesis using r True slots by (auto simp: str_match_def)
next
  case False
  let ?st = "\<lparr> m_captures = capture_slots_new, m_meter = m, m_polls = 0 \<rparr>"
  have n: "p_captures P \<le> LUA_MAXCAPTURES" using P by (simp add: program_ok_def)
  obtain r1 st where s: "search_loop interrupt subject P start ?st = (r1, st)" by fastforce
  then have f: "found free deep P (all_attempts subject P start) (r1, st)"
    using search_loop_found [OF free(1) P deep start, of ?st] n free(2) by (simp add: capture_slots_new_def)
  show ?thesis using f r False s n slots
    by (auto simp: found_def str_match_def Let_def min_def split: match_result.splits option.splits match_error.splits)
qed

text \<open>
  C12 (patterns/luapat.rs, compile and str_match): a search with a compiled pattern never panics. It returns
  the first match, in Lua's order of preference, at the leftmost start that has one, with the
  captures of that match, and publishes no capture otherwise; or the error of the malformed item
  that a match reaches first. It stops early only for the recursion limit, in a pattern that nests
  deeper than the limit, and for a budget or an interrupt.
\<close>

theorem search_first_match:
  assumes "compile_pattern p mode = Some P" "start \<le> length subject" "length slots = LUA_MAXCAPTURES"
  shows "case str_match interrupt subject P start slots m of
      (Ok (Some (i, j)), slots', _) \<Rightarrow> \<exists>rest. all_attempts subject P start = (i, Hit j (take (p_captures P) slots')) # rest
    | (Ok None, slots', _) \<Rightarrow> all_attempts subject P start = [] \<and> slots' = slots
    | (Err (PatternErr e), slots', _) \<Rightarrow> slots' = slots \<and>
        ((e = MatchDepthExceeded \<and> MAXCCALLS \<le> nesting (p_items P)) \<or> (\<exists>i rest. all_attempts subject P start = (i, Stuck e) # rest))
    | (Err _, slots', _) \<Rightarrow> slots' = slots \<and> ((\<exists>k. interrupt k) \<or> \<not> unlimited m)
    | (MatchPanic, _, _) \<Rightarrow> False"
proof -
  obtain r slots' m' where r: "str_match interrupt subject P start slots m = (r, slots', m')" using prod_cases3 by blast
  have P: "program_ok P" using compile_pattern_ok [of p mode] assms(1) by auto
  let ?free = "(\<forall>k. \<not> interrupt k) \<and> unlimited m"
  have "free_search ?free interrupt" "?free \<longrightarrow> unlimited m" "MAXCCALLS \<le> nesting (p_items P) \<or> nesting (p_items P) < MAXCCALLS"
    by (auto simp: free_search_def)
  from str_match_found [OF P assms(2,3) this r] show ?thesis
    unfolding r by (auto split: match_result.splits option.splits match_error.splits)
qed

section \<open>Captures lie in the match\<close>

text \<open>Slots that are not to be opened any more start at or after \<open>lo\<close>.\<close>

definition above :: "nat \<Rightarrow> item list \<Rightarrow> capture_slots \<Rightarrow> bool" where
  "above lo its cs \<longleftrightarrow> (\<forall>s < length cs. s \<notin> opens its \<longrightarrow> lo \<le> cap_init (cs ! s))"

lemma above_open:
  "above lo (CaptureStart s # its) cs \<Longrightarrow> lo \<le> cap_init x \<Longrightarrow> above lo its (cs[unat s := x])"
  "above lo (PositionCapture s # its) cs \<Longrightarrow> lo \<le> cap_init x \<Longrightarrow> above lo its (cs[unat s := x])"
  "above lo (CaptureEnd s # its) cs \<Longrightarrow> above lo its (cs[unat s := (cs ! unat s)\<lparr>cap_len := l\<rparr>])"
  by (auto simp: above_def nth_update)

lemma above_neutral: "opened i = {} \<Longrightarrow> above lo (i # its) cs \<longleftrightarrow> above lo its cs"
  by (simp add: above_def)

lemma choices_bounds:
  assumes "q \<in> set (choices rep pos n)"
  shows "pos \<le> q" "q \<le> pos + n"
  using assms by (cases rep; force split: if_splits)+

lemma successes_within:
  assumes "Hit p ds \<in> set (successes subject cls its pos cs)" "bounded subject its pos cs" "above lo its cs" "lo \<le> pos"
    "scoped m (length cs) its"
  shows "pos \<le> p \<and> length ds = length cs \<and> bounded subject [] p ds \<and> above lo [] ds"
  using assms
proof (induction its arbitrary: pos cs)
  case (Cons i its)
  note IH = Cons.IH
  show ?case
  proof (cases "opened i = {} \<and> closed i = {}")
    case True
    then have b: "bounded subject its pos cs" and a: "above lo its cs" using Cons.prems(2,3) by (simp_all add: bounded_neutral above_neutral)
    have next_pos: ?thesis if "Hit p ds \<in> set (successes subject cls its q cs)" "pos \<le> q" "q \<le> length subject" for q
      using IH [OF that(1) bounded_mono [OF b that(2,3)] a] Cons.prems(4,5) that(2) by simp
    have len: "pos \<le> length subject" using b by (simp add: bounded_def)
    show ?thesis
    proof (cases i)
      case (Atom cl rep)
      then obtain q where q: "q \<in> set (choices rep pos (run_length subject (cls ! cl) pos))" "Hit p ds \<in> set (successes subject cls its q cs)"
        using Cons.prems(1) by auto
      then show ?thesis using choices_bounds [OF q(1)] run_length_bound [OF len, of "cls ! cl"] by (intro next_pos [OF q(2)]) simp_all
    next
      case (Balance x y)
      then show ?thesis using Cons.prems(1) balanced_end_bound [of subject x y pos] next_pos by (auto split: option.splits)
    next
      case (Backref s)
      then show ?thesis using Cons.prems(1) next_pos by (auto split: cap_len.splits if_splits)
    next
      case EndAnchor
      then show ?thesis using Cons.prems b a by (auto split: if_splits)
    qed (use True Cons.prems(1) next_pos [of pos] len in \<open>auto split: if_splits\<close>)
  next
    case False
    have step: ?thesis if "Hit p ds \<in> set (successes subject cls its pos (cs[k := x]))" "bounded subject its pos (cs[k := x])" "above lo its (cs[k := x])" for k x
      using IH [OF that] Cons.prems(4,5) by simp
    show ?thesis
    proof (cases i)
      case (CaptureStart s)
      then show ?thesis using Cons.prems step bounded_open(1) above_open(1) by simp
    next
      case (PositionCapture s)
      then show ?thesis using Cons.prems step bounded_open(2) above_open(2) by simp
    next
      case (CaptureEnd s)
      then show ?thesis using Cons.prems step bounded_close above_open(3) by simp
    qed (use False in auto)
  qed
qed (use assms in simp)

lemma first_attempt:
  assumes "all_attempts subject P start = (i, Hit j cs) # rest" "program_ok P" "start \<le> length subject"
  shows "start \<le> i" "i \<le> j" "length cs = p_captures P" "bounded subject [] j cs" "above i [] cs"
proof -
  have "(i, Hit j cs) \<in> set (all_attempts subject P start)" using assms(1) by simp
  then have i: "start \<le> i" "i \<le> length subject" and h: "Hit j cs \<in> set (successes subject (p_classes P) (p_items P) i (no_captures P))"
    using assms(3) by (auto simp: all_attempts_def attempts_at_def starts_def split: if_splits)
  have "bounded subject (p_items P) i (no_captures P)" "above i (p_items P) (no_captures P)" "scoped (length (p_classes P)) (length (no_captures P)) (p_items P)"
    using assms(2) i(2) by (auto simp: bounded_def above_def no_captures_def program_ok_def)
  from successes_within [OF h this(1,2) order_refl this(3)] i(1)
  show "start \<le> i" "i \<le> j" "length cs = p_captures P" "bounded subject [] j cs" "above i [] cs" by (simp_all add: no_captures_def)
qed

text \<open>A capture lies between two positions.\<close>

fun capture_within :: "nat \<Rightarrow> nat \<Rightarrow> lua_capture \<Rightarrow> bool" where
  "capture_within lo hi (CapBytes a b) \<longleftrightarrow> lo \<le> a \<and> a \<le> b \<and> b \<le> hi"
| "capture_within lo hi (CapPosition a) \<longleftrightarrow> lo \<le> a \<and> a \<le> hi"
| "capture_within lo hi CapUnfinished \<longleftrightarrow> True"

text \<open>
  C13 (patterns/mod.rs, matches_bytes_from, range, capture): after a successful search the range of the match and
  every capture can be read, and they lie inside the subject, at or after the start, the captures inside
  the match; after any other search nothing can be read.
\<close>

theorem captures_inside_match:
  assumes "compile_pattern p mode = Some P" "lp_compiled lp = P" "length (lp_slots lp) = LUA_MAXCAPTURES" "start \<le> length s"
    and "matches_bytes_from interrupt s start m lp = (r, lp', m')"
  shows "if r = Ok True
    then \<exists>i j. match_range lp' = Some (i, j) \<and> start \<le> i \<and> i \<le> j \<and> j \<le> length s \<and> num_matches lp' = p_captures P + 1
      \<and> (\<forall>k < num_matches lp'. \<exists>c. match_capture lp' k = Some c \<and> capture_within i j c)
    else match_range lp' = None \<and> num_matches lp' = 0"
proof -
  obtain q slots' m1 where q: "str_match interrupt s P start (lp_slots lp) m = (q, slots', m1)" using prod_cases3 by blast
  have P: "program_ok P" using compile_pattern_ok [of p mode] assms(1) by auto
  have n: "p_captures P \<le> LUA_MAXCAPTURES" using P by (simp add: program_ok_def)
  show ?thesis
  proof (cases "\<exists>i j. q = Ok (Some (i, j))")
    case True
    then obtain i j where ij: "q = Ok (Some (i, j))" by blast
    obtain rest where rest: "all_attempts s P start = (i, Hit j (take (p_captures P) slots')) # rest" and l: "length slots' = LUA_MAXCAPTURES"
      using str_match_found [OF P assms(4,3), of False interrupt m True q slots' m1] q ij by (auto simp: free_search_def)
    note f = first_attempt [OF rest P assms(4)]
    have "\<exists>c. get_slot slots' k = Some c \<and> capture_within i j c" if "k < p_captures P" for k
    proof -
      have "i \<le> cap_init (slots' ! k)" "cap_init (slots' ! k) \<le> j" "\<forall>l. cap_len (slots' ! k) = Len l \<longrightarrow> cap_init (slots' ! k) + l \<le> j"
        using f(3-5) that by (auto simp: bounded_def above_def)
      then show ?thesis using that n l by (auto simp: get_slot_def split: cap_len.split)
    qed
    moreover have "j \<le> length s" using f(4) by (simp add: bounded_def)
    ultimately show ?thesis using assms(2,5) q ij f(1,2)
      by (auto simp: matches_bytes_from_def match_range_def num_matches_def match_capture_def Let_def less_Suc_eq_0_disj split: nat.split)
  next
    case False
    then show ?thesis using assms(2,5) q
      by (auto simp: matches_bytes_from_def match_range_def num_matches_def Let_def split: match_result.splits option.splits)
  qed
qed

section \<open>Patterns without magic bytes\<close>

definition literal_of :: "byte_class list \<Rightarrow> item \<Rightarrow> u8 \<Rightarrow> bool" where
  "literal_of cls i b \<longleftrightarrow> (\<exists>cl. i = Atom cl One \<and> cl < length cls \<and> cls ! cl = bc_insert b bc_empty)"

lemma literal_mono: "literal_of cls i b \<Longrightarrow> literal_of (cls @ ds) i b"
  by (auto simp: literal_of_def nth_append)

lemma intern_classes: "intern_class cl c = (i, c') \<Longrightarrow> c_classes c' = c_classes c @ (if c_class_ids c cl = None then [cl] else [])"
  by (auto simp: intern_class_def Let_def split: option.splits)

lemma not_magic: "\<not> is_pattern_magic b \<Longrightarrow> b \<notin> set (map byte ''^$*+?.([%-)'')"
  by (simp only: is_pattern_magic_def PATTERN_MAGIC_BYTES_def not_False_eq_True)

lemma compile_plain_item:
  assumes c: "open_ended c" and pos: "c_pos c < length p" and plain: "is_plain p"
  shows "\<exists>i c' ds. compile_item p c = Some (Inr (), c') \<and> open_ended c' \<and> c_pos c' = Suc (c_pos c) \<and> c_captures c' = c_captures c
    \<and> c_items c' = c_items c @ [i] \<and> c_classes c' = c_classes c @ ds \<and> literal_of (c_classes c') i (p ! c_pos c)"
proof -
  let ?b = "p ! c_pos c" and ?c = "c\<lparr> c_pos := c_pos c + 1 \<rparr>"
  have magic: "\<not> is_pattern_magic (p ! k)" if "k < length p" for k using plain that by (auto simp: is_plain_def)
  obtain cl c1 where i: "intern_class (bc_insert ?b bc_empty) ?c = (cl, c1)" by fastforce
  have c1: "open_ended c1" "cl < length (c_classes c1)" "c_classes c1 ! cl = bc_insert ?b bc_empty"
    using intern_inv [OF _ _ i] c by simp_all
  obtain ds where ds: "c_classes c1 = c_classes c @ ds" using intern_classes [OF i] by simp
  have "get p (c_pos c1) = None \<or> (\<exists>b. get p (c_pos c1) = Some b \<and> \<not> is_pattern_magic b)" using magic by (auto simp: get_def)
  then have atom: "push_atom p cl c1 = push_item (Atom cl One) c1"
    by (auto simp: push_atom_def Let_def dest!: not_magic)
  have "compile_item p c = (case literal_class ?b ?c of (cl, c2) \<Rightarrow> Some (Inr (), push_atom p cl c2))"
    using not_magic [OF magic [OF pos]] by (simp add: compile_item_def L_ESC_def)
  then have "compile_item p c = Some (Inr (), push_item (Atom cl One) c1)" using i atom by (simp add: literal_class_def)
  then show ?thesis using c1 ds intern_fields [OF i] push_atom_inv [OF c1(1,2), of p] atom by (auto simp: literal_of_def)
qed

lemma compile_plain:
  "open_ended c \<Longrightarrow> is_plain p \<Longrightarrow> c_pos c \<le> length p \<Longrightarrow> list_all2 (literal_of (c_classes c)) (c_items c) (take (c_pos c) p) \<Longrightarrow>
   \<exists>c'. compile_items p c = Some (Inr (), c') \<and> list_all2 (literal_of (c_classes c')) (c_items c') p \<and> c_captures c' = c_captures c"
proof (induction p c rule: compile_items.induct)
  case (1 p c)
  show ?case
  proof (cases "c_pos c < length p")
    case True
    obtain i c' ds where c': "compile_item p c = Some (Inr (), c')" "open_ended c'" "c_pos c' = Suc (c_pos c)" "c_captures c' = c_captures c"
      "c_items c' = c_items c @ [i]" "c_classes c' = c_classes c @ ds" "literal_of (c_classes c') i (p ! c_pos c)"
      using compile_plain_item [OF 1(2) True 1(3)] by blast
    have "list_all2 (literal_of (c_classes c')) (c_items c) (take (c_pos c) p)"
      using 1(5) literal_mono unfolding c'(6) by (rule list_all2_mono)
    then have "list_all2 (literal_of (c_classes c')) (c_items c') (take (c_pos c') p)"
      using c'(3,5,7) True by (simp add: take_Suc_conv_app_nth list_all2_appendI)
    then show ?thesis using 1(1) [OF True c'(1)] 1(3) c' True by (subst compile_items.simps) auto
  next
    case False
    then show ?thesis using 1(4,5) by (subst compile_items.simps) simp
  qed
qed

lemma successes_literal:
  assumes "list_all2 (literal_of cls) its bs"
  shows "pos \<le> length subject \<Longrightarrow> successes subject cls its pos cs = (if take (length bs) (drop pos subject) = bs then [Hit (pos + length bs) cs] else [])"
  using assms
proof (induction arbitrary: pos rule: list_all2_induct)
  case (Cons i its b bs)
  obtain cl where cl: "i = Atom cl One" "cls ! cl = bc_insert b bc_empty" using Cons(1) by (auto simp: literal_of_def)
  show ?case
  proof (cases "pos < length subject")
    case True
    then have "drop pos subject = subject ! pos # drop (Suc pos) subject" by (simp add: Cons_nth_drop_Suc)
    then show ?thesis using True Cons.IH [of "Suc pos"] cl by (auto simp: run_length_unfold [of _ _ pos] fits_class_def)
  next
    case False
    then show ?thesis using cl by (simp add: run_length_unfold [of _ _ pos] fits_class_def)
  qed
qed simp

definition first_occurrence :: "u8 list \<Rightarrow> u8 list \<Rightarrow> nat \<Rightarrow> (nat \<times> nat) option" where
  "first_occurrence subject p start =
     map_option (\<lambda>i. (i, i + length p))
       (find (\<lambda>i. take (length p) (drop i subject) = p) [start..<Suc (length subject)])"

lemma concat_filter: "concat (map (\<lambda>x. if Q x then [f x] else []) xs) = map f (filter Q xs)"
  by (induction xs) simp_all

lemma find_filter: "find Q xs = (case filter Q xs of [] \<Rightarrow> None | x # _ \<Rightarrow> Some x)"
  by (induction xs) simp_all

lemma compile_plain_program:
  assumes "is_plain p"
  shows "\<exists>P. compile_pattern p Honour = Some P \<and> list_all2 (literal_of (p_classes P)) (p_items P) p \<and> p_captures P = 0 \<and> \<not> p_anchored P"
proof -
  have "get p 0 \<noteq> Some (byte CHR ''^'')"
    using assms not_magic [of "p ! 0"] by (auto simp: is_plain_def get_def)
  moreover obtain c where "compile_items p compiler_new = Some (Inr (), c)" "list_all2 (literal_of (c_classes c)) (c_items c) p" "c_captures c = 0"
    using compile_plain [OF new_open_ended assms] by (auto simp: compiler_new_def)
  ultimately show ?thesis by (simp add: compile_pattern_def)
qed

text \<open>
  C14 (patterns/mod.rs, is_plain; patterns/luapat.rs, str_match): for a pattern without magic bytes the
  search is the search for its first occurrence as a substring, so the string library may use a
  plain substring search for it.
\<close>

theorem plain_search_is_substring_search:
  assumes "is_plain p" "start \<le> length subject" "\<forall>k. \<not> interrupt k" "unlimited m" "length slots = LUA_MAXCAPTURES"
  shows "\<exists>P m'. compile_pattern p Honour = Some P
    \<and> str_match interrupt subject P start slots m = (Ok (first_occurrence subject p start), slots, m')"
proof -
  obtain P where P: "compile_pattern p Honour = Some P" "list_all2 (literal_of (p_classes P)) (p_items P) p" "p_captures P = 0" "\<not> p_anchored P"
    using compile_plain_program [OF assms(1)] by blast
  have ok: "program_ok P" using compile_pattern_ok [of p Honour] P(1) by auto
  have "\<not> recursing i" if "i \<in> set (p_items P)" for i
    using P(2) that by (auto simp: in_set_conv_nth list_all2_conv_all_nth literal_of_def)
  then have deep: "False \<or> nesting (p_items P) < MAXCCALLS" by (simp add: nesting_def MAXCCALLS_def)
  obtain r slots' m' where r: "str_match interrupt subject P start slots m = (r, slots', m')" using prod_cases3 by blast
  let ?at = "\<lambda>i. take (length p) (drop i subject) = p"
  have eq: "map (attempts_at subject P) [start..<Suc (length subject)] = map (\<lambda>i. if ?at i then [(i, Hit (i + length p) [])] else []) [start..<Suc (length subject)]"
    using successes_literal [OF P(2), of _ subject "no_captures P"] P(3) by (auto simp: attempts_at_def no_captures_def)
  have all: "all_attempts subject P start = map (\<lambda>i. (i, Hit (i + length p) [])) (filter ?at [start..<Suc (length subject)])"
    unfolding all_attempts_def starts_def if_not_P [OF P(4)] eq concat_filter ..
  have "slots' = slots \<and> r = Ok (first_occurrence subject p start)"
    using str_match_found [OF ok assms(2,5) _ _ deep r, of True] assms(3,4) P(3)
    unfolding first_occurrence_def find_filter
    by (auto simp: all free_search_def simp del: upt_Suc split: match_result.splits option.splits match_error.splits list.splits)
  then show ?thesis using P(1) r by blast
qed

section \<open>Concrete searches\<close>

definition sample_program :: compiled_pattern where
  "sample_program = \<lparr> p_items = [CaptureStart 0, Atom 0 OneOrMoreGreedy, CaptureEnd 0],
     p_classes = [bc_insert (byte CHR ''a'') bc_empty], p_anchored = False, p_captures = 1 \<rparr>"

lemma sample_compiled: "compile_pattern (map byte ''(a+)'') Honour = Some sample_program"
  by code_simp

lemma sample_search:
  "fst (str_match (\<lambda>_. False) (map byte ''xaab'') sample_program 0 capture_slots_new MeterOff) = Ok (Some (1, 3))"
  by code_simp

theorem search_first_match_witness: "\<exists>cs rest. all_attempts (map byte ''xaab'') sample_program 0 = (1, Hit 3 cs) # rest"
  using search_first_match [OF sample_compiled, of 0 "map byte ''xaab''" capture_slots_new "\<lambda>_. False" MeterOff] sample_search
  by (auto simp: capture_slots_new_def split: prod.splits)

theorem captures_inside_match_witness:
  "\<exists>lp m. matches_bytes_from (\<lambda>_. False) (map byte ''xaab'') 0 MeterOff (from_compiled sample_program) = (Ok True, lp, m)
     \<and> (\<exists>c. match_capture lp 1 = Some c \<and> capture_within 1 3 c)"
proof -
  obtain r lp m where r: "matches_bytes_from (\<lambda>_. False) (map byte ''xaab'') 0 MeterOff (from_compiled sample_program) = (r, lp, m)"
    using prod_cases3 by blast
  have "r = Ok True \<and> match_range lp = Some (1, 3)"
  proof -
    have "(case matches_bytes_from (\<lambda>_. False) (map byte ''xaab'') 0 MeterOff (from_compiled sample_program) of
        (r, lp, _) \<Rightarrow> r = Ok True \<and> match_range lp = Some (1, 3))" by code_simp
    then show ?thesis unfolding r by simp
  qed
  moreover have "lp_compiled (from_compiled sample_program) = sample_program"
    "length (lp_slots (from_compiled sample_program)) = LUA_MAXCAPTURES" "0 \<le> length (map byte ''xaab'')"
    by (simp_all add: from_compiled_def capture_slots_new_def)
  ultimately show ?thesis using captures_inside_match [OF sample_compiled _ _ _ r] unfolding r by (auto simp: sample_program_def)
qed

theorem plain_search_is_substring_search_witness:
  "\<exists>P m. compile_pattern (map byte ''ab'') Honour = Some P
     \<and> str_match (\<lambda>_. False) (map byte ''xab'') P 0 capture_slots_new (CountOnly 0 1) = (Ok (Some (1, 3)), capture_slots_new, m)"
proof -
  have "is_plain (map byte ''ab'')" by code_simp
  moreover have "first_occurrence (map byte ''xab'') (map byte ''ab'') 0 = Some (1, 3)"
    by (simp add: first_occurrence_def upt_rec)
  ultimately show ?thesis
    using plain_search_is_substring_search [of "map byte ''ab''" 0 "map byte ''xab''" "\<lambda>_. False" "CountOnly 0 1" capture_slots_new]
    by (simp add: capture_slots_new_def)
qed

end
