(* ===== verification/Numeral.thy ===== *)
theory Numeral
  imports Byte_Class Complex_Main "HOL-Library.Log_Nat"
begin

text \<open>
  Lua numerals (\<open>numeral.rs\<close>): the recognition of decimal and hexadecimal numerals and their conversion
  to doubles, which are bit patterns. Arithmetic on \<open>i64\<close> that the source saturates is integer
  arithmetic with the saturation written out (\<open>sat64\<close>). A panic, which here is only the debug
  assertion of \<open>scale_finite_by_power_of_two\<close>, is \<^const>\<open>None\<close>.

  The correctness of the conversion is shown in \<open>Numeral_Sound\<close>.
\<close>

definition sat64 :: "int \<Rightarrow> int" where
  "sat64 k = max (- (2 ^ 63)) (min (2 ^ 63 - 1) k)"

section \<open>Rounding to doubles\<close>

text \<open>
  IEEE 754 rounding to nearest, ties to even, of the ratio of two natural numbers, as the bit
  pattern of a double: the standard library's conversion of decimal text and of integers. With the
  quantum \<open>2\<^sup>u\<close> the pattern of \<open>m \<cdot> 2\<^sup>u\<close> is \<open>(u + 1074) \<cdot> 2\<^sup>5\<^sup>2 + m\<close>, for subnormal and normal numbers alike.
\<close>

definition round_half_even :: "nat \<Rightarrow> nat \<Rightarrow> nat" where
  "round_half_even n d =
     (let q = n div d; r = n mod d in if 2 * r > d \<or> (2 * r = d \<and> odd q) then q + 1 else q)"

text \<open>The ratio times a power of two.\<close>

definition scaled :: "int \<Rightarrow> nat \<times> nat \<Rightarrow> nat \<times> nat" where
  "scaled k q = (if 0 \<le> k then (fst q * 2 ^ nat k, snd q) else (fst q, snd q * 2 ^ nat (- k)))"

text \<open>The exponent of the leading bit of a positive ratio.\<close>

definition top_exponent :: "nat \<times> nat \<Rightarrow> int" where
  "top_exponent q =
     (let k = int (floorlog 2 (fst q)) - int (floorlog 2 (snd q))
      in case scaled (- k) q of (a, b) \<Rightarrow> if b \<le> a then k else k - 1)"

definition F64_INFINITY :: nat where
  "F64_INFINITY = 2047 * 2 ^ 52"

definition nearest_bits :: "nat \<times> nat \<Rightarrow> nat" where
  "nearest_bits q =
     (if fst q = 0 then 0
      else let e = top_exponent q in
        if e > 1023 then F64_INFINITY
        else let u = max (e - 52) (- 1074) in
          nat (u + 1074) * 2 ^ 52 + (case scaled (- u) q of (a, b) \<Rightarrow> round_half_even a b))"

section \<open>Bytes\<close>

definition hex_value :: "u8 \<Rightarrow> u8 option" where
  "hex_value b =
     (if is_ascii_digit b then Some (b - byte CHR ''0'')
      else if byte CHR ''a'' \<le> b \<and> b \<le> byte CHR ''f'' then Some (b - byte CHR ''a'' + 10)
      else if byte CHR ''A'' \<le> b \<and> b \<le> byte CHR ''F'' then Some (b - byte CHR ''A'' + 10)
      else None)"

definition is_newline_pair :: "u8 \<Rightarrow> u8 \<Rightarrow> bool" where
  "is_newline_pair x y \<longleftrightarrow> (x = 0x0D \<and> y = 0x0A) \<or> (x = 0x0A \<and> y = 0x0D)"

definition trim_lua_whitespace :: "u8 list \<Rightarrow> u8 list" where
  "trim_lua_whitespace bs = rev (dropWhile is_lua_whitespace (rev (dropWhile is_lua_whitespace bs)))"

text \<open>\<open>Iterator::position\<close>.\<close>

fun position :: "('a \<Rightarrow> bool) \<Rightarrow> 'a list \<Rightarrow> nat option" where
  "position p [] = None"
| "position p (x # xs) = (if p x then Some 0 else map_option Suc (position p xs))"

definition split_exponent :: "u8 list \<Rightarrow> u8 \<Rightarrow> u8 \<Rightarrow> (u8 list \<times> u8 list option) option" where
  "split_exponent bs lower upper =
     (case position (\<lambda>b. b = lower \<or> b = upper) bs of
        Some i \<Rightarrow>
          if \<exists>b \<in> set (drop (i + 1) bs). b = lower \<or> b = upper then None
          else Some (take i bs, Some (drop (i + 1) bs))
      | None \<Rightarrow> Some (bs, None))"

fun mantissa_loop :: "(u8 \<Rightarrow> bool) \<Rightarrow> nat \<Rightarrow> nat \<Rightarrow> u8 list \<Rightarrow> nat option" where
  "mantissa_loop valid_digit dots digits [] = Some digits"
| "mantissa_loop valid_digit dots digits (b # bs) =
     (if b = byte CHR ''.''
      then (if dots + 1 > 1 then None else mantissa_loop valid_digit (dots + 1) digits bs)
      else if valid_digit b then mantissa_loop valid_digit dots (digits + 1) bs
      else None)"

definition validate_mantissa :: "u8 list \<Rightarrow> (u8 \<Rightarrow> bool) \<Rightarrow> nat option" where
  "validate_mantissa bs valid_digit = mantissa_loop valid_digit 0 0 bs"

definition strip_sign :: "u8 list \<Rightarrow> bool \<times> u8 list" where
  "strip_sign bs =
     (case bs of
        b # rest \<Rightarrow> if b = byte CHR ''-'' then (True, rest) else if b = byte CHR ''+'' then (False, rest) else (False, bs)
      | [] \<Rightarrow> (False, bs))"

definition validate_signed_digits :: "u8 list \<Rightarrow> bool" where
  "validate_signed_digits bs = (let ds = snd (strip_sign bs) in ds \<noteq> [] \<and> list_all is_ascii_digit ds)"

definition parse_signed_i64_saturating :: "u8 list \<Rightarrow> int \<Rightarrow> int option" where
  "parse_signed_i64_saturating bs bound =
     (if \<not> validate_signed_digits bs then None
      else case strip_sign bs of (negative, ds) \<Rightarrow>
        let magnitude = foldl (\<lambda>m b. min (sat64 (sat64 (m * 10) + int (unat (b - byte CHR ''0'')))) bound) 0 ds
        in Some (if negative then - magnitude else magnitude))"

section \<open>Hexadecimal numerals\<close>

definition MAX_SIGNIFICANT_HEX_DIGITS :: int where
  "MAX_SIGNIFICANT_HEX_DIGITS = 16"

definition significant_bits :: "u64 \<Rightarrow> nat" where
  "significant_bits w = floorlog 2 (unat w)"

definition round_shift_right :: "u64 \<Rightarrow> nat \<Rightarrow> bool \<Rightarrow> u64" where
  "round_shift_right value k sticky =
     (if k = 0 then value
      else
        (let kept = drop_bit k value;
             remainder = value AND (push_bit k 1 - 1);
             halfway = push_bit (k - 1) 1;
             round_up = (remainder > halfway \<or> (remainder = halfway \<and> (sticky \<or> kept AND 1 \<noteq> 0)))
         in sat_add kept (of_bool round_up)))"

definition round_hex_subnormal :: "u64 \<Rightarrow> bool \<Rightarrow> int \<Rightarrow> u64" where
  "round_hex_subnormal prefix sticky scale =
     (let shift = sat64 (- 1074 - scale)
      in if shift \<le> 0 then push_bit (nat (max 0 (min 63 (sat64 (- shift))))) prefix
         else if shift < 64 then round_shift_right prefix (nat (max 1 (min 63 shift))) sticky
         else if shift = 64 then of_bool (prefix > push_bit 63 1 \<or> (prefix = push_bit 63 1 \<and> sticky))
         else 0)"

text \<open>\<open>u64 as f64\<close>.\<close>

definition f64_of_u64 :: "u64 \<Rightarrow> u64" where
  "f64_of_u64 w = of_nat (nearest_bits (unat w, 1))"

definition scale_finite_by_power_of_two :: "u64 \<Rightarrow> int \<Rightarrow> u64 option" where
  "scale_finite_by_power_of_two bits scale =
     (let value_exponent = sat64 (int (unat (drop_bit 52 bits AND 0x7FF)) - 1023);
          exponent = sat64 (scale + value_exponent)
      in if exponent > 1023 then Some (of_nat F64_INFINITY)
         else if exponent \<ge> - 1022
         then Some ((bits AND (push_bit 52 1 - 1)) OR push_bit 52 (of_int (exponent + 1023)))
         else None)"

definition finish_hex :: "u64 \<Rightarrow> bool \<Rightarrow> int \<Rightarrow> u64 option" where
  "finish_hex prefix dropped_nonzero scale =
     (let bit_count = significant_bits prefix;
          top = sat64 (scale + int (bit_count - 1))
      in if top > 1023 then Some (of_nat F64_INFINITY)
         else if top < - 1075 then Some 0
         else if top < - 1022 then Some (round_hex_subnormal prefix dropped_nonzero scale)
         else
           (let shift = bit_count - 53;
                significand = round_shift_right prefix shift dropped_nonzero
            in scale_finite_by_power_of_two (f64_of_u64 significand) (sat64 (scale + int shift))))"

record hex_scan =
  hx_prefix :: u64
  hx_significant :: int
  hx_fractional_digits :: int
  hx_dropped :: int
  hx_dropped_nonzero :: bool
  hx_fractional :: bool

definition hex_scan_new :: hex_scan where
  "hex_scan_new = \<lparr> hx_prefix = 0, hx_significant = 0, hx_fractional_digits = 0, hx_dropped = 0,
     hx_dropped_nonzero = False, hx_fractional = False \<rparr>"

definition hex_digit_step :: "u8 \<Rightarrow> hex_scan \<Rightarrow> hex_scan" where
  "hex_digit_step digit s =
     (let s1 = (if hx_fractional s then s\<lparr> hx_fractional_digits := sat64 (hx_fractional_digits s + 1) \<rparr> else s) in
      if hx_significant s1 = 0 \<and> digit = 0 then s1
      else if hx_significant s1 < MAX_SIGNIFICANT_HEX_DIGITS
      then s1\<lparr> hx_prefix := sat_add (sat_mul (hx_prefix s1) 16) (ucast digit), hx_significant := sat64 (hx_significant s1 + 1) \<rparr>
      else s1\<lparr> hx_dropped := sat64 (hx_dropped s1 + 1), hx_dropped_nonzero := hx_dropped_nonzero s1 \<or> digit \<noteq> 0 \<rparr>)"

fun hex_scan_loop :: "u8 list \<Rightarrow> hex_scan \<Rightarrow> hex_scan option" where
  "hex_scan_loop [] s = Some s"
| "hex_scan_loop (b # bs) s =
     (if b = byte CHR ''.'' then hex_scan_loop bs (s\<lparr> hx_fractional := True \<rparr>)
      else case hex_value b of None \<Rightarrow> None | Some digit \<Rightarrow> hex_scan_loop bs (hex_digit_step digit s))"

text \<open>The inner option is the source's \<open>Option<f64>\<close>, the outer one a panic.\<close>

definition parse_hex :: "u8 list \<Rightarrow> u64 option option" where
  "parse_hex bs =
     (case split_exponent bs (byte CHR ''p'') (byte CHR ''P'') of
        None \<Rightarrow> Some None
      | Some (mantissa, exponent) \<Rightarrow>
          (case validate_mantissa mantissa is_ascii_hexdigit of
             None \<Rightarrow> Some None
           | Some 0 \<Rightarrow> Some None
           | Some _ \<Rightarrow>
               (let exponent_limit = sat64 (sat64 (int (length mantissa) * 4) + 2048)
                in case (case exponent of Some e \<Rightarrow> parse_signed_i64_saturating e exponent_limit | None \<Rightarrow> Some 0) of
                     None \<Rightarrow> Some None
                   | Some exponent_value \<Rightarrow>
                       (case hex_scan_loop mantissa hex_scan_new of
                          None \<Rightarrow> Some None
                        | Some s \<Rightarrow>
                            if hx_significant s = 0 then Some (Some 0)
                            else
                              (let digit_adjustment = sat64 (sat64 (hx_dropped s - hx_fractional_digits s) * 4);
                                   scale = sat64 (exponent_value + digit_adjustment)
                               in map_option Some (finish_hex (hx_prefix s) (hx_dropped_nonzero s) scale))))))"

section \<open>Decimal numerals\<close>

text \<open>
  The text of a validated decimal numeral as a ratio: \<open>str::parse\<close> on \<open>f64\<close> rounds the exact value.
\<close>

definition digits_value :: "nat \<Rightarrow> nat list \<Rightarrow> nat" where
  "digits_value base ds = foldl (\<lambda>v d. v * base + d) 0 ds"

definition fraction_length :: "u8 list \<Rightarrow> nat" where
  "fraction_length m = (case position (\<lambda>b. b = byte CHR ''.'') m of None \<Rightarrow> 0 | Some i \<Rightarrow> length m - Suc i)"

definition signed_value :: "u8 list \<Rightarrow> int" where
  "signed_value bs =
     (case strip_sign bs of (negative, ds) \<Rightarrow>
        let v = int (digits_value 10 (map (\<lambda>b. unat (b - byte CHR ''0'')) ds)) in if negative then - v else v)"

definition power_ratio :: "nat \<Rightarrow> nat \<Rightarrow> int \<Rightarrow> nat \<times> nat" where
  "power_ratio v base e = (if 0 \<le> e then (v * base ^ nat e, 1) else (v, base ^ nat (- e)))"

definition decimal_ratio :: "u8 list \<Rightarrow> u8 list option \<Rightarrow> nat \<times> nat" where
  "decimal_ratio m e =
     power_ratio (digits_value 10 (map (\<lambda>b. unat (b - byte CHR ''0'')) (filter (\<lambda>b. b \<noteq> byte CHR ''.'') m))) 10
       ((case e of None \<Rightarrow> 0 | Some x \<Rightarrow> signed_value x) - int (fraction_length m))"

definition parse_decimal :: "u8 list \<Rightarrow> u64 option" where
  "parse_decimal bs =
     (case split_exponent bs (byte CHR ''e'') (byte CHR ''E'') of
        None \<Rightarrow> None
      | Some (mantissa, exponent) \<Rightarrow>
          (case validate_mantissa mantissa is_ascii_digit of
             None \<Rightarrow> None
           | Some 0 \<Rightarrow> None
           | Some _ \<Rightarrow>
               if (case exponent of Some e \<Rightarrow> \<not> validate_signed_digits e | None \<Rightarrow> False) then None
               else Some (of_nat (nearest_bits (decimal_ratio mantissa exponent)))))"

definition f64_neg :: "u64 \<Rightarrow> u64" where
  "f64_neg w = w XOR push_bit 63 1"

definition parse_lua_numeral :: "u8 list \<Rightarrow> u64 option option" where
  "parse_lua_numeral input =
     (case strip_sign (trim_lua_whitespace input) of (negative, body) \<Rightarrow>
        map_option (map_option (\<lambda>v. if negative then f64_neg v else v))
          (if take 2 body = map byte ''0x'' \<or> take 2 body = map byte ''0X''
           then parse_hex (drop 2 body) else Some (parse_decimal body)))"

end
