(* ===== verification/Token.thy ===== *)
theory Token
  imports Numeral
begin

text \<open>
  The token vocabulary (\<open>compiler/token.rs\<close>, and \<open>TokenKind\<close> and \<open>SyntaxError\<close> of \<open>error.rs\<close>): tokens, literal
  values, the spelling table and the keyword lookup, a binary search over the sorted keywords.
  The constructors of \<open>TokenKind\<close> carry the prefix \<open>Tk\<close>. Offsets and counts are natural numbers: the source
  cap keeps them far below the limits of \<open>usize\<close>; a \<open>char\<close> is its scalar value.

  Shown here: the binary search finds a word exactly when it is a keyword of the table.
\<close>

section \<open>Kinds, tokens and errors\<close>

datatype token_kind =
    TkAnd | TkBreak | TkDo | TkElse | TkElseIf | TkEnd | TkFalse | TkFor
  | TkFunction | TkGoto | TkIf | TkIn | TkLocal | TkNil | TkNot | TkOr
  | TkRepeat | TkReturn | TkThen | TkTrue | TkUntil | TkWhile | TkPlus | TkMinus
  | TkStar | TkSlash | TkMod | TkCaret | TkHash | TkEqual | TkNotEqual | TkLessEqual
  | TkGreaterEqual | TkLess | TkGreater | TkLParen | TkRParen | TkLCurly | TkRCurly | TkLSquare
  | TkRSquare | TkSemi | TkColon | TkComma | TkDot | TkDotDot | TkDotDotDot | TkAssign
  | TkIdentifier | TkLiteralNumber | TkLiteralString | TkEndOfFile

datatype syntax_error =
    BadNumber | UnfinishedNumber | BreakOutsideLoop | InvalidCharacter u32
  | InvalidByte u8 | InvalidEscapeSequence | UnsupportedEnvironmentName | UnsupportedGoto
  | HexadecimalDigitExpected | DecimalEscapeTooLarge | LongStringUnsupported | TooManyExpressions
  | TooManyAssignmentTargets nat | TooManyRegisters nat | TooManyFixedResults | TooManyLocals
  | TooManyUpvalues | TooManySyntaxLevels | TooManyArguments | JumpTooFar
  | TooManyNestedFunctions | TooManyNumbers | TooManyStrings | TooManyTableFields
  | UnclosedString | UnfinishedString | UnexpectedEof | UnfinishedLongComment
  | ExpectedToken token_kind "u8 list" | UnexpectedSymbol "u8 list" | MalformedStatement "u8 list" | ForSeparatorExpected "u8 list"
  | FunctionArgumentsExpected "u8 list" | VarargOutsideVarargFunction

record token =
  tk_typ :: token_kind
  tk_start :: nat
  tk_len :: u32
  tk_line :: u32

datatype escape_error_kind = EscDecimalTooLarge | EscHexadecimalDigitExpected | EscInvalid

record escape_error =
  ee_kind :: escape_error_kind
  ee_pos :: nat

datatype literal = LitNumber u64 | LitString "escape_error + u8 list"

fun literal_kind :: "literal \<Rightarrow> token_kind" where
  "literal_kind (LitNumber _) = TkLiteralNumber"
| "literal_kind (LitString _) = TkLiteralString"

fun escape_syntax_error :: "escape_error_kind \<Rightarrow> syntax_error" where
  "escape_syntax_error EscDecimalTooLarge = DecimalEscapeTooLarge"
| "escape_syntax_error EscHexadecimalDigitExpected = HexadecimalDigitExpected"
| "escape_syntax_error EscInvalid = InvalidEscapeSequence"

text \<open>The source range of a token.\<close>

definition token_range :: "token \<Rightarrow> nat \<times> nat" where
  "token_range t = (tk_start t, tk_start t + unat (tk_len t))"

section \<open>Spellings and keywords\<close>

fun spelling :: "token_kind \<Rightarrow> string" where
  "spelling TkAnd = ''and''"
| "spelling TkBreak = ''break''"
| "spelling TkDo = ''do''"
| "spelling TkElse = ''else''"
| "spelling TkElseIf = ''elseif''"
| "spelling TkEnd = ''end''"
| "spelling TkFalse = ''false''"
| "spelling TkFor = ''for''"
| "spelling TkFunction = ''function''"
| "spelling TkGoto = ''goto''"
| "spelling TkIf = ''if''"
| "spelling TkIn = ''in''"
| "spelling TkLocal = ''local''"
| "spelling TkNil = ''nil''"
| "spelling TkNot = ''not''"
| "spelling TkOr = ''or''"
| "spelling TkRepeat = ''repeat''"
| "spelling TkReturn = ''return''"
| "spelling TkThen = ''then''"
| "spelling TkTrue = ''true''"
| "spelling TkUntil = ''until''"
| "spelling TkWhile = ''while''"
| "spelling TkPlus = ''+''"
| "spelling TkMinus = ''-''"
| "spelling TkStar = ''*''"
| "spelling TkSlash = ''/''"
| "spelling TkMod = ''%''"
| "spelling TkCaret = ''^''"
| "spelling TkHash = ''#''"
| "spelling TkEqual = ''==''"
| "spelling TkNotEqual = ''~=''"
| "spelling TkLessEqual = ''<=''"
| "spelling TkGreaterEqual = ''>=''"
| "spelling TkLess = ''<''"
| "spelling TkGreater = ''>''"
| "spelling TkLParen = ''(''"
| "spelling TkRParen = '')''"
| "spelling TkLCurly = ''{''"
| "spelling TkRCurly = ''}''"
| "spelling TkLSquare = ''[''"
| "spelling TkRSquare = '']''"
| "spelling TkSemi = '';''"
| "spelling TkColon = '':''"
| "spelling TkComma = '',''"
| "spelling TkDot = ''.''"
| "spelling TkDotDot = ''..''"
| "spelling TkDotDotDot = ''...''"
| "spelling TkAssign = ''=''"
| "spelling TkIdentifier = ''<name>''"
| "spelling TkLiteralNumber = ''<number>''"
| "spelling TkLiteralString = ''<string>''"
| "spelling TkEndOfFile = ''<eof>''"

definition KEYWORDS :: "token_kind list" where
  "KEYWORDS =
     [TkAnd, TkBreak, TkDo, TkElse, TkElseIf, TkEnd, TkFalse, TkFor,
      TkFunction, TkGoto, TkIf, TkIn, TkLocal, TkNil, TkNot, TkOr,
      TkRepeat, TkReturn, TkThen, TkTrue, TkUntil, TkWhile]"

text \<open>The order of byte strings.\<close>

fun bytes_cmp :: "u8 list \<Rightarrow> u8 list \<Rightarrow> cmp_ordering" where
  "bytes_cmp [] [] = OrderEqual"
| "bytes_cmp [] (_ # _) = OrderLess"
| "bytes_cmp (_ # _) [] = OrderGreater"
| "bytes_cmp (x # xs) (y # ys) =
     (if x < y then OrderLess else if y < x then OrderGreater else bytes_cmp xs ys)"

text \<open>\<open>slice::binary_search_by\<close>: the interval of \<open>sz\<close> elements from \<open>base\<close> on is halved until one is left.\<close>

function search_base :: "(nat \<Rightarrow> cmp_ordering) \<Rightarrow> nat \<Rightarrow> nat \<Rightarrow> nat" where
  "search_base f base sz =
     (if sz > 1
      then (let half = sz div 2; mid = base + half
            in search_base f (if f mid = OrderGreater then base else mid) (sz - half))
      else base)"
  by auto

termination by (relation "measure (\<lambda>(f, base, sz). sz)") auto

declare search_base.simps [simp del]

definition binary_search_by :: "(nat \<Rightarrow> cmp_ordering) \<Rightarrow> nat \<Rightarrow> nat + nat" where
  "binary_search_by f n =
     (if n = 0 then Inl 0
      else (let base = search_base f 0 n in
        if f base = OrderEqual then Inr base else Inl (base + of_bool (f base = OrderLess))))"

definition keyword_match :: "u8 list \<Rightarrow> token_kind" where
  "keyword_match word =
     (case binary_search_by (\<lambda>i. bytes_cmp (map byte (spelling (KEYWORDS ! i))) word) (length KEYWORDS) of
        Inr i \<Rightarrow> KEYWORDS ! i
      | Inl _ \<Rightarrow> TkIdentifier)"

section \<open>The lookup is the table\<close>

lemma bytes_cmp_equal [simp]: "bytes_cmp xs ys = OrderEqual \<longleftrightarrow> xs = ys"
  by (induction xs ys rule: bytes_cmp.induct) auto

lemma bytes_cmp_less_trans:
  "bytes_cmp xs ys = OrderLess \<Longrightarrow> bytes_cmp ys zs \<noteq> OrderGreater \<Longrightarrow> bytes_cmp xs zs = OrderLess"
proof (induction xs ys arbitrary: zs rule: bytes_cmp.induct)
  case (4 x xs y ys)
  then show ?case by (cases zs) (auto split: if_splits)
next
  case (2 y ys)
  then show ?case by (cases zs) simp_all
qed simp_all

text \<open>The search ends at the last element that is not greater, when there is one.\<close>

lemma search_base_last:
  assumes "\<And>i j. base \<le> i \<Longrightarrow> i \<le> j \<Longrightarrow> j < base + sz \<Longrightarrow> f i = OrderGreater \<Longrightarrow> f j = OrderGreater"
    "0 < sz" "base \<le> k" "k < base + sz" "f k \<noteq> OrderGreater" "\<And>j. k < j \<Longrightarrow> j < base + sz \<Longrightarrow> f j = OrderGreater"
  shows "search_base f base sz = k"
  using assms
proof (induction sz arbitrary: base rule: less_induct)
  case (less sz)
  show ?case
  proof (cases "sz > 1")
    case True
    define half where "half = sz div 2"
    have h: "0 < half" "half < sz" "0 < sz - half" "sz - half < sz" using True by (auto simp: half_def)
    have step: "search_base f base sz = search_base f (if f (base + half) = OrderGreater then base else base + half) (sz - half)"
      using True by (subst search_base.simps) (simp add: Let_def half_def)
    show ?thesis
    proof (cases "f (base + half) = OrderGreater")
      case g: True
      have "k < base + half"
      proof (rule ccontr)
        assume "\<not> k < base + half"
        then show False using less.prems(1) [of "base + half" k] less.prems(4,5) g by simp
      qed
      moreover have "half \<le> sz - half" by (simp add: half_def)
      ultimately have "search_base f base (sz - half) = k"
        by (intro less.IH) (use h less.prems(3,5) in \<open>auto intro: less.prems(1,6)\<close>)
      then show ?thesis using g step by simp
    next
      case g: False
      have "base + half \<le> k"
      proof (rule ccontr)
        assume "\<not> base + half \<le> k"
        then show False using less.prems(6) [of "base + half"] h g by simp
      qed
      then have "search_base f (base + half) (sz - half) = k"
        by (intro less.IH) (use h less.prems(4,5) in \<open>auto intro: less.prems(6) dest: less.prems(1) [rotated 3]\<close>)
      then show ?thesis using g step by simp
    qed
  next
    case False
    then show ?thesis using less.prems(2-4) by (subst search_base.simps) simp
  qed
qed

lemma search_base_range: "0 < sz \<Longrightarrow> base \<le> search_base f base sz \<and> search_base f base sz < base + sz"
proof (induction f base sz rule: search_base.induct)
  case (1 f base sz)
  show ?case
  proof (cases "sz > 1")
    case True
    then show ?thesis using "1.IH" [OF True refl refl] by (subst (1 2) search_base.simps) (auto simp: Let_def)
  qed (use "1.prems" in \<open>subst (1 2) search_base.simps, simp\<close>)
qed

lemma bytes_cmp_swap: "bytes_cmp xs ys = OrderLess \<longleftrightarrow> bytes_cmp ys xs = OrderGreater"
  by (induction xs ys rule: bytes_cmp.induct) auto

lemma binary_search_sorted:
  assumes less: "\<And>i j. i < j \<Longrightarrow> j < n \<Longrightarrow> bytes_cmp (key i) (key j) = OrderLess"
  shows "binary_search_by (\<lambda>i. bytes_cmp (key i) w) n = Inr k \<longleftrightarrow> k < n \<and> key k = w"
    (is "binary_search_by ?f _ = _ \<longleftrightarrow> _")
proof
  assume "binary_search_by ?f n = Inr k"
  then show "k < n \<and> key k = w"
    using search_base_range [of n 0 ?f] by (auto simp: binary_search_by_def Let_def split: if_splits)
next
  assume k: "k < n \<and> key k = w"
  have up: "?f j = OrderGreater" if "?f i = OrderGreater" "i \<le> j" "j < n" for i j
  proof (cases "i = j")
    case False
    then have "bytes_cmp (key i) (key j) = OrderLess" using less that by simp
    then show ?thesis using bytes_cmp_less_trans [of w "key i" "key j"] that(1) bytes_cmp_swap [of w] by simp
  qed (use that in simp)
  have "search_base ?f 0 n = k"
  proof (rule search_base_last)
    show "?f k \<noteq> OrderGreater" using k by (metis bytes_cmp_equal cmp_ordering.distinct(5))
    show "?f j = OrderGreater" if "k < j" "j < 0 + n" for j using less [of k j] that k bytes_cmp_swap [of w] by simp
  qed (use k up in auto)
  then show "binary_search_by ?f n = Inr k" using k by (auto simp: binary_search_by_def Let_def)
qed

lemma keywords_sorted:
  assumes "i < j" "j < length KEYWORDS"
  shows "bytes_cmp (map byte (spelling (KEYWORDS ! i))) (map byte (spelling (KEYWORDS ! j))) = OrderLess"
proof -
  let ?lt = "\<lambda>a b. bytes_cmp (map byte (spelling a)) (map byte (spelling b)) = OrderLess"
  have "transp ?lt" by (rule transpI) (metis bytes_cmp_less_trans cmp_ordering.distinct(3))
  moreover have "successively ?lt KEYWORDS" by (simp add: KEYWORDS_def)
  ultimately have "sorted_wrt ?lt KEYWORDS" by (simp only: successively_conv_sorted_wrt)
  then show ?thesis using assms by (simp add: sorted_wrt_iff_nth_less)
qed

lemma keyword_match_table:
  "keyword_match w = (case find (\<lambda>k. map byte (spelling k) = w) KEYWORDS of Some k \<Rightarrow> k | None \<Rightarrow> TkIdentifier)"
proof -
  let ?f = "\<lambda>i. bytes_cmp (map byte (spelling (KEYWORDS ! i))) w" and ?P = "\<lambda>k. map byte (spelling k) = w"
  have found: "binary_search_by ?f (length KEYWORDS) = Inr i \<longleftrightarrow> i < length KEYWORDS \<and> ?P (KEYWORDS ! i)" for i
    by (rule binary_search_sorted, rule keywords_sorted)
  show ?thesis
  proof (cases "find ?P KEYWORDS")
    case None
    have "binary_search_by ?f (length KEYWORDS) \<noteq> Inr i" for i
    proof
      assume "binary_search_by ?f (length KEYWORDS) = Inr i"
      then have "i < length KEYWORDS" "?P (KEYWORDS ! i)" unfolding found by simp_all
      then show False using None nth_mem [of i KEYWORDS] unfolding find_None_iff by blast
    qed
    then obtain e where "binary_search_by ?f (length KEYWORDS) = Inl e"
      by (cases "binary_search_by ?f (length KEYWORDS)") auto
    then show ?thesis unfolding keyword_match_def None by simp
  next
    case (Some k)
    then obtain i where "i < length KEYWORDS" "?P (KEYWORDS ! i)" "k = KEYWORDS ! i" by (auto simp: find_Some_iff)
    then have "binary_search_by ?f (length KEYWORDS) = Inr i" unfolding found by simp
    then show ?thesis unfolding keyword_match_def Some using \<open>k = KEYWORDS ! i\<close> by simp
  qed
qed

end
