(* ===== verification/Lexer.thy ===== *)
theory Lexer
  imports Token
begin

text \<open>
  The lexer (\<open>compiler/lexer.rs\<close>): the walk over the source bytes with its index of line starts,
  comments, numerals, words, short strings with their escapes, and the stream with two tokens of
  lookahead. An operation returns the lexer it leaves beside its result, as the source leaves it
  after an error too. A panic (a slice out of range, the underflow of the line index, a failed
  assertion) is the fault \<open>LexPanic\<close>.
\<close>

section \<open>The lexer and its position\<close>

record lexer =
  lx_pos :: nat
  lx_linebreaks :: "nat list"
  lx_newline_pair_open :: bool
  lx_source :: "u8 list"

datatype lex_fault = SyntaxFault syntax_error u32 u32 | LexPanic

type_synonym lexed = "token \<times> literal option"

definition lexer_new :: "u8 list \<Rightarrow> lexer" where
  "lexer_new src = \<lparr> lx_pos = 0, lx_linebreaks = [0], lx_newline_pair_open = False, lx_source = src \<rparr>"

definition is_newline :: "u8 \<Rightarrow> bool" where
  "is_newline c \<longleftrightarrow> c = 0x0D \<or> c = 0x0A"

definition is_identifier_continue :: "u8 \<Rightarrow> bool" where
  "is_identifier_continue c \<longleftrightarrow> is_ascii_alphanumeric c \<or> c = byte CHR ''_''"

definition peek_char :: "lexer \<Rightarrow> u8 option" where
  "peek_char L = (if lx_pos L < length (lx_source L) then Some (lx_source L ! lx_pos L) else None)"

definition next_char :: "lexer \<Rightarrow> u8 option \<times> lexer" where
  "next_char L =
     (case peek_char L of
        None \<Rightarrow> (None, L)
      | Some c \<Rightarrow>
          (let L1 = L\<lparr> lx_pos := lx_pos L + 1 \<rparr> in
           if is_newline c
           then (if \<not> lx_newline_pair_open L1 \<and> (case peek_char L1 of Some d \<Rightarrow> is_newline_pair c d | None \<Rightarrow> False)
                 then (Some c, L1\<lparr> lx_newline_pair_open := True \<rparr>)
                 else (Some c, L1\<lparr> lx_newline_pair_open := False, lx_linebreaks := lx_linebreaks L1 @ [lx_pos L1] \<rparr>))
           else (Some c, L1)))"

definition try_next :: "u8 \<Rightarrow> lexer \<Rightarrow> bool \<times> lexer" where
  "try_next expected L =
     (case peek_char L of
        Some c \<Rightarrow> if c = expected then (True, snd (next_char L)) else (False, L)
      | None \<Rightarrow> (False, L))"

text \<open>What is left to read decreases with every byte.\<close>

definition lexer_left :: "lexer \<Rightarrow> nat" where
  "lexer_left L = length (lx_source L) - lx_pos L"

lemma next_char_None: "peek_char L = None \<Longrightarrow> next_char L = (None, L)"
  by (simp add: next_char_def)

lemma next_char_Some:
  assumes "peek_char L = Some c"
  obtains L' where "next_char L = (Some c, L')" "lx_pos L' = lx_pos L + 1" "lx_source L' = lx_source L" "lx_pos L < length (lx_source L)"
proof -
  have "fst (next_char L) = Some c" "lx_pos (snd (next_char L)) = lx_pos L + 1" "lx_source (snd (next_char L)) = lx_source L"
    using assms by (simp_all add: next_char_def Let_def)
  then show thesis using assms that [of "snd (next_char L)"] by (simp add: prod_eq_iff peek_char_def split: if_splits)
qed

lemma next_char_left: "peek_char L = Some c \<Longrightarrow> lexer_left (snd (next_char L)) < lexer_left L"
  by (rule next_char_Some) (auto simp: lexer_left_def)

text \<open>
  Every loop of the lexer moves by \<^const>\<open>next_char\<close>; \<open>reads L L'\<close> is any number of such moves.
\<close>

inductive reads :: "lexer \<Rightarrow> lexer \<Rightarrow> bool" where
  reads_refl [intro, simp]: "reads L L"
| reads_step: "peek_char L \<noteq> None \<Longrightarrow> reads (snd (next_char L)) L' \<Longrightarrow> reads L L'"

lemma reads_trans: "reads L L' \<Longrightarrow> reads L' L'' \<Longrightarrow> reads L L''"
  by (induction rule: reads.induct) (auto intro: reads_step)

lemma reads_left: "reads L L' \<Longrightarrow> lexer_left L' \<le> lexer_left L"
  by (induction rule: reads.induct) (auto dest: next_char_left)

lemma reads_next: "peek_char L \<noteq> None \<Longrightarrow> reads L (snd (next_char L))"
  by (auto intro: reads_step)

lemma next_char_reads: "next_char L = (c, L') \<Longrightarrow> reads L L'"
  using reads_next [of L] next_char_None [of L] by (cases "peek_char L") auto

lemma next_char_read: "next_char L = (Some c, L') \<Longrightarrow> reads L L' \<and> lexer_left L' < lexer_left L"
  using next_char_reads [of L] next_char_left [of L] next_char_None [of L] by (cases "peek_char L") auto

lemma try_next_read: "try_next e L = (b, L') \<Longrightarrow> reads L L' \<and> (b \<longrightarrow> lexer_left L' < lexer_left L)"
  using reads_next [of L] next_char_left [of L] by (auto simp: try_next_def split: option.splits if_splits)

section \<open>Runs of bytes\<close>

text \<open>The loop \<open>while let Some(c) = peek_char() { if !p(c) { break } next_char() }\<close>.\<close>

function skip_while :: "(u8 \<Rightarrow> bool) \<Rightarrow> lexer \<Rightarrow> lexer" where
  "skip_while p L =
     (case peek_char L of
        Some c \<Rightarrow> if p c then skip_while p (snd (next_char L)) else L
      | None \<Rightarrow> L)"
  by auto

termination by (relation "measure (\<lambda>(p, L). lexer_left L)") (auto intro: next_char_left)

declare skip_while.simps [simp del]

lemma skip_while_reads: "reads L (skip_while p L)"
proof (induction p L rule: skip_while.induct)
  case (1 p L)
  then show ?case by (subst skip_while.simps) (auto split: option.split intro: reads_step)
qed

definition consume_whitespace :: "lexer \<Rightarrow> lexer" where
  "consume_whitespace L = skip_while is_lua_whitespace L"

text \<open>The loop \<open>while try_next(b'=') { level += 1 }\<close>.\<close>

function count_equals :: "nat \<Rightarrow> lexer \<Rightarrow> nat \<times> lexer" where
  "count_equals level L =
     (case try_next (byte CHR ''='') L of (True, L') \<Rightarrow> count_equals (level + 1) L' | (False, L') \<Rightarrow> (level, L'))"
  by auto

termination by (relation "measure (\<lambda>(n, L). lexer_left L)") (auto dest!: try_next_read [OF sym])

declare count_equals.simps [simp del]

lemma count_equals_reads: "count_equals n L = (m, L') \<Longrightarrow> reads L L'"
proof (induction n L arbitrary: m L' rule: count_equals.induct)
  case (1 n L)
  obtain b L1 where t: "try_next (byte CHR ''='') L = (b, L1)" by fastforce
  note e = count_equals.simps [of n L, unfolded t]
  show ?case using "1.prems" "1.IH" [OF t [symmetric]] try_next_read [OF t] unfolding e
    by (cases b) (auto intro: reads_trans)
qed

section \<open>Positions and errors\<close>

definition line_and_col :: "lexer \<Rightarrow> nat \<Rightarrow> (u32 \<times> u32) option" where
  "line_and_col L pos =
     (let n = length (takeWhile (\<lambda>start. start \<le> pos) (lx_linebreaks L))
      in if n = 0 then None
         else Some (of_nat (n - 1 + 1), of_nat (pos - lx_linebreaks L ! (n - 1) + 1)))"

definition error_at :: "lexer \<Rightarrow> syntax_error \<Rightarrow> nat \<Rightarrow> lex_fault" where
  "error_at L kind pos = (case line_and_col L pos of None \<Rightarrow> LexPanic | Some (l, c) \<Rightarrow> SyntaxFault kind l c)"

definition error_here :: "lexer \<Rightarrow> syntax_error \<Rightarrow> lex_fault" where
  "error_here L kind = error_at L kind (lx_pos L)"

text \<open>
  The first character of the first valid chunk of UTF-8, with its length, when the bytes start with
  a well-formed sequence.
\<close>

definition continuation :: "u8 \<Rightarrow> bool" where
  "continuation b \<longleftrightarrow> 0x80 \<le> b \<and> b \<le> 0xBF"

definition utf8_first :: "u8 list \<Rightarrow> (u32 \<times> nat) option" where
  "utf8_first bs =
     (case bs of
        [] \<Rightarrow> None
      | b0 # r \<Rightarrow>
          if b0 < 0x80 then Some (ucast b0, 1)
          else if 0xC2 \<le> b0 \<and> b0 \<le> 0xDF then
            (case r of b1 # _ \<Rightarrow> if continuation b1
                then Some (push_bit 6 (ucast (b0 AND 0x1F)) OR ucast (b1 AND 0x3F), 2) else None
             | [] \<Rightarrow> None)
          else if 0xE0 \<le> b0 \<and> b0 \<le> 0xEF then
            (case r of b1 # b2 # _ \<Rightarrow>
                if continuation b1 \<and> (b0 = 0xE0 \<longrightarrow> 0xA0 \<le> b1) \<and> (b0 = 0xED \<longrightarrow> b1 \<le> 0x9F) \<and> continuation b2
                then Some (push_bit 12 (ucast (b0 AND 0x0F)) OR push_bit 6 (ucast (b1 AND 0x3F)) OR ucast (b2 AND 0x3F), 3)
                else None
             | _ \<Rightarrow> None)
          else if 0xF0 \<le> b0 \<and> b0 \<le> 0xF4 then
            (case r of b1 # b2 # b3 # _ \<Rightarrow>
                if continuation b1 \<and> (b0 = 0xF0 \<longrightarrow> 0x90 \<le> b1) \<and> (b0 = 0xF4 \<longrightarrow> b1 \<le> 0x8F) \<and> continuation b2 \<and> continuation b3
                then Some (push_bit 18 (ucast (b0 AND 0x07)) OR push_bit 12 (ucast (b1 AND 0x3F)) OR
                           push_bit 6 (ucast (b2 AND 0x3F)) OR ucast (b3 AND 0x3F), 4)
                else None
             | _ \<Rightarrow> None)
          else None)"

definition invalid_character :: "u8 \<Rightarrow> nat \<Rightarrow> lexer \<Rightarrow> lexer \<times> lex_fault" where
  "invalid_character first start L =
     (if first < 0x80 then (L, error_here L (InvalidCharacter (ucast first)))
      else
        (let fin = min (length (lx_source L)) (start + 4) in
         if start > fin then (L, LexPanic)
         else case utf8_first (drop start (take fin (lx_source L))) of
           Some (c, n) \<Rightarrow> (let L1 = L\<lparr> lx_pos := start + n \<rparr> in (L1, error_here L1 (InvalidCharacter c)))
         | None \<Rightarrow> (L, error_here L (InvalidByte first))))"

definition source_slice :: "lexer \<Rightarrow> nat \<Rightarrow> u8 list option" where
  "source_slice L start =
     (if start \<le> lx_pos L \<and> lx_pos L \<le> length (lx_source L) then Some (drop start (take (lx_pos L) (lx_source L))) else None)"

section \<open>Comments\<close>

function long_comment :: "nat \<Rightarrow> nat \<Rightarrow> lexer \<Rightarrow> lexer \<times> (lex_fault + unit)" where
  "long_comment level comment_start L =
     (case next_char L of
        (None, L1) \<Rightarrow> (L1, Inl (error_at L1 UnfinishedLongComment comment_start))
      | (Some c, L1) \<Rightarrow>
          if c = byte CHR '']'' then
            (case count_equals 0 L1 of (closing_level, L2) \<Rightarrow>
               if closing_level = level then
                 (case try_next (byte CHR '']'') L2 of
                    (True, L3) \<Rightarrow> (L3, Inr ())
                  | (False, L3) \<Rightarrow> long_comment level comment_start L3)
               else long_comment level comment_start L2)
          else long_comment level comment_start L1)"
  by pat_completeness auto

termination
  by (relation "measure (\<lambda>(n, s, L). lexer_left L)")
    (auto dest!: next_char_read [OF sym] count_equals_reads [OF sym] try_next_read [OF sym] reads_left)

function short_comment :: "lexer \<Rightarrow> lexer" where
  "short_comment L =
     (case next_char L of
        (None, L1) \<Rightarrow> L1
      | (Some c, L1) \<Rightarrow> if is_newline c then L1 else short_comment L1)"
  by pat_completeness auto

termination by (relation "measure lexer_left") (auto dest!: next_char_read [OF sym])

declare long_comment.simps [simp del] short_comment.simps [simp del]

definition skip_comment :: "nat \<Rightarrow> lexer \<Rightarrow> lexer \<times> (lex_fault + unit)" where
  "skip_comment comment_start L =
     (if peek_char L = Some (byte CHR ''['') then
        (case count_equals 0 (snd (next_char L)) of (level, L2) \<Rightarrow>
           (case try_next (byte CHR ''['') L2 of
              (True, L3) \<Rightarrow> long_comment level comment_start L3
            | (False, L3) \<Rightarrow> (short_comment L3, Inr ())))
      else (short_comment L, Inr ()))"

section \<open>Symbols\<close>

definition lex_dots :: "lexer \<Rightarrow> token_kind \<times> lexer" where
  "lex_dots L =
     (case try_next (byte CHR ''.'') L of
        (False, L1) \<Rightarrow> (TkDot, L1)
      | (True, L1) \<Rightarrow>
          (case try_next (byte CHR ''.'') L1 of (True, L2) \<Rightarrow> (TkDotDotDot, L2) | (False, L2) \<Rightarrow> (TkDotDot, L2)))"

definition with_equals :: "token_kind \<Rightarrow> token_kind \<Rightarrow> lexer \<Rightarrow> token_kind \<times> lexer" where
  "with_equals paired alone L =
     (case try_next (byte CHR ''='') L of (True, L1) \<Rightarrow> (paired, L1) | (False, L1) \<Rightarrow> (alone, L1))"

definition single_char_token :: "u8 \<Rightarrow> token_kind option" where
  "single_char_token =
     map_of [(byte CHR ''+'', TkPlus), (byte CHR ''*'', TkStar), (byte CHR ''/'', TkSlash), (byte CHR ''%'', TkMod),
       (byte CHR ''^'', TkCaret), (byte CHR ''#'', TkHash), (byte CHR '';'', TkSemi), (byte CHR '':'', TkColon),
       (byte CHR '','', TkComma), (byte CHR ''('', TkLParen), (byte CHR '')'', TkRParen), (byte CHR ''{'', TkLCurly),
       (byte CHR ''}'', TkRCurly), (byte CHR '']'', TkRSquare)]"

section \<open>Strings\<close>

text \<open>At most two more digits of a decimal escape; the value stays below 1000.\<close>

fun decimal_escape :: "nat \<Rightarrow> u8 list \<Rightarrow> nat \<Rightarrow> u16 \<Rightarrow> u16 \<times> nat" where
  "decimal_escape 0 src fin v = (v, fin)"
| "decimal_escape (Suc k) src fin v =
     (if fin < length src \<and> is_ascii_digit (src ! fin)
      then decimal_escape k src (fin + 1) (v * 10 + ucast (src ! fin - byte CHR ''0''))
      else (v, fin))"

definition escape_hex :: "u8 list \<Rightarrow> u8 \<Rightarrow> nat \<Rightarrow> u8 option" where
  "escape_hex src quote i = (if i < length src \<and> src ! i \<noteq> quote then hex_value (src ! i) else None)"

definition named_escape :: "u8 \<Rightarrow> u8 option" where
  "named_escape =
     map_of [(0x0D, 0x0A), (0x0A, 0x0A), (byte CHR ''n'', 0x0A), (byte CHR ''t'', 0x09), (byte CHR ''r'', 0x0D), (0x5C, 0x5C),
       (0x22, 0x22), (0x27, 0x27), (byte CHR ''a'', 0x07), (byte CHR ''b'', 0x08), (byte CHR ''f'', 0x0C), (byte CHR ''v'', 0x0B)]"

definition decode_string_escape ::
  "u8 list \<Rightarrow> nat \<Rightarrow> u8 \<Rightarrow> u8 \<Rightarrow> nat \<Rightarrow> u8 list \<Rightarrow> escape_error + (nat \<times> u8 list)" where
  "decode_string_escape src slash_pos escaped quote lexical_end decoded =
     (let fail = (\<lambda>kind. Inl \<lparr> ee_kind = kind, ee_pos = slash_pos \<rparr>) in
      if is_ascii_digit escaped then
        (case decimal_escape 2 src (slash_pos + 2) (ucast (escaped - byte CHR ''0'')) of (v, fin) \<Rightarrow>
           if v > 255 then fail EscDecimalTooLarge else Inr (fin, decoded @ [ucast v]))
      else if escaped = byte CHR ''x'' then
        (case escape_hex src quote (slash_pos + 2) of
           None \<Rightarrow> fail EscHexadecimalDigitExpected
         | Some high \<Rightarrow>
             (case escape_hex src quote (slash_pos + 3) of
                None \<Rightarrow> fail EscHexadecimalDigitExpected
              | Some low \<Rightarrow> Inr (slash_pos + 4, decoded @ [high * 16 + low])))
      else if escaped = byte CHR ''z'' then Inr (lexical_end, decoded)
      else case named_escape escaped of
        Some b \<Rightarrow> Inr (lexical_end, decoded @ [b])
      | None \<Rightarrow> fail EscInvalid)"

text \<open>The byte after a backslash, with the white space of \<open>\z\<close> and the second byte of a newline pair.\<close>

definition read_escape :: "lexer \<Rightarrow> u8 option \<times> lexer" where
  "read_escape L =
     (case next_char L of
        (None, L1) \<Rightarrow> (None, L1)
      | (Some escaped, L1) \<Rightarrow>
          if escaped = byte CHR ''z'' then (Some escaped, consume_whitespace L1)
          else if is_newline escaped \<and> (case peek_char L1 of Some d \<Rightarrow> is_newline_pair escaped d | None \<Rightarrow> False)
          then (Some escaped, snd (next_char L1))
          else (Some escaped, L1))"

lemma read_escape_reads: "read_escape L = (c, L') \<Longrightarrow> reads L L'"
proof -
  assume e: "read_escape L = (c, L')"
  obtain d L1 where n: "next_char L = (d, L1)" by fastforce
  have "reads L1 L'"
    using e skip_while_reads [of L1] reads_next [of L1] unfolding read_escape_def n consume_whitespace_def
    by (auto split: option.splits if_splits)
  then show ?thesis using next_char_reads [OF n] reads_trans by blast
qed

function lex_string_loop ::
  "u8 \<Rightarrow> u8 list \<Rightarrow> escape_error option \<Rightarrow> nat \<Rightarrow> lexer \<Rightarrow> lexer \<times> (lex_fault + (escape_error + u8 list))" where
  "lex_string_loop quote decoded failure decoded_until L =
     (case next_char L of
        (None, L1) \<Rightarrow> (L1, Inl (error_here L1 UnfinishedString))
      | (Some c, L1) \<Rightarrow>
          if c = quote then (L1, Inr (case failure of Some e \<Rightarrow> Inl e | None \<Rightarrow> Inr decoded))
          else if c = 0x5C then
            (case read_escape L1 of
               (None, L2) \<Rightarrow> (L2, Inl (error_here L2 UnfinishedString))
             | (Some escaped, L2) \<Rightarrow>
                 (case failure of
                    Some e \<Rightarrow> lex_string_loop quote decoded failure decoded_until L2
                  | None \<Rightarrow>
                      (case decode_string_escape (lx_source L2) (lx_pos L) escaped quote (lx_pos L2) decoded of
                         Inr (skip_until, decoded') \<Rightarrow> lex_string_loop quote decoded' None skip_until L2
                       | Inl e \<Rightarrow> lex_string_loop quote decoded (Some e) decoded_until L2)))
          else if is_newline c then (L1, Inl (error_at L1 UnclosedString (lx_pos L)))
          else if failure = None \<and> lx_pos L \<ge> decoded_until
          then lex_string_loop quote (decoded @ [c]) failure decoded_until L1
          else lex_string_loop quote decoded failure decoded_until L1)"
  by pat_completeness auto

termination
  by (relation "measure (\<lambda>(q, d, f, u, L). lexer_left L)")
    (auto dest!: next_char_read [OF sym] read_escape_reads [OF sym] reads_left)

declare lex_string_loop.simps [simp del]

definition lex_string :: "u8 \<Rightarrow> lexer \<Rightarrow> lexer \<times> (lex_fault + (escape_error + u8 list))" where
  "lex_string quote L = lex_string_loop quote [] None (lx_pos L) L"

section \<open>Numerals and words\<close>

fun has_digits_loop :: "(u8 \<Rightarrow> bool) \<Rightarrow> bool \<Rightarrow> bool \<Rightarrow> u8 list \<Rightarrow> bool" where
  "has_digits_loop is_digit digit_seen point_seen [] = digit_seen"
| "has_digits_loop is_digit digit_seen point_seen (b # bs) =
     (if is_digit b then has_digits_loop is_digit True point_seen bs
      else if b = byte CHR ''.'' \<and> \<not> point_seen then has_digits_loop is_digit digit_seen True bs
      else False)"

definition has_mantissa_digits :: "u8 list \<Rightarrow> (u8 \<Rightarrow> bool) \<Rightarrow> bool" where
  "has_mantissa_digits bs is_digit = has_digits_loop is_digit False False bs"

definition is_incomplete_numeral :: "u8 list \<Rightarrow> bool" where
  "is_incomplete_numeral input =
     (if take 2 input = map byte ''0x'' \<or> take 2 input = map byte ''0X'' then
        (let body = drop 2 input in
         case position (\<lambda>b. b = byte CHR ''p'' \<or> b = byte CHR ''P'') body of
           None \<Rightarrow> body = [] \<or> body = map byte ''.''
         | Some i \<Rightarrow>
             has_mantissa_digits (take i body) is_ascii_hexdigit \<and>
             drop (i + 1) body \<in> {[], map byte ''+'', map byte ''-''})
      else
        (case position (\<lambda>b. b = byte CHR ''e'' \<or> b = byte CHR ''E'') input of
           None \<Rightarrow> False
         | Some i \<Rightarrow>
             has_mantissa_digits (take i input) is_ascii_digit \<and>
             drop (i + 1) input \<in> {[], map byte ''+'', map byte ''-''}))"

definition optional_sign :: "lexer \<Rightarrow> lexer" where
  "optional_sign L =
     (case try_next (byte CHR ''+'') L of (True, L1) \<Rightarrow> L1 | (False, L1) \<Rightarrow> snd (try_next (byte CHR ''-'') L1))"

lemma try_next_reads: "reads L (snd (try_next e L))"
  using try_next_read [of e L] by (cases "try_next e L") auto

lemma optional_sign_reads: "reads L (optional_sign L)"
proof -
  obtain b L1 where t: "try_next (byte CHR ''+'') L = (b, L1)" by fastforce
  have "reads L1 (snd (try_next (byte CHR ''-'') L1))" by (rule try_next_reads)
  then show ?thesis unfolding optional_sign_def t using try_next_read [OF t] reads_trans by (cases b) auto
qed

text \<open>Either of the two exponent letters.\<close>

definition try_either :: "u8 \<Rightarrow> u8 \<Rightarrow> lexer \<Rightarrow> bool \<times> lexer" where
  "try_either lower upper L =
     (case try_next lower L of (True, L1) \<Rightarrow> (True, L1) | (False, L1) \<Rightarrow> try_next upper L1)"

lemma try_either_read: "try_either x y L = (b, L') \<Longrightarrow> reads L L' \<and> (b \<longrightarrow> lexer_left L' < lexer_left L)"
proof -
  assume e: "try_either x y L = (b, L')"
  obtain c L1 where t: "try_next x L = (c, L1)" by fastforce
  then have "reads L L1" "c \<Longrightarrow> lexer_left L1 < lexer_left L" using try_next_read [OF t] by simp_all
  then show ?thesis using e try_next_read [of y L1] reads_left [of L L1] reads_trans unfolding try_either_def t
    by (cases c) fastforce+
qed

lemma try_either_False: "try_either x y L = (False, L') \<Longrightarrow> L' = L"
  by (auto simp: try_either_def try_next_def split: option.splits if_splits)

function numeral_loop :: "u8 \<Rightarrow> u8 \<Rightarrow> lexer \<Rightarrow> lexer" where
  "numeral_loop lower upper L =
     (case try_either lower upper L of
        (True, L1) \<Rightarrow> numeral_loop lower upper (optional_sign L1)
      | (False, L1) \<Rightarrow>
          (case peek_char L1 of
             Some c \<Rightarrow>
               if c = byte CHR ''.'' \<or> hex_value c \<noteq> None then numeral_loop lower upper (snd (next_char L1)) else L1
           | None \<Rightarrow> L1))"
  by pat_completeness auto

termination
  by (relation "measure (\<lambda>(x, y, L). lexer_left L)")
    (auto dest!: try_either_read [OF sym] reads_left intro: next_char_left le_less_trans [OF reads_left [OF optional_sign_reads]] less_le_trans)

declare numeral_loop.simps [simp del]

definition lex_numeral :: "u8 \<Rightarrow> nat \<Rightarrow> lexer \<Rightarrow> lexer \<times> (lex_fault + u64)" where
  "lex_numeral first_char tok_start L =
     (let (hex, L1) = (if first_char = byte CHR ''0'' then try_either (byte CHR ''x'') (byte CHR ''X'') L else (False, L));
          L2 = (if hex then numeral_loop (byte CHR ''p'') (byte CHR ''P'') L1 else numeral_loop (byte CHR ''e'') (byte CHR ''E'') L1);
          L3 = (case peek_char L2 of Some c \<Rightarrow> if is_identifier_continue c then snd (next_char L2) else L2 | None \<Rightarrow> L2)
      in case source_slice L3 tok_start of
           None \<Rightarrow> (L3, Inl LexPanic)
         | Some literal \<Rightarrow>
             (case parse_lua_numeral literal of
                None \<Rightarrow> (L3, Inl LexPanic)
              | Some (Some number) \<Rightarrow> (L3, Inr number)
              | Some None \<Rightarrow>
                  (L3, Inl (error_at L3
                     (if lx_pos L3 = length (lx_source L3) \<and> is_incomplete_numeral literal then UnfinishedNumber else BadNumber)
                     tok_start))))"

definition lex_word :: "nat \<Rightarrow> lexer \<Rightarrow> lexer \<times> (lex_fault + token_kind)" where
  "lex_word tok_start L =
     (let L1 = skip_while is_identifier_continue L in
      case source_slice L1 tok_start of
        None \<Rightarrow> (L1, Inl LexPanic)
      | Some word \<Rightarrow> (L1, Inr (keyword_match word)))"

section \<open>Tokens\<close>

definition mk_token :: "lexer \<Rightarrow> token_kind \<Rightarrow> nat \<Rightarrow> u32 \<Rightarrow> token" where
  "mk_token L typ start line = \<lparr> tk_typ = typ, tk_start = start, tk_len = of_nat (lx_pos L - start), tk_line = line \<rparr>"

definition plain_token :: "lexer \<Rightarrow> token_kind \<Rightarrow> nat \<Rightarrow> u32 \<Rightarrow> lex_fault + token" where
  "plain_token L typ start line =
     (if typ \<in> {TkLiteralNumber, TkLiteralString} then Inl LexPanic else Inr (mk_token L typ start line))"

definition literal_token :: "lexer \<Rightarrow> literal \<Rightarrow> nat \<Rightarrow> u32 \<Rightarrow> lexed" where
  "literal_token L lit start line = (mk_token L (literal_kind lit) start line, Some lit)"

definition end_of_file :: "lexer \<Rightarrow> u32 \<Rightarrow> token" where
  "end_of_file L line = \<lparr> tk_typ = TkEndOfFile, tk_start = lx_pos L, tk_len = 0, tk_line = line \<rparr>"

text \<open>
  One round of the loop of \<open>next_token\<close>; \<^const>\<open>None\<close> is its \<open>continue\<close> after a comment. The
  results of the match arms are a plain kind, a literal, or an early return.
\<close>

definition plain :: "nat \<Rightarrow> u32 \<Rightarrow> token_kind \<times> lexer \<Rightarrow> lexer \<times> (lex_fault + lexed option)" where
  "plain start line r =
     (case r of (k, L) \<Rightarrow>
        (L, case plain_token L k start line of Inl f \<Rightarrow> Inl f | Inr t \<Rightarrow> Inr (Some (t, None))))"

definition literal_result :: "nat \<Rightarrow> u32 \<Rightarrow> ('a \<Rightarrow> literal) \<Rightarrow> lexer \<times> (lex_fault + 'a) \<Rightarrow> lexer \<times> (lex_fault + lexed option)" where
  "literal_result start line mk r =
     (case r of (L, Inl f) \<Rightarrow> (L, Inl f) | (L, Inr v) \<Rightarrow> (L, Inr (Some (literal_token L (mk v) start line))))"

definition word_token :: "nat \<Rightarrow> u32 \<Rightarrow> lexer \<times> (lex_fault + token_kind) \<Rightarrow> lexer \<times> (lex_fault + lexed option)" where
  "word_token start line r =
     (case r of
        (L, Inl f) \<Rightarrow> (L, Inl f)
      | (L, Inr k) \<Rightarrow> if k = TkGoto then (L, Inl (error_at L UnsupportedGoto start)) else plain start line (k, L))"

definition lex_from :: "nat \<Rightarrow> u32 \<Rightarrow> u8 \<Rightarrow> lexer \<Rightarrow> lexer \<times> (lex_fault + lexed option)" where
  "lex_from start line c L =
     (case single_char_token c of
        Some k \<Rightarrow> plain start line (k, L)
      | None \<Rightarrow>
        if c = byte CHR ''.'' then
          (if (case peek_char L of Some d \<Rightarrow> is_ascii_digit d | None \<Rightarrow> False)
           then literal_result start line LitNumber (lex_numeral (byte CHR ''.'') start L)
           else plain start line (lex_dots L))
        else if c = byte CHR ''='' then plain start line (with_equals TkEqual TkAssign L)
        else if c = byte CHR ''<'' then plain start line (with_equals TkLessEqual TkLess L)
        else if c = byte CHR ''>'' then plain start line (with_equals TkGreaterEqual TkGreater L)
        else if c = byte CHR ''~'' then
          (case try_next (byte CHR ''='') L of
             (True, L1) \<Rightarrow> plain start line (TkNotEqual, L1)
           | (False, L1) \<Rightarrow> (L1, Inl (error_here L1 (InvalidCharacter (ucast (byte CHR ''~''))))))
        else if c = byte CHR ''-'' then
          (case try_next (byte CHR ''-'') L of
             (True, L1) \<Rightarrow> (case skip_comment start L1 of (L2, Inl f) \<Rightarrow> (L2, Inl f) | (L2, Inr _) \<Rightarrow> (L2, Inr None))
           | (False, L1) \<Rightarrow> plain start line (TkMinus, L1))
        else if c = 0x27 \<or> c = 0x22 then literal_result start line LitString (lex_string c L)
        else if c = byte CHR ''['' then
          (if peek_char L \<in> {Some (byte CHR ''=''), Some (byte CHR ''['')}
           then (L, Inl (error_at L LongStringUnsupported start))
           else plain start line (TkLSquare, L))
        else if is_ascii_digit c then literal_result start line LitNumber (lex_numeral c start L)
        else if is_ascii_alphabetic c \<or> c = byte CHR ''_'' then word_token start line (lex_word start L)
        else (case invalid_character c start L of (L1, f) \<Rightarrow> (L1, Inl f)))"

definition next_token_round :: "lexer \<Rightarrow> lexer \<times> (lex_fault + lexed option)" where
  "next_token_round L0 =
     (let L = consume_whitespace L0; tok_start = lx_pos L; tok_line = of_nat (length (lx_linebreaks L)) in
      case next_char L of
        (None, L1) \<Rightarrow> (L1, Inr (Some (end_of_file L1 tok_line, None)))
      | (Some first_char, L1) \<Rightarrow> lex_from tok_start tok_line first_char L1)"

section \<open>Every operation only reads on\<close>

lemma long_comment_reads: "long_comment level start L = (L', r) \<Longrightarrow> reads L L'"
proof (induction level start L arbitrary: L' r rule: long_comment.induct)
  case (1 level start L)
  obtain c L1 where n: "next_char L = (c, L1)" by fastforce
  obtain m L2 where q: "count_equals 0 L1 = (m, L2)" by fastforce
  obtain b L3 where t: "try_next (byte CHR '']'') L2 = (b, L3)" by fastforce
  have r: "reads L L1" "reads L L2" "reads L L3"
    using next_char_reads [OF n] count_equals_reads [OF q] try_next_read [OF t] reads_trans by blast+
  show ?case
  proof (cases c)
    case None
    then show ?thesis using "1.prems" r unfolding long_comment.simps [of level start L] n by simp
  next
    case (Some d)
    note IH = "1.IH" [OF n [symmetric] Some]
    show ?thesis
    proof (cases "d = byte CHR '']''")
      case True
      note IH1 = IH(1) [OF True q [symmetric]] and IH2 = IH(2) [OF True q [symmetric]]
      note e = "1.prems" [unfolded long_comment.simps [of level start L] n Some prod.case option.case if_P [OF True] q t]
      show ?thesis
      proof (cases "m = level")
        case eq: True
        show ?thesis using e [unfolded if_P [OF eq]] r(3) IH1 [OF eq t [symmetric]] reads_trans by (cases b) auto
      next
        case False
        show ?thesis using e [unfolded if_not_P [OF False]] r(2) IH2 [OF False] reads_trans by blast
      qed
    next
      case False
      then show ?thesis
        using "1.prems" r(1) IH(3) [OF False] reads_trans
        unfolding long_comment.simps [of level start L] n Some prod.case option.case if_not_P [OF False] by blast
    qed
  qed
qed

lemma short_comment_reads: "reads L (short_comment L)"
proof (induction L rule: short_comment.induct)
  case (1 L)
  obtain c L1 where n: "next_char L = (c, L1)" by fastforce
  show ?case using "1.IH" [OF n [symmetric]] next_char_reads [OF n] reads_trans
    unfolding short_comment.simps [of L] n by (auto split: option.split)
qed

lemma skip_comment_reads: "skip_comment start L = (L', r) \<Longrightarrow> reads L L'"
proof -
  assume e: "skip_comment start L = (L', r)"
  obtain m L2 where q: "count_equals 0 (snd (next_char L)) = (m, L2)" by fastforce
  obtain b L3 where t: "try_next (byte CHR ''['') L2 = (b, L3)" by fastforce
  show ?thesis
  proof (cases "peek_char L = Some (byte CHR ''['')")
    case True
    then have "reads L (snd (next_char L))" by (intro reads_next) simp
    then have "reads L L3" using count_equals_reads [OF q] try_next_read [OF t] reads_trans by blast
    then show ?thesis using e long_comment_reads [of m start L3] short_comment_reads [of L3] reads_trans
      unfolding skip_comment_def if_P [OF True] q prod.case t by (cases b) auto
  next
    case False
    then show ?thesis using e short_comment_reads [of L] unfolding skip_comment_def if_not_P [OF False] by auto
  qed
qed

lemma lex_string_reads: "lex_string_loop quote d f u L = (L', r) \<Longrightarrow> reads L L'"
proof (induction quote d f u L arbitrary: L' r rule: lex_string_loop.induct)
  case (1 quote d f u L)
  obtain c L1 where n: "next_char L = (c, L1)" by fastforce
  obtain x L2 where q: "read_escape L1 = (x, L2)" by fastforce
  have r: "reads L L1" "reads L L2" using next_char_reads [OF n] read_escape_reads [OF q] reads_trans by blast+
  show ?case
  proof (cases c)
    case None
    then show ?thesis using "1.prems" r unfolding lex_string_loop.simps [of quote d f u L] n by simp
  next
    case (Some a)
    note IH = "1.IH" [OF n [symmetric] Some]
    note e = "1.prems" [unfolded lex_string_loop.simps [of quote d f u L] n Some prod.case option.case]
    consider "a = quote" | "a \<noteq> quote" "a = 0x5C" | "a \<noteq> quote" "a \<noteq> 0x5C" by blast
    then show ?thesis
    proof cases
      case 1
      then show ?thesis using e r(1) by simp
    next
      case 2
      note IH' = IH(1-3) [OF 2 q [symmetric]]
      show ?thesis
      proof (cases x)
        case None
        then show ?thesis using e 2 r(2) q by simp
      next
        case (Some escaped)
        show ?thesis using e [unfolded if_not_P [OF 2(1)] if_P [OF 2(2)] q Some prod.case option.case] IH' [OF Some] r(2) reads_trans
          by (auto split: option.splits sum.splits)
      qed
    next
      case 3
      then show ?thesis using e IH(4,5) [OF 3] r(1) reads_trans by (auto split: if_splits)
    qed
  qed
qed

lemma numeral_loop_reads: "reads L (numeral_loop lower upper L)"
proof (induction lower upper L rule: numeral_loop.induct)
  case (1 lower upper L)
  obtain b L1 where t: "try_either lower upper L = (b, L1)" by fastforce
  note r = try_either_read [OF t, THEN conjunct1]
  note e = numeral_loop.simps [of lower upper L, unfolded t prod.case]
  show ?case
  proof (cases b)
    case True
    have "reads L (optional_sign L1)" using r optional_sign_reads [of L1] reads_trans by blast
    then show ?thesis using "1.IH"(1) [OF t [symmetric]] True reads_trans unfolding e by auto
  next
    case False
    show ?thesis
    proof (cases "peek_char L1")
      case (Some c)
      have "reads L (snd (next_char L1))" using r reads_next [of L1] Some reads_trans by auto
      then show ?thesis using "1.IH"(2) [OF t [symmetric]] False Some r reads_trans unfolding e by auto
    qed (use r False in \<open>simp add: e\<close>)
  qed
qed

lemma lex_numeral_reads: "lex_numeral c start L = (L', r) \<Longrightarrow> reads L L'"
proof -
  assume e: "lex_numeral c start L = (L', r)"
  obtain hex L1 where h: "(if c = byte CHR ''0'' then try_either (byte CHR ''x'') (byte CHR ''X'') L else (False, L)) = (hex, L1)"
    by fastforce
  define L2 where "L2 = (if hex then numeral_loop (byte CHR ''p'') (byte CHR ''P'') L1 else numeral_loop (byte CHR ''e'') (byte CHR ''E'') L1)"
  define L3 where "L3 = (case peek_char L2 of Some c \<Rightarrow> if is_identifier_continue c then snd (next_char L2) else L2 | None \<Rightarrow> L2)"
  have "reads L L1" using h try_either_read [of "byte CHR ''x''" "byte CHR ''X''" L hex L1] by (auto split: if_splits)
  moreover have "reads L1 L2" using numeral_loop_reads unfolding L2_def by simp
  moreover have "reads L2 L3" using reads_next [of L2] by (simp add: L3_def split: option.split)
  ultimately have "reads L L3" using reads_trans by blast
  moreover have "L' = L3" using e unfolding lex_numeral_def Let_def h prod.case L2_def [symmetric] L3_def [symmetric]
    by (auto split: option.splits)
  ultimately show ?thesis by simp
qed

lemma lex_word_reads: "lex_word start L = (L', r) \<Longrightarrow> reads L L'"
  using skip_while_reads [of L is_identifier_continue] by (auto simp: lex_word_def Let_def split: option.splits)

lemma lex_dots_reads: "lex_dots L = (k, L') \<Longrightarrow> reads L L'"
proof -
  assume e: "lex_dots L = (k, L')"
  obtain b L1 where t: "try_next (byte CHR ''.'') L = (b, L1)" by fastforce
  obtain c L2 where u: "try_next (byte CHR ''.'') L1 = (c, L2)" by fastforce
  show ?thesis using e try_next_read [OF t] try_next_read [OF u] reads_trans unfolding lex_dots_def t prod.case u
    by (cases b; cases c) auto
qed

lemma with_equals_reads: "with_equals x y L = (k, L') \<Longrightarrow> reads L L'"
proof -
  assume e: "with_equals x y L = (k, L')"
  obtain b L1 where t: "try_next (byte CHR ''='') L = (b, L1)" by fastforce
  show ?thesis using e try_next_read [OF t] unfolding with_equals_def t by (cases b) auto
qed

text \<open>Skipping bytes that are no newlines moves the position alone.\<close>

lemma reads_forward:
  "lx_pos L + n \<le> length (lx_source L) \<Longrightarrow> (\<And>i. lx_pos L \<le> i \<Longrightarrow> i < lx_pos L + n \<Longrightarrow> \<not> is_newline (lx_source L ! i)) \<Longrightarrow>
   reads L (L\<lparr> lx_pos := lx_pos L + n \<rparr>)"
proof (induction n arbitrary: L)
  case (Suc n)
  let ?L1 = "L\<lparr> lx_pos := lx_pos L + 1 \<rparr>"
  have "peek_char L \<noteq> None" using Suc.prems(1) by (simp add: peek_char_def)
  moreover have "snd (next_char L) = ?L1" using Suc.prems by (simp add: next_char_def peek_char_def)
  moreover have "reads ?L1 (?L1\<lparr> lx_pos := lx_pos ?L1 + n \<rparr>)" by (rule Suc.IH) (use Suc.prems in auto)
  then have "reads ?L1 (L\<lparr> lx_pos := lx_pos L + Suc n \<rparr>)" by simp
  ultimately show ?case using reads_step by metis
qed simp

lemma utf8_first_length:
  assumes "utf8_first bs = Some (c, n)"
  shows "0 < n" "n \<le> length bs" "0 < i \<Longrightarrow> i < n \<Longrightarrow> continuation (bs ! i)"
  using assms by (auto simp: utf8_first_def nth_Cons less_Suc_eq numeral_eq_Suc split: list.splits if_splits nat.split)

lemma continuation_no_newline: "continuation b \<Longrightarrow> \<not> is_newline b"
  by (auto simp: continuation_def is_newline_def)

lemma invalid_character_reads:
  assumes "invalid_character c start L = (L', f)" "lx_pos L = start + 1" "lx_pos L \<le> length (lx_source L)"
  shows "reads L L'"
proof (cases "L' = L")
  case False
  define bs where "bs = drop start (take (min (length (lx_source L)) (start + 4)) (lx_source L))"
  obtain u n where u: "utf8_first bs = Some (u, n)" "L' = L\<lparr> lx_pos := start + n \<rparr>"
    using assms(1) False by (auto simp: invalid_character_def Let_def bs_def split: option.splits if_splits)
  note n = utf8_first_length [OF u(1)]
  have len: "start + n \<le> length (lx_source L)" using n(2) assms(2,3) by (auto simp: bs_def)
  have at: "bs ! i = lx_source L ! (start + i)" if "i < n" for i using that n(2) len by (auto simp: bs_def nth_drop)
  have "reads L (L\<lparr> lx_pos := lx_pos L + (n - 1) \<rparr>)"
  proof (rule reads_forward)
    show "lx_pos L + (n - 1) \<le> length (lx_source L)" using len n(1) assms(2) by simp
    fix i
    assume "lx_pos L \<le> i" "i < lx_pos L + (n - 1)"
    then show "\<not> is_newline (lx_source L ! i)"
      using n(3) [of "i - start"] at [of "i - start"] continuation_no_newline assms(2) by simp
  qed
  then show ?thesis using u(2) n(1) assms(2) by simp
qed simp

lemma fst_plain [simp]: "fst (plain start line x) = snd x"
  by (cases x) (simp add: plain_def)

lemma fst_literal_result [simp]: "fst (literal_result start line mk x) = fst x"
  by (cases x) (simp add: literal_result_def split: sum.split)

lemma fst_word_token [simp]: "fst (word_token start line x) = fst x"
  by (cases x) (simp add: word_token_def split: sum.split)

lemmas fst_results = fst_plain fst_literal_result fst_word_token

lemma reads_results:
  shows "reads L (snd (lex_dots L))" and "reads L (snd (with_equals k k' L))" and "reads L (fst (lex_numeral c start L))"
    and "reads L (fst (lex_string c L))" and "reads L (fst (lex_word start L))" and "reads L (fst (skip_comment start L))"
proof -
  show "reads L (snd (lex_dots L))" using lex_dots_reads [of L] by (cases "lex_dots L") simp
  show "reads L (snd (with_equals k k' L))" using with_equals_reads [of k k' L] by (cases "with_equals k k' L") simp
  show "reads L (fst (lex_numeral c start L))" using lex_numeral_reads [of c start L] by (cases "lex_numeral c start L") simp
  show "reads L (fst (lex_string c L))" unfolding lex_string_def
    using lex_string_reads [of c] by (cases "lex_string_loop c [] None (lx_pos L) L") simp
  show "reads L (fst (lex_word start L))" using lex_word_reads [of start L] by (cases "lex_word start L") simp
  show "reads L (fst (skip_comment start L))" using skip_comment_reads [of start L] by (cases "skip_comment start L") simp
qed

lemma lex_minus_reads:
  "reads L (fst (case try_next e L of
             (True, L1) \<Rightarrow> (case skip_comment start L1 of (L2, Inl f) \<Rightarrow> (L2, Inl f) | (L2, Inr _) \<Rightarrow> (L2, Inr None))
           | (False, L1) \<Rightarrow> plain start line (k, L1)))"
proof -
  obtain b L1 where t: "try_next e L = (b, L1)" by fastforce
  obtain L2 r where c: "skip_comment start L1 = (L2, r)" by fastforce
  have "reads L L1" using try_next_read [OF t] by simp
  moreover have "reads L L2" using reads_trans [OF \<open>reads L L1\<close> skip_comment_reads [OF c]] .
  ultimately show ?thesis unfolding t prod.case by (cases b; cases r) (simp_all add: c)
qed

lemma lex_tilde_reads:
  "reads L (fst (case try_next e L of (True, L1) \<Rightarrow> plain start line (k, L1) | (False, L1) \<Rightarrow> (L1, F L1)))"
  using try_next_read [of e L] by (cases "try_next e L"; cases "fst (try_next e L)") auto

lemma lex_from_reads:
  assumes p: "lx_pos L = start + 1" "lx_pos L \<le> length (lx_source L)"
  shows "reads L (fst (lex_from start line c L))"
proof -
  have inv: "reads L (fst (case invalid_character c start L of (L1, f) \<Rightarrow> (L1, Inl f)))"
    using invalid_character_reads [OF _ p, of c] by (cases "invalid_character c start L") auto
  show ?thesis unfolding lex_from_def
    by (cases "single_char_token c")
      (simp_all only: option.case if_distrib [of fst] if_distrib [of "reads L"] fst_results fst_conv snd_conv
        reads_refl reads_results lex_minus_reads lex_tilde_reads inv if_cancel)
qed

lemma next_token_round_parts:
  assumes "next_token_round L = (L', r)"
  obtains c L1 where "next_char (consume_whitespace L) = (c, L1)" "reads L L1" "reads L1 L'"
proof -
  let ?M = "consume_whitespace L"
  have ws: "reads L ?M" unfolding consume_whitespace_def by (rule skip_while_reads)
  obtain c L1 where n: "next_char ?M = (c, L1)" by fastforce
  have "reads L1 L'"
  proof (cases c)
    case None
    then show ?thesis using assms by (simp add: next_token_round_def Let_def n)
  next
    case (Some a)
    then have "peek_char ?M \<noteq> None" using n next_char_None [of ?M] by auto
    then obtain b where "peek_char ?M = Some b" by auto
    then obtain M' where "next_char ?M = (Some b, M')" "lx_pos M' = lx_pos ?M + 1" "lx_source M' = lx_source ?M" "lx_pos ?M < length (lx_source ?M)"
      by (rule next_char_Some)
    then have "reads L1 (fst (lex_from (lx_pos ?M) (of_nat (length (lx_linebreaks ?M))) a L1))"
      using n Some by (intro lex_from_reads) auto
    then show ?thesis using assms Some by (simp add: next_token_round_def Let_def n)
  qed
  then show ?thesis using that [OF n] reads_trans [OF ws next_char_reads [OF n]] by blast
qed

lemma next_token_round_reads:
  assumes "next_token_round L = (L', r)"
  shows "reads L L'"
proof -
  obtain c L1 where n: "next_char (consume_whitespace L) = (c, L1)" "reads L L1" "reads L1 L'"
    using next_token_round_parts [OF assms] by blast
  then show ?thesis using reads_trans by blast
qed

text \<open>A comment takes at least its first dash.\<close>

lemma next_token_round_continue: "next_token_round L = (L', Inr None) \<Longrightarrow> lexer_left L' < lexer_left L"
proof -
  assume e: "next_token_round L = (L', Inr None)"
  then obtain c L1 where n: "next_char (consume_whitespace L) = (c, L1)" "reads L L1" "reads L1 L'"
    using next_token_round_parts by blast
  have "c \<noteq> None" using e unfolding next_token_round_def Let_def n(1) by (cases c) simp_all
  then have "lexer_left L1 < lexer_left (consume_whitespace L)" using next_char_read n(1) by auto
  moreover have "lexer_left (consume_whitespace L) \<le> lexer_left L"
    unfolding consume_whitespace_def by (intro reads_left skip_while_reads)
  ultimately show ?thesis using reads_left [OF n(3)] by simp
qed

function next_token :: "lexer \<Rightarrow> lexer \<times> (lex_fault + lexed)" where
  "next_token L =
     (case next_token_round L of
        (L1, Inl f) \<Rightarrow> (L1, Inl f)
      | (L1, Inr (Some t)) \<Rightarrow> (L1, Inr t)
      | (L1, Inr None) \<Rightarrow> next_token L1)"
  by pat_completeness auto

termination by (relation "measure lexer_left") (auto dest!: next_token_round_continue [OF sym])

declare next_token.simps [simp del]

lemma next_token_reads: "next_token L = (L', r) \<Longrightarrow> reads L L'"
proof (induction L arbitrary: L' r rule: next_token.induct)
  case (1 L)
  obtain L1 x where s: "next_token_round L = (L1, x)" by fastforce
  note r = next_token_round_reads [OF s] and e = "1.prems" [unfolded next_token.simps [of L] s prod.case]
  show ?case using e r "1.IH" [OF s [symmetric]] reads_trans by (auto split: sum.splits option.splits)
qed

end
