(* ===== verification/Rounding.thy ===== *)
theory Rounding
  imports Numeral
begin

text \<open>
  Rounding to nearest, ties to even, on real numbers: the executable \<open>round_half_even\<close> and
  \<open>nearest_bits\<close> round the exact ratio, and shifting a word right with a sticky bit for what was
  dropped before rounds the whole number.
\<close>

section \<open>Rounding of real numbers\<close>

definition rhe :: "real \<Rightarrow> int" where
  "rhe y = (let q = \<lfloor>y\<rfloor>; r = y - real_of_int q in if r > 1 / 2 \<or> (r = 1 / 2 \<and> odd q) then q + 1 else q)"

definition ratio :: "nat \<times> nat \<Rightarrow> real" where
  "ratio q = real (fst q) / real (snd q)"

lemma rhe_ratio: "0 < snd q \<Longrightarrow> int (round_half_even (fst q) (snd q)) = rhe (ratio q)"
proof -
  assume d: "0 < snd q"
  let ?n = "fst q" and ?d = "snd q"
  have fr: "ratio q - real_of_int (int (?n div ?d)) = real (?n mod ?d) / real ?d"
    using d by (simp add: ratio_def field_simps flip: of_nat_mult of_nat_add)
  have fl: "\<lfloor>ratio q\<rfloor> = int (?n div ?d)" by (simp add: ratio_def floor_divide_of_nat_eq)
  have half: "real (?n mod ?d) / real ?d > 1 / 2 \<longleftrightarrow> 2 * (?n mod ?d) > ?d" "real (?n mod ?d) / real ?d = 1 / 2 \<longleftrightarrow> 2 * (?n mod ?d) = ?d"
    using d by (auto simp: field_simps)
  show ?thesis unfolding rhe_def Let_def fl fr half round_half_even_def by simp
qed

text \<open>No integer is closer.\<close>

lemma rhe_closest: "\<bar>y - real_of_int (rhe y)\<bar> \<le> \<bar>y - real_of_int k\<bar>"
proof -
  have main: "\<bar>y - (if up then F + 1 else F)\<bar> \<le> \<bar>y - K\<bar>"
    if "F \<le> y" "y < F + 1" "K \<le> F \<or> F + 1 \<le> K" "if up then 1 / 2 \<le> y - F else y - F \<le> 1 / 2" for up and F K :: real
    using that by (cases up) (auto simp: abs_if)
  define up where "up \<longleftrightarrow> y - real_of_int \<lfloor>y\<rfloor> > 1 / 2 \<or> (y - real_of_int \<lfloor>y\<rfloor> = 1 / 2 \<and> odd \<lfloor>y\<rfloor>)"
  have "k \<le> \<lfloor>y\<rfloor> \<or> \<lfloor>y\<rfloor> + 1 \<le> k" by linarith
  then have "real_of_int k \<le> real_of_int \<lfloor>y\<rfloor> \<or> real_of_int (\<lfloor>y\<rfloor> + 1) \<le> real_of_int k" unfolding of_int_le_iff .
  then have k: "real_of_int k \<le> real_of_int \<lfloor>y\<rfloor> \<or> real_of_int \<lfloor>y\<rfloor> + 1 \<le> real_of_int k" by simp
  have f: "real_of_int \<lfloor>y\<rfloor> \<le> y" "y < real_of_int \<lfloor>y\<rfloor> + 1" by linarith+
  have u: "if up then 1 / 2 \<le> y - real_of_int \<lfloor>y\<rfloor> else y - real_of_int \<lfloor>y\<rfloor> \<le> 1 / 2" by (auto simp: up_def)
  have r: "real_of_int (rhe y) = (if up then real_of_int \<lfloor>y\<rfloor> + 1 else real_of_int \<lfloor>y\<rfloor>)" by (simp add: rhe_def Let_def up_def)
  show ?thesis unfolding r by (rule main [OF f k u])
qed

lemma rhe_of_int: "rhe (real_of_int k) = k"
  by (simp add: rhe_def)

lemma rhe_of_nat: "rhe (real k) = int k"
  using rhe_of_int [of "int k"] by simp

lemma rhe_small: "0 \<le> y \<Longrightarrow> y \<le> 1 / 2 \<Longrightarrow> rhe y = 0"
proof -
  assume "0 \<le> y" "y \<le> 1 / 2"
  then have "\<lfloor>y\<rfloor> = 0" by linarith
  then show ?thesis using \<open>y \<le> 1 / 2\<close> by (simp add: rhe_def)
qed

lemma two_powi_pos [simp]: "0 < (2::real) powi k"
  by simp

lemma two_powi_add: "(2::real) powi (a + b) = 2 powi a * 2 powi b"
  by (simp add: power_int_add)

lemma two_powi_mono: "a \<le> b \<Longrightarrow> (2::real) powi a \<le> 2 powi b"
  by (rule power_int_increasing) simp_all

lemma two_powi_nat: "(2::real) powi (int k) = 2 ^ k"
  by simp

lemma ratio_scaled: "ratio (scaled k q) = ratio q * 2 powi k"
proof (cases "0 \<le> k")
  case True
  then have "(2::real) powi k = 2 ^ nat k" by (simp add: power_int_def)
  then show ?thesis using True by (simp add: ratio_def scaled_def)
next
  case False
  then have "(2::real) powi k = 1 / 2 ^ nat (- k)" by (simp add: power_int_def field_simps)
  then show ?thesis using False by (simp add: ratio_def scaled_def)
qed

lemma scaled_pos: "0 < fst q \<Longrightarrow> 0 < snd q \<Longrightarrow> 0 < fst (scaled k q) \<and> 0 < snd (scaled k q)"
  by (simp add: scaled_def)

text \<open>The exponent of the leading bit.\<close>

definition leading :: "real \<Rightarrow> int \<Rightarrow> bool" where
  "leading x e \<longleftrightarrow> 2 powi e \<le> x \<and> x < 2 powi (e + 1)"

lemma leading_unique: "leading x e \<Longrightarrow> leading x e' \<Longrightarrow> e = e'"
proof (rule ccontr)
  assume a: "leading x e" "leading x e'" "e \<noteq> e'"
  have "False" if "leading x i" "leading x j" "i < j" for i j
    using that two_powi_mono [of "i + 1" j] by (auto simp: leading_def)
  then show False using a by (metis linorder_neqE)
qed

lemma leading_nat: "0 < n \<Longrightarrow> leading (real n) (int (floorlog 2 n) - 1)"
proof -
  assume n: "0 < n"
  have b: "2 ^ (floorlog 2 n - 1) \<le> n \<and> n < 2 ^ floorlog 2 n" using floorlog_bounds [of n 2] n by simp
  have f: "0 < floorlog 2 n" using n by (simp add: floorlog_def)
  then have "int (floorlog 2 n) - 1 = int (floorlog 2 n - 1)" by simp
  then have "(2::real) powi (int (floorlog 2 n) - 1) = 2 ^ (floorlog 2 n - 1)" by (simp only: two_powi_nat)
  moreover have "(2::real) ^ (floorlog 2 n - 1) \<le> real n" using b by (metis of_nat_le_iff of_nat_numeral of_nat_power)
  moreover have "real n < 2 ^ floorlog 2 n" using b by (metis of_nat_less_iff of_nat_numeral of_nat_power)
  ultimately show ?thesis by (simp add: leading_def)
qed

lemma leading_scale: "leading x e \<Longrightarrow> leading (x * 2 powi k) (e + k)"
  by (simp add: leading_def two_powi_add [of _ k] two_powi_add [of "e + 1" k] add.commute [of e k] flip: add.assoc)
    (simp add: power_int_add mult_ac)

lemma top_exponent_leading:
  assumes "0 < fst q" "0 < snd q"
  shows "leading (ratio q) (top_exponent q)"
proof -
  define k where "k = int (floorlog 2 (fst q)) - int (floorlog 2 (snd q))"
  have n: "leading (real (fst q)) (int (floorlog 2 (fst q)) - 1)" and d: "leading (real (snd q)) (int (floorlog 2 (snd q)) - 1)"
    using assms leading_nat by simp_all
  have r: "ratio q * real (snd q) = real (fst q)" using assms by (simp add: ratio_def)
  have up: "ratio q < 2 powi (k + 1)"
  proof -
    have "real (fst q) < 2 powi int (floorlog 2 (fst q))" using n by (simp add: leading_def)
    also have "\<dots> = 2 powi (k + 1) * 2 powi (int (floorlog 2 (snd q)) - 1)" by (simp add: k_def flip: two_powi_add)
    also have "\<dots> \<le> 2 powi (k + 1) * real (snd q)" using d by (intro mult_left_mono) (simp_all add: leading_def)
    finally show ?thesis using assms by (simp add: ratio_def divide_less_eq)
  qed
  have low: "2 powi (k - 1) < ratio q"
  proof -
    have "2 powi (k - 1) * real (snd q) < 2 powi (k - 1) * 2 powi int (floorlog 2 (snd q))"
      using d by (intro mult_strict_left_mono) (simp_all add: leading_def)
    also have "\<dots> = 2 powi (int (floorlog 2 (fst q)) - 1)" by (simp only: k_def flip: two_powi_add) simp
    also have "\<dots> \<le> real (fst q)" using n by (simp add: leading_def)
    finally show ?thesis using assms by (simp add: ratio_def less_divide_eq)
  qed
  obtain a b where ab: "scaled (- k) q = (a, b)" by fastforce
  have b: "0 < b" using scaled_pos [OF assms, of "- k"] ab by simp
  have "b \<le> a \<longleftrightarrow> 1 \<le> ratio (scaled (- k) q)" using b by (simp add: ab ratio_def le_divide_eq)
  also have "\<dots> \<longleftrightarrow> 2 powi k \<le> ratio q" by (simp add: ratio_scaled power_int_minus field_simps)
  finally have iff: "b \<le> a \<longleftrightarrow> 2 powi k \<le> ratio q" .
  have "top_exponent q = (if b \<le> a then k else k - 1)" by (simp add: top_exponent_def k_def [symmetric] Let_def ab)
  then show ?thesis using iff up low by (auto simp: leading_def)
qed

definition near :: "real \<Rightarrow> int \<Rightarrow> nat" where
  "near x e =
     (if e > 1023 then F64_INFINITY
      else let u = max (e - 52) (- 1074) in nat (u + 1074) * 2 ^ 52 + nat (rhe (x * 2 powi (- u))))"

lemma nearest_bits_near:
  assumes "0 < fst q" "0 < snd q" "leading (ratio q) e"
  shows "nearest_bits q = near (ratio q) e"
proof -
  have e: "top_exponent q = e" using leading_unique [OF top_exponent_leading [OF assms(1,2)] assms(3)] .
  have "(case scaled k q of (a, b) \<Rightarrow> round_half_even a b) = nat (rhe (ratio q * 2 powi k))" for k
    using rhe_ratio [of "scaled k q"] scaled_pos [OF assms(1,2), of k] ratio_scaled [of k q]
    by (cases "scaled k q") (metis fst_conv snd_conv case_prod_conv nat_int)
  then show ?thesis using assms(1) by (simp add: nearest_bits_def near_def e Let_def)
qed

section \<open>Shifts\<close>

lemma unat_exp: "k < 64 \<Longrightarrow> unat (push_bit k 1 :: u64) = 2 ^ k"
proof -
  assume "k < 64"
  then have "unat (of_nat (2 ^ k) :: u64) = 2 ^ k" by (intro unat_of_nat_u64) (rule power_strict_increasing, simp_all)
  then show ?thesis by (simp add: push_bit_eq_mult)
qed

lemma unat_low_bits: "k < 64 \<Longrightarrow> unat (w AND (push_bit k 1 - 1) :: u64) = unat w mod 2 ^ k"
proof -
  assume "k < 64"
  have "w AND (push_bit k 1 - 1) = take_bit k w" by (simp add: take_bit_eq_mask mask_eq_exp_minus_1)
  then show ?thesis by (simp only: unsigned_take_bit_eq) (simp only: take_bit_eq_mod)
qed

lemma unat_shifted: "unat (drop_bit k w :: u64) = unat w div 2 ^ k"
proof -
  have "take_bit 64 (unat w) = unat w" using unat_u64_bound by (simp only: take_bit_nat_eq_self)
  then show ?thesis by (simp only: unsigned_drop_bit_eq len_num1 len_bit0 len_num0 mult_numeral_1_right) (simp add: drop_bit_eq_div)
qed

lemma and_one_odd: "(w AND 1 :: u64) \<noteq> 0 \<longleftrightarrow> odd (unat w)"
proof -
  have "w AND 1 = take_bit 1 w" by (simp add: take_bit_eq_mask)
  moreover have "unat (take_bit 1 w) = unat w mod 2 ^ 1" by (simp only: unsigned_take_bit_eq) (simp only: take_bit_eq_mod)
  moreover have "w AND 1 \<noteq> 0 \<longleftrightarrow> unat (w AND 1) \<noteq> 0" by (simp add: unat_eq_0)
  ultimately show ?thesis by (simp add: odd_iff_mod_2_eq_one)
qed

text \<open>What is dropped from the end of a number, \<open>\<phi>\<close> of its unit, decides only ties.\<close>

lemma rhe_shift:
  assumes "0 < k" "0 \<le> \<phi>" "\<phi> < 1"
  shows "rhe ((real P + \<phi>) * 2 powi (- int k)) =
    int (P div 2 ^ k) + (if P mod 2 ^ k > 2 ^ (k - 1) \<or> (P mod 2 ^ k = 2 ^ (k - 1) \<and> (\<phi> \<noteq> 0 \<or> odd (P div 2 ^ k))) then 1 else 0)"
proof -
  define q r H where "q = P div 2 ^ k" and "r = P mod 2 ^ k" and "H = (2::nat) ^ (k - 1)"
  define y where "y = (real P + \<phi>) * 2 powi (- int k)"
  have H2: "(2::nat) ^ k = 2 * H" using assms(1) by (simp add: H_def flip: power_Suc)
  have P: "P = q * (2 * H) + r" "r < 2 * H"
    unfolding q_def r_def H2 [symmetric] by (rule div_mult_mod_eq [symmetric], simp)
  have Hpos: "0 < H" by (simp add: H_def)
  have pw: "(2::real) powi (- int k) = 1 / (2 * real H)"
  proof -
    have "(2::real) ^ k = 2 * real H" using H2 by (metis of_nat_mult of_nat_numeral of_nat_power)
    then show ?thesis by (simp add: power_int_minus inverse_eq_divide)
  qed
  have y: "y = real q + (real r + \<phi>) / (2 * real H)" unfolding y_def pw P(1) using Hpos by (simp add: field_simps)
  have r1: "real r + \<phi> < 2 * real H" using P(2) assms(3) by linarith
  then have frac: "0 \<le> (real r + \<phi>) / (2 * real H)" "(real r + \<phi>) / (2 * real H) < 1" using assms(2) Hpos by (simp_all add: divide_less_eq)
  then have fl: "\<lfloor>y\<rfloor> = int q" unfolding y by linarith
  then have fr: "y - real_of_int \<lfloor>y\<rfloor> = (real r + \<phi>) / (2 * real H)" by (simp add: y)
  have gt: "(real r + \<phi>) / (2 * real H) > 1 / 2 \<longleftrightarrow> r > H \<or> (r = H \<and> \<phi> \<noteq> 0)"
  proof -
    have "(real r + \<phi>) / (2 * real H) > 1 / 2 \<longleftrightarrow> 1 / 2 * (2 * real H) < real r + \<phi>" using Hpos by (intro pos_less_divide_eq) simp
    also have "\<dots> \<longleftrightarrow> real H < real r + \<phi>" by simp
    also have "\<dots> \<longleftrightarrow> r > H \<or> (r = H \<and> \<phi> \<noteq> 0)" using assms(2,3) by (cases r H rule: linorder_cases) auto
    finally show ?thesis .
  qed
  have eq: "(real r + \<phi>) / (2 * real H) = 1 / 2 \<longleftrightarrow> r = H \<and> \<phi> = 0"
  proof -
    have "(real r + \<phi>) / (2 * real H) = 1 / 2 \<longleftrightarrow> real r + \<phi> = 1 / 2 * (2 * real H)" using Hpos by (intro divide_eq_eq [THEN trans]) simp
    also have "\<dots> \<longleftrightarrow> real r + \<phi> = real H" by simp
    also have "\<dots> \<longleftrightarrow> r = H \<and> \<phi> = 0" using assms(2,3) by (cases r H rule: linorder_cases) auto
    finally show ?thesis .
  qed
  have "rhe y = int q + (if r > H \<or> (r = H \<and> (\<phi> \<noteq> 0 \<or> odd q)) then 1 else 0)"
    unfolding rhe_def Let_def fr gt eq unfolding fl by auto
  then show ?thesis by (simp add: y_def q_def r_def H_def)
qed

lemma round_shift_right_rhe:
  assumes "0 < k" "k < 64" "0 \<le> \<phi>" "\<phi> < 1" "sticky \<longleftrightarrow> \<phi> \<noteq> 0"
  shows "int (unat (round_shift_right p k sticky)) = rhe ((real (unat p) + \<phi>) * 2 powi (- int k))"
proof -
  have "unat p div 2 ^ k \<le> unat p div 2" using assms(1) by (metis One_nat_def Suc_leI div_le_mono2 power_increasing_iff one_less_numeral_iff pos2 power_one_right semiring_norm(76) zero_less_power)
  moreover have "unat p < 2 ^ 64" using unat_u64_bound .
  ultimately have small: "unat p div 2 ^ k < 2 ^ 63" by simp
  have "kept AND 1 \<noteq> 0 \<longleftrightarrow> odd (unat kept)" for kept :: u64 by (rule and_one_odd)
  moreover have "unat (sat_add (drop_bit k p) (of_bool b)) = unat p div 2 ^ k + of_bool b" for b
    using small by (cases b) (simp_all add: unat_sat_add unat_shifted)
  moreover have "(p AND (push_bit k 1 - 1) > push_bit (k - 1) 1) \<longleftrightarrow> unat p mod 2 ^ k > 2 ^ (k - 1)"
    "(p AND (push_bit k 1 - 1) = push_bit (k - 1) 1) \<longleftrightarrow> unat p mod 2 ^ k = 2 ^ (k - 1)"
    using assms(1,2) unat_exp [of "k - 1"] unat_low_bits [OF assms(2), of p] by (simp_all only: word_less_nat_alt word_unat_eq_iff)
  ultimately show ?thesis
    unfolding rhe_shift [OF assms(1,3,4)] round_shift_right_def Let_def using assms(1,5) by (simp add: unat_shifted)
qed

end
