(* ===== verification/Numeral_Sound.thy ===== *)
theory Numeral_Sound
  imports Rounding
begin

text \<open>
  Numerals are converted exactly: the end of a hexadecimal conversion rounds the kept and the
  dropped digits together, the scan of the mantissa keeps what the rounding needs, and a clamped
  exponent changes no result.
\<close>

section \<open>Assembling a double\<close>

lemma sat64_id: "- (2 ^ 63) \<le> k \<Longrightarrow> k < 2 ^ 63 \<Longrightarrow> sat64 k = k"
  by (simp add: sat64_def)

text \<open>The pattern of a significand of 53 bits, the leading one included, with a biased exponent.\<close>

lemma assemble:
  assumes "x < 2 ^ 12" "w = of_nat (z * 2 ^ 52 + a)" "a < 2 ^ 52"
  shows "(w AND (push_bit 52 1 - 1)) OR push_bit 52 (of_nat x) = (of_nat (x * 2 ^ 52 + a) :: u64)"
proof -
  have "w AND (push_bit 52 1 - 1) = take_bit 52 w" by (simp add: take_bit_eq_mask mask_eq_exp_minus_1)
  moreover have "take_bit 52 w OR push_bit 52 (of_nat x) = take_bit 52 w + push_bit 52 (of_nat x)"
    by (rule disjunctive_add [symmetric]) (simp add: bit_take_bit_iff bit_push_bit_iff)
  moreover have "take_bit 52 w = of_nat a"
  proof -
    have "take_bit 52 w = of_nat (take_bit 52 (z * 2 ^ 52 + a))" unfolding assms(2) by (rule take_bit_of_nat)
    also have "take_bit 52 (z * 2 ^ 52 + a) = a" using assms(3) by (simp add: take_bit_eq_mod)
    finally show ?thesis .
  qed
  moreover have "push_bit 52 (of_nat x :: u64) = of_nat (x * 2 ^ 52)" by (simp add: push_bit_eq_mult)
  ultimately show ?thesis by simp
qed

lemma exponent_field:
  assumes "z < 2048" "a < 2 ^ 52"
  shows "unat (drop_bit 52 (of_nat (z * 2 ^ 52 + a) :: u64) AND 0x7FF) = z"
proof -
  let ?w = "of_nat (z * 2 ^ 52 + a) :: u64"
  have "z * 2 ^ 52 + a < 2 ^ 64" using assms by simp
  then have w: "unat ?w = z * 2 ^ 52 + a" by (rule unat_of_nat_u64)
  have "drop_bit 52 ?w AND 0x7FF = take_bit 11 (drop_bit 52 ?w)" by (simp add: take_bit_eq_mask mask_eq_exp_minus_1)
  then have "unat (drop_bit 52 ?w AND 0x7FF) = unat (drop_bit 52 ?w) mod 2 ^ 11"
    by (simp only: unsigned_take_bit_eq) (simp only: take_bit_eq_mod)
  also have "unat (drop_bit 52 ?w) = z" unfolding unat_shifted w using assms(2) by simp
  finally show ?thesis using assms(1) by simp
qed

text \<open>The double of an integer of at most 53 bits, or of the first one with 54.\<close>

lemma f64_of_small:
  assumes "0 < unat m" "unat m \<le> 2 ^ 53" and c: "c = floorlog 2 (unat m)"
  obtains g where "real g = real (unat m) * 2 powi (53 - int c)" "2 ^ 52 \<le> g" "g < 2 ^ 53" "0 < c" "c \<le> 54"
    "f64_of_u64 m = of_nat ((c + 1022) * 2 ^ 52 + (g - 2 ^ 52))"
proof -
  let ?M = "unat m"
  have cpos: "0 < c" using assms(1) by (simp add: c floorlog_def)
  have l: "leading (real ?M) (int c - 1)" using leading_nat [OF assms(1)] by (simp add: c)
  have c54: "c \<le> 54" unfolding c by (rule floorlog_leI) (use assms(1,2) in simp_all)
  obtain g where g: "real g = real ?M * 2 powi (53 - int c)"
  proof (cases "c \<le> 53")
    case True
    then have "(2::real) powi (53 - int c) = 2 ^ (53 - c)" by (simp add: power_int_def nat_diff_distrib flip: of_nat_diff)
    then show ?thesis using that [of "?M * 2 ^ (53 - c)"] by simp
  next
    case False
    then have "c = 54" using c54 by simp
    then have "2 ^ 53 \<le> real ?M" using l by (simp add: leading_def)
    then have "?M = 2 ^ 53" using assms(2) by (metis le_antisym of_nat_le_iff of_nat_numeral of_nat_power)
    then show ?thesis using that [of "2 ^ 52"] \<open>c = 54\<close> by (simp add: power_int_def)
  qed
  have "leading (real g) 52" using leading_scale [OF l, of "53 - int c"] by (simp add: g)
  then have g52: "2 ^ 52 \<le> real g" "real g < 2 ^ 53" by (simp_all add: leading_def)
  then have gb: "2 ^ 52 \<le> g" "g < 2 ^ 53" by (metis of_nat_le_iff of_nat_less_iff of_nat_numeral of_nat_power)+
  have "nearest_bits (?M, 1) = near (real ?M) (int c - 1)" using nearest_bits_near [of "(?M, 1)"] l assms(1) by (simp add: ratio_def)
  also have "\<dots> = (c + 1021) * 2 ^ 52 + g"
  proof -
    have u: "max (int c - 1 - 52) (- 1074) = int c - 53" by simp
    have "nat (int c - 53 + 1074) = c + 1021" by simp
    moreover have "rhe (real ?M * 2 powi (- (int c - 53))) = int g" using rhe_of_nat [of g] by (simp add: g)
    ultimately show ?thesis using c54 by (simp add: near_def u Let_def)
  qed
  finally have "f64_of_u64 m = of_nat ((c + 1022) * 2 ^ 52 + (g - 2 ^ 52))"
    using gb(1) by (simp add: f64_of_u64_def algebra_simps)
  then show ?thesis using that g gb cpos c54 by blast
qed

lemma scale_finite:
  assumes m: "0 < unat m" "unat m \<le> 2 ^ 53" and c: "c = floorlog 2 (unat m)"
    and S: "- (2 ^ 62) < S" "S < 2 ^ 62" and E: "E = S + int c - 1" "- 1022 \<le> E"
    and g: "real g = real (unat m) * 2 powi (53 - int c)"
  shows "scale_finite_by_power_of_two (f64_of_u64 m) S = Some (of_nat (if E > 1023 then F64_INFINITY else nat (E + 1022) * 2 ^ 52 + g))"
proof -
  obtain h where h: "real h = real (unat m) * 2 powi (53 - int c)" "2 ^ 52 \<le> h" "h < 2 ^ 53" "0 < c" "c \<le> 54"
    "f64_of_u64 m = of_nat ((c + 1022) * 2 ^ 52 + (h - 2 ^ 52))" by (rule f64_of_small [OF m c])
  have gh: "h = g" using h(1) g by simp
  have a: "g - 2 ^ 52 < 2 ^ 52" using h(2,3) gh by simp
  have field: "unat (drop_bit 52 (f64_of_u64 m) AND 0x7FF) = c + 1022" unfolding h(6) gh using h(5) a by (intro exponent_field) simp_all
  have se: "sat64 (int (c + 1022) - 1023) = int c - 1" using h(4,5) by (simp add: sat64_id)
  have ee: "sat64 (S + (int c - 1)) = E" using E(1) S h(4,5) by (simp add: sat64_id)
  show ?thesis
  proof (cases "E > 1023")
    case True
    then show ?thesis unfolding scale_finite_by_power_of_two_def Let_def field se ee by simp
  next
    case False
    define x where "x = nat (E + 1023)"
    have x: "x < 2 ^ 12" "(of_int (E + 1023) :: u64) = of_nat x" "x = nat (E + 1022) + 1" using False E(2) by (simp_all add: x_def)
    have "(f64_of_u64 m AND (push_bit 52 1 - 1)) OR push_bit 52 (of_int (E + 1023)) = (of_nat (x * 2 ^ 52 + (g - 2 ^ 52)) :: u64)"
      unfolding x(2) by (rule assemble [OF x(1) h(6) [unfolded gh] a])
    also have "x * 2 ^ 52 + (g - 2 ^ 52) = nat (E + 1022) * 2 ^ 52 + g" using h(2) gh by (simp add: x(3))
    finally show ?thesis unfolding scale_finite_by_power_of_two_def Let_def field se ee using False E(2) by simp
  qed
qed

section \<open>The end of a hexadecimal conversion\<close>

text \<open>
  The significant digits that were kept, \<open>P\<close>, and the dropped ones, \<open>\<phi>\<close> of a unit; digits are dropped
  only after sixteen significant ones.
\<close>

definition hex_parts :: "u64 \<Rightarrow> bool \<Rightarrow> real \<Rightarrow> bool" where
  "hex_parts p sticky \<phi> \<longleftrightarrow> 0 < unat p \<and> 0 \<le> \<phi> \<and> \<phi> < 1 \<and> (sticky \<longleftrightarrow> \<phi> \<noteq> 0) \<and> (sticky \<longrightarrow> 2 ^ 60 \<le> unat p)"

lemma parts_leading:
  assumes "hex_parts p sticky \<phi>"
  shows "leading (real (unat p) + \<phi>) (int (significant_bits p) - 1)"
proof -
  let ?b = "significant_bits p"
  have l: "leading (real (unat p)) (int ?b - 1)" using leading_nat [of "unat p"] assms by (simp add: hex_parts_def significant_bits_def)
  have "unat p < 2 ^ ?b" using floorlog_bounds [of "unat p" 2] assms by (simp add: hex_parts_def significant_bits_def)
  then have "real (unat p + 1) \<le> real (2 ^ ?b)" by (intro of_nat_mono) simp
  then have "real (unat p) + 1 \<le> 2 powi int ?b" by (simp only: of_nat_add of_nat_1 of_nat_power of_nat_numeral two_powi_nat)
  moreover have "0 \<le> \<phi>" "\<phi> < 1" using assms by (simp_all add: hex_parts_def)
  ultimately show ?thesis using l unfolding leading_def by simp
qed

lemma significant_bits_bounds:
  assumes "hex_parts p sticky \<phi>"
  shows "0 < significant_bits p" "significant_bits p \<le> 64" "sticky \<Longrightarrow> 61 \<le> significant_bits p"
proof -
  show "0 < significant_bits p" using assms by (simp add: hex_parts_def significant_bits_def floorlog_def)
  show "significant_bits p \<le> 64" unfolding significant_bits_def
    by (rule floorlog_leI) (use assms unat_u64_bound in \<open>simp_all add: hex_parts_def\<close>)
  assume sticky
  then have "2 ^ 60 \<le> unat p" using assms by (simp add: hex_parts_def)
  then have "floorlog 2 (2 ^ 60) \<le> floorlog 2 (unat p)" by (rule floorlog_mono)
  moreover have "floorlog 2 (1 * 2 ^ 60) = floorlog 2 1 + 60" by (rule floorlog_power) simp_all
  moreover have "floorlog 2 1 = 1" by (simp add: floorlog_def)
  ultimately show "61 \<le> significant_bits p" by (simp add: significant_bits_def)
qed

text \<open>A normal result: the rounded significand has 53 bits, or 54 after a carry.\<close>

lemma finish_normal:
  assumes h: "hex_parts p sticky \<phi>" and b: "b = significant_bits p" and s: "- (2 ^ 61) < s" "s < 2 ^ 61"
    and tp: "tp = s + int b - 1" "- 1022 \<le> tp" "tp \<le> 1023"
  shows "scale_finite_by_power_of_two (f64_of_u64 (round_shift_right p (b - 53) sticky)) (sat64 (s + int (b - 53))) =
    Some (of_nat (near ((real (unat p) + \<phi>) * 2 powi s) tp))"
proof -
  let ?y = "real (unat p) + \<phi>" and ?m = "round_shift_right p (b - 53) sticky"
  define G where "G = nat (rhe (?y * 2 powi (53 - int b)))"
  define c where "c = floorlog 2 (unat ?m)"
  have bb: "0 < b" "b \<le> 64" "sticky \<Longrightarrow> 61 \<le> b" using significant_bits_bounds [OF h] by (simp_all add: b)
  have u: "max (tp - 52) (- 1074) = tp - 52" using tp by simp
  have e: "s + - (tp - 52) = 53 - int b" "tp - 52 + 1074 = tp + 1022" using tp(1) by simp_all
  have eq: "?y * 2 powi s * 2 powi (- (tp - 52)) = ?y * 2 powi (53 - int b)"
    unfolding mult.assoc two_powi_add [symmetric] e(1) ..
  have near: "near (?y * 2 powi s) tp = nat (tp + 1022) * 2 ^ 52 + G"
    unfolding near_def u Let_def G_def e(2) eq using tp(3) by simp
  have lead: "leading (?y * 2 powi (53 - int b)) 52" using leading_scale [OF parts_leading [OF h], of "53 - int b"] by (simp add: b)
  have sat: "sat64 (s + int (b - 53)) = s + int (b - 53)" using s bb by (simp add: sat64_id)
  have S: "- (2 ^ 62) < s + int (b - 53)" "s + int (b - 53) < 2 ^ 62" using s bb by simp_all
  show ?thesis
  proof (cases "53 < b")
    case True
    have m: "int (unat ?m) = rhe (?y * 2 powi (53 - int b))"
      using round_shift_right_rhe [of "b - 53" \<phi> sticky p] h True bb by (simp add: hex_parts_def of_nat_diff)
    have y: "2 ^ 52 \<le> ?y * 2 powi (53 - int b)" "?y * 2 powi (53 - int b) < 2 ^ 53" using lead by (simp_all add: leading_def)
    have "2 ^ 52 \<le> \<lfloor>?y * 2 powi (53 - int b)\<rfloor>" "\<lfloor>?y * 2 powi (53 - int b)\<rfloor> < 2 ^ 53"
      using y by (simp_all add: le_floor_iff floor_less_iff)
    then have "2 ^ 52 \<le> rhe (?y * 2 powi (53 - int b))" "rhe (?y * 2 powi (53 - int b)) \<le> 2 ^ 53" by (auto simp: rhe_def Let_def)
    moreover have "unat ?m = G" unfolding G_def m [symmetric] by (rule nat_int [symmetric])
    ultimately have G: "2 ^ 52 \<le> G" "G \<le> 2 ^ 53" "unat ?m = G" by (simp_all add: G_def)
    show ?thesis
    proof (cases "G = 2 ^ 53")
      case True
      have "floorlog 2 (1 * 2 ^ 53) = floorlog 2 1 + 53" by (rule floorlog_power) simp_all
      then have c: "c = 54" by (simp add: c_def G True floorlog_def)
      have "scale_finite_by_power_of_two (f64_of_u64 ?m) (s + int (b - 53)) =
          Some (of_nat (if tp + 1 > 1023 then F64_INFINITY else nat (tp + 1 + 1022) * 2 ^ 52 + 2 ^ 52))"
        by (rule scale_finite [OF _ _ c_def S]) (use G True c tp \<open>53 < b\<close> in \<open>simp_all add: power_int_def of_nat_diff\<close>)
      moreover have "(if tp + 1 > 1023 then F64_INFINITY else nat (tp + 1 + 1022) * 2 ^ 52 + 2 ^ 52) = nat (tp + 1022) * 2 ^ 52 + G"
      proof (cases "tp = 1023")
        case False
        then have "nat (tp + 1 + 1022) = nat (tp + 1022) + 1" using tp by simp
        then show ?thesis using False tp True by simp
      qed (simp add: True F64_INFINITY_def)
      ultimately show ?thesis unfolding sat near by simp
    next
      case False
      have "c \<le> 53" unfolding c_def by (rule floorlog_leI) (use G False in simp_all)
      moreover have "53 \<le> c" unfolding c_def by (rule floorlog_geI) (use G in simp_all)
      ultimately have c: "c = 53" by simp
      have "scale_finite_by_power_of_two (f64_of_u64 ?m) (s + int (b - 53)) =
          Some (of_nat (if tp > 1023 then F64_INFINITY else nat (tp + 1022) * 2 ^ 52 + G))"
        by (rule scale_finite [OF _ _ c_def S]) (use G c tp \<open>53 < b\<close> in \<open>simp_all add: of_nat_diff\<close>)
      then show ?thesis using tp(3) unfolding sat near by simp
    qed
  next
    case False
    then have exact: "\<phi> = 0" "?m = p" using bb h by (auto simp: round_shift_right_def hex_parts_def)
    have "unat p < 2 ^ b" using floorlog_bounds [of "unat p" 2] h by (simp add: hex_parts_def b significant_bits_def)
    also have "(2::nat) ^ b \<le> 2 ^ 53" using False by (intro power_increasing) simp_all
    finally have p: "0 < unat p" "unat p \<le> 2 ^ 53" using h by (simp_all add: hex_parts_def)
    have c: "c = b" unfolding c_def exact(2) by (simp add: b significant_bits_def)
    have "(2::real) powi (53 - int b) = 2 ^ (53 - b)" using False by (simp add: power_int_def nat_diff_distrib flip: of_nat_diff)
    then have g: "real (unat p) * 2 powi (53 - int b) = real (unat p * 2 ^ (53 - b))" by simp
    then have G: "real G = real (unat p) * 2 powi (53 - int b)" unfolding G_def exact add_0_right g rhe_of_nat by simp
    have "scale_finite_by_power_of_two (f64_of_u64 p) (s + int (b - 53)) =
        Some (of_nat (if tp > 1023 then F64_INFINITY else nat (tp + 1022) * 2 ^ 52 + G))"
    proof (rule scale_finite [OF p c_def [unfolded exact(2)] S])
      show "real G = real (unat p) * 2 powi (53 - int c)" unfolding c by (rule G)
    qed (use c tp False in simp_all)
    then show ?thesis using tp(3) unfolding sat near exact(2) by simp
  qed
qed

text \<open>A subnormal result counts units of \<open>2\<^sup>-\<^sup>1\<^sup>0\<^sup>7\<^sup>4\<close>.\<close>

lemma finish_subnormal:
  assumes h: "hex_parts p sticky \<phi>" and b: "b = significant_bits p" and s: "- (2 ^ 61) < s" "s < 2 ^ 61"
    and tp: "tp = s + int b - 1" "- 1075 \<le> tp" "tp < - 1022"
  shows "round_hex_subnormal p sticky s = of_nat (near ((real (unat p) + \<phi>) * 2 powi s) tp)"
proof -
  let ?y = "real (unat p) + \<phi>"
  have bb: "0 < b" "b \<le> 64" "sticky \<Longrightarrow> 61 \<le> b" using significant_bits_bounds [OF h] by (simp_all add: b)
  have u: "max (tp - 52) (- 1074) = - 1074" using tp by simp
  have near: "near (?y * 2 powi s) tp = nat (rhe (?y * 2 powi (s + 1074)))"
    using tp(3) unfolding near_def u Let_def by (simp add: mult.assoc two_powi_add)
  have sat: "sat64 (- 1074 - s) = - 1074 - s" using s by (simp add: sat64_id)
  consider (left) "- 1074 - s \<le> 0" | (right) "0 < - 1074 - s" "- 1074 - s < 64" | (half) "- 1074 - s = 64" | (far) "64 < - 1074 - s" by linarith
  then show ?thesis
  proof cases
    case left
    define k where "k = nat (s + 1074)"
    have k: "s + 1074 = int k" "b + k \<le> 52" using left tp by (simp_all add: k_def)
    have exact: "\<phi> = 0" using bb h k(2) by (auto simp: hex_parts_def)
    have "?y * 2 powi (s + 1074) = real (unat p * 2 ^ k)" unfolding k(1) exact by simp
    then have "near (?y * 2 powi s) tp = unat p * 2 ^ k" unfolding near by (simp only: rhe_of_nat nat_int)
    moreover have "round_hex_subnormal p sticky s = push_bit k p"
      unfolding round_hex_subnormal_def Let_def sat using left k by (simp add: sat64_id k_def [symmetric])
    moreover have "push_bit k p = of_nat (unat p * 2 ^ k)" by (simp add: push_bit_eq_mult)
    ultimately show ?thesis by simp
  next
    case right
    define k where "k = nat (- 1074 - s)"
    have k: "s + 1074 = - int k" "0 < k" "k < 64" using right by (simp_all add: k_def)
    have "round_hex_subnormal p sticky s = round_shift_right p k sticky"
      unfolding round_hex_subnormal_def Let_def sat using right by (simp add: k_def)
    moreover have "unat (round_shift_right p k sticky) = near (?y * 2 powi s) tp"
      unfolding near k(1) using round_shift_right_rhe [OF k(2,3), of \<phi> sticky p] h by (metis hex_parts_def nat_int)
    moreover have "round_shift_right p k sticky = of_nat (unat (round_shift_right p k sticky))" by simp
    ultimately show ?thesis by metis
  next
    case half
    have e: "s + 1074 = - int 64" using half by simp
    have small: "unat p div 2 ^ 64 = 0" "unat p mod 2 ^ 64 = unat p" using unat_u64_bound [of p] by simp_all
    have "rhe (?y * 2 powi (s + 1074)) = (if unat p > 2 ^ 63 \<or> (unat p = 2 ^ 63 \<and> \<phi> \<noteq> 0) then 1 else 0)"
      unfolding e using rhe_shift [of 64 \<phi> "unat p"] h small by (simp add: hex_parts_def)
    moreover have "unat (push_bit 63 1 :: u64) = 2 ^ 63" by (rule unat_exp) simp
    ultimately show ?thesis unfolding near round_hex_subnormal_def Let_def sat half
      using h by (simp add: sat64_def word_less_nat_alt word_unat_eq_iff hex_parts_def)
  next
    case far
    then show ?thesis using tp bb by simp
  qed
qed

text \<open>Values below half of the smallest subnormal number are rounded to zero.\<close>

lemma near_tiny:
  assumes "leading x e" "e < - 1075"
  shows "near x e = 0"
proof -
  have pos: "0 \<le> x" using assms(1) two_powi_pos [of e] unfolding leading_def by linarith
  have "x < 2 powi (e + 1)" using assms(1) by (simp add: leading_def)
  also have "\<dots> \<le> 2 powi (- 1075)" using assms(2) by (intro two_powi_mono) simp
  finally have "x * 2 powi 1074 \<le> 2 powi (- 1075) * 2 powi 1074" by (intro mult_right_mono) simp_all
  also have "\<dots> = 1 / 2" unfolding two_powi_add [symmetric] by (simp add: power_int_def)
  finally have "rhe (x * 2 powi 1074) = 0" using pos by (intro rhe_small) simp_all
  moreover have "max (e - 52) (- 1074) = - 1074" using assms(2) by simp
  ultimately show ?thesis using assms(2) unfolding near_def Let_def by simp
qed

lemma finish_hex_near:
  assumes h: "hex_parts p sticky \<phi>" and s: "- (2 ^ 61) < s" "s < 2 ^ 61"
  shows "finish_hex p sticky s = Some (of_nat (near ((real (unat p) + \<phi>) * 2 powi s) (s + int (significant_bits p) - 1)))"
proof -
  let ?y = "real (unat p) + \<phi>" and ?b = "significant_bits p"
  define tp where "tp = s + int ?b - 1"
  have bb: "0 < ?b" "?b \<le> 64" using significant_bits_bounds [OF h] by simp_all
  have e: "sat64 (s + int (?b - 1)) = tp" using s bb by (simp add: sat64_id tp_def of_nat_diff)
  note f = finish_hex_def [of p sticky s, unfolded Let_def e]
  have lead: "leading (?y * 2 powi s) tp" using leading_scale [OF parts_leading [OF h], of s] by (simp add: tp_def algebra_simps)
  consider "tp > 1023" | "tp < - 1075" | "- 1075 \<le> tp" "tp < - 1022" | "- 1022 \<le> tp" "tp \<le> 1023" by linarith
  then have "finish_hex p sticky s = Some (of_nat (near (?y * 2 powi s) tp))"
  proof cases
    case 1
    then show ?thesis by (simp add: f near_def)
  next
    case 2
    then show ?thesis unfolding f near_tiny [OF lead 2] by simp
  next
    case 3
    then show ?thesis using finish_subnormal [OF h refl s tp_def] by (simp add: f)
  next
    case 4
    then show ?thesis using finish_normal [OF h refl s tp_def] by (simp add: f)
  qed
  then show ?thesis unfolding tp_def .
qed

section \<open>Scanning the mantissa\<close>

lemma mantissa_loop_iff:
  "dots \<le> 1 \<Longrightarrow> mantissa_loop valid dots digits bs =
     (if list_all (\<lambda>b. b = byte CHR ''.'' \<or> valid b) bs \<and> dots + length (filter (\<lambda>b. b = byte CHR ''.'') bs) \<le> 1
      then Some (digits + length (filter (\<lambda>b. b \<noteq> byte CHR ''.'') bs)) else None)"
  by (induction bs arbitrary: dots digits) simp_all

definition hex_digit :: "u8 \<Rightarrow> nat" where
  "hex_digit b = (case hex_value b of Some d \<Rightarrow> unat d | None \<Rightarrow> 0)"

lemma unat_in_range: "lo \<le> b \<Longrightarrow> b \<le> hi \<Longrightarrow> unat (b - lo) \<le> unat hi - unat lo" for b :: u8
  by (simp add: unat_sub word_le_nat_alt diff_le_mono)

lemma unat_letter: "unat w \<le> 5 \<Longrightarrow> unat (w + 10) < 16" for w :: u8
  by (subst unat_add_lem [THEN iffD1]) simp_all

lemma hex_value_digit: "is_ascii_hexdigit b \<Longrightarrow> hex_value b \<noteq> None \<and> hex_digit b < 16"
proof -
  assume h: "is_ascii_hexdigit b"
  have "is_ascii_digit b \<Longrightarrow> unat (b - byte CHR ''0'') \<le> 9"
    unfolding is_ascii_digit_def using unat_in_range [of "byte CHR ''0''" b "byte CHR ''9''"] by simp
  moreover have "byte CHR ''a'' \<le> b \<Longrightarrow> b \<le> byte CHR ''f'' \<Longrightarrow> unat (b - byte CHR ''a'' + 10) < 16"
    using unat_in_range [of "byte CHR ''a''" b "byte CHR ''f''"] by (intro unat_letter) simp
  moreover have "byte CHR ''A'' \<le> b \<Longrightarrow> b \<le> byte CHR ''F'' \<Longrightarrow> unat (b - byte CHR ''A'' + 10) < 16"
    using unat_in_range [of "byte CHR ''A''" b "byte CHR ''F''"] by (intro unat_letter) simp
  ultimately show ?thesis using h unfolding is_ascii_hexdigit_def hex_digit_def hex_value_def by (auto split: if_splits)
qed

text \<open>
  The state of the scan after the digits of the number \<open>D\<close>: the kept prefix, and the rest \<open>R\<close> of the
  dropped digits, of which only its being nonzero is remembered.
\<close>

definition hex_scanned :: "nat \<Rightarrow> nat \<Rightarrow> nat \<Rightarrow> nat \<Rightarrow> hex_scan \<Rightarrow> bool" where
  "hex_scanned D n d R s \<longleftrightarrow>
     hx_significant s = int n \<and> hx_dropped s = int d \<and> D = unat (hx_prefix s) * 16 ^ d + R \<and> R < 16 ^ d \<and>
     (hx_dropped_nonzero s \<longleftrightarrow> R \<noteq> 0) \<and> n \<le> 16 \<and> unat (hx_prefix s) < 16 ^ n \<and>
     (0 < n \<longrightarrow> 16 ^ n \<le> unat (hx_prefix s) * 16) \<and> (0 < d \<longrightarrow> n = 16)"

lemma push_digit:
  assumes "unat p < 16 ^ n" "n < 16" "unat d < 16"
  shows "unat (sat_add (sat_mul p 16) (ucast d :: u64)) = unat p * 16 + unat (d :: u8)"
proof -
  have "(16::nat) ^ n \<le> 16 ^ 15" using assms(2) by (intro power_increasing) simp_all
  then have p: "unat p < 16 ^ 15" using assms(1) by simp
  have "unat d < 2 ^ 64" using assms(3) by simp
  then have c: "unat (ucast d :: u64) = unat d" by (simp add: unsigned_ucast_eq take_bit_nat_eq_self)
  have "unat (sat_mul p 16) = unat p * 16" using p by (simp add: unat_sat_mul)
  then show ?thesis using p assms(3) by (simp add: unat_sat_add c)
qed

lemma hex_digit_step_scanned:
  assumes h: "hex_scanned D n d R s" and c: "unat c < 16" and d: "d < 2 ^ 60"
  shows "\<exists>n' d' R'. hex_scanned (D * 16 + unat c) n' d' R' (hex_digit_step c s) \<and> d' \<le> d + 1"
proof -
  consider (zero) "n = 0" "c = 0" | (kept) "n < 16" "\<not> (n = 0 \<and> c = 0)" | (dropped) "n = 16" using h by (fastforce simp: hex_scanned_def)
  then show ?thesis
  proof cases
    case zero
    then have "hex_scanned (D * 16 + unat c) n d R (hex_digit_step c s)"
      using h by (auto simp: hex_scanned_def hex_digit_step_def Let_def)
    then show ?thesis by (metis le_add1)
  next
    case kept
    have d0: "d = 0" "R = 0" "unat (hx_prefix s) < 16 ^ n" using h kept(1) by (auto simp: hex_scanned_def)
    have u: "unat (sat_add (sat_mul (hx_prefix s) 16) (ucast c)) = unat (hx_prefix s) * 16 + unat c"
      using push_digit [OF d0(3) kept(1) c] .
    have "sat64 (int n + 1) = int (n + 1)" using kept(1) by (simp add: sat64_id)
    moreover have "16 ^ n \<le> unat (hx_prefix s) * 16 + unat c"
      using h kept(2) c by (cases "n = 0") (auto simp: hex_scanned_def unat_gt_0 Suc_le_eq)
    ultimately have "hex_scanned (D * 16 + unat c) (n + 1) 0 0 (hex_digit_step c s)"
      using h kept c d0 u by (auto simp: hex_scanned_def hex_digit_step_def Let_def MAX_SIGNIFICANT_HEX_DIGITS_def)
    then show ?thesis by (metis le0)
  next
    case dropped
    have s: "sat64 (int d + 1) = int (d + 1)" using d by (simp add: sat64_id)
    have "(R * 16 + unat c = 0) = (R = 0 \<and> c = 0)" by (auto simp: unat_eq_0)
    moreover have "R * 16 + unat c < 16 ^ (d + 1)" using h c by (simp add: hex_scanned_def)
    ultimately have "hex_scanned (D * 16 + unat c) n (d + 1) (R * 16 + unat c) (hex_digit_step c s)"
      using h dropped s by (auto simp: hex_scanned_def hex_digit_step_def Let_def MAX_SIGNIFICANT_HEX_DIGITS_def algebra_simps)
    then show ?thesis by blast
  qed
qed

lemma hex_digit_step_fraction [simp]:
  "hx_fractional (hex_digit_step c s) = hx_fractional s"
  "hx_fractional_digits (hex_digit_step c s) =
     (if hx_fractional s then sat64 (hx_fractional_digits s + 1) else hx_fractional_digits s)"
  by (simp_all add: hex_digit_step_def Let_def)

definition hex_fold :: "nat \<Rightarrow> u8 list \<Rightarrow> nat" where
  "hex_fold D bs = foldl (\<lambda>v d. v * 16 + d) D (map hex_digit (filter (\<lambda>b. b \<noteq> byte CHR ''.'') bs))"

lemma fraction_length_Cons:
  "fraction_length (b # bs) = (if b = byte CHR ''.'' then length bs else fraction_length bs)"
  by (cases "position (\<lambda>b. b = byte CHR ''.'') bs") (simp_all add: fraction_length_def)

lemma fraction_length_le: "fraction_length bs \<le> length bs"
  by (simp add: fraction_length_def split: option.split)

lemma hex_scan_loop_scanned:
  assumes "list_all (\<lambda>b. b = byte CHR ''.'' \<or> is_ascii_hexdigit b) bs"
    "of_bool (hx_fractional s) + length (filter (\<lambda>b. b = byte CHR ''.'') bs) \<le> (1::nat)"
    "hex_scanned D n d R s" "d + length bs < 2 ^ 60" "hx_fractional_digits s = int f" "f + length bs < 2 ^ 60"
  shows "\<exists>s' n' d' R'. hex_scan_loop bs s = Some s' \<and> hex_scanned (hex_fold D bs) n' d' R' s' \<and> d' \<le> d + length bs \<and>
    hx_fractional_digits s' = int (f + (if hx_fractional s then length bs else fraction_length bs))"
  using assms
proof (induction bs arbitrary: s D n d R f)
  case Nil
  then show ?case by (auto simp: hex_fold_def fraction_length_def)
next
  case (Cons b bs)
  show ?case
  proof (cases "b = byte CHR ''.''")
    case True
    have "hex_scanned D n d R (s\<lparr> hx_fractional := True \<rparr>)" using Cons.prems(3) by (simp add: hex_scanned_def)
    then show ?thesis
      using Cons.IH [of "s\<lparr> hx_fractional := True \<rparr>" D n d R f] Cons.prems True
      by (force simp: hex_fold_def fraction_length_Cons)
  next
    case False
    then obtain c where c: "hex_value b = Some c" "unat c < 16" "hex_digit b = unat c"
      using Cons.prems(1) hex_value_digit [of b] by (auto simp: hex_digit_def)
    obtain n' d' R' where st: "hex_scanned (D * 16 + unat c) n' d' R' (hex_digit_step c s)" "d' \<le> d + 1"
      using hex_digit_step_scanned [OF Cons.prems(3) c(2)] Cons.prems(4) by auto
    define f' where "f' = (if hx_fractional s then f + 1 else f)"
    have "hx_fractional_digits (hex_digit_step c s) = int f'"
      using Cons.prems(5,6) by (simp add: f'_def sat64_id)
    then obtain s'' n'' d'' R'' where
      l: "hex_scan_loop bs (hex_digit_step c s) = Some s''" "hex_scanned (hex_fold (D * 16 + unat c) bs) n'' d'' R'' s''"
        "d'' \<le> d' + length bs"
        "hx_fractional_digits s'' = int (f' + (if hx_fractional s then length bs else fraction_length bs))"
      using Cons.IH [OF _ _ st(1)] Cons.prems st(2) False by (auto simp: f'_def split: if_splits)
    have "hex_fold D (b # bs) = hex_fold (D * 16 + unat c) bs" using False by (simp add: hex_fold_def c(3))
    moreover have "hx_fractional_digits s'' = int (f + (if hx_fractional s then length (b # bs) else fraction_length (b # bs)))"
      using l(4) False by (simp add: f'_def fraction_length_Cons)
    moreover have "hex_scan_loop (b # bs) s = Some s''" using False c(1) l(1) by simp
    moreover have "d'' \<le> d + length (b # bs)" using l(3) st(2) by simp
    ultimately show ?thesis using l(2) by metis
  qed
qed

section \<open>The exponent\<close>

lemma clamped_digits:
  assumes "0 \<le> bound" "bound < 2 ^ 62"
  shows "foldl (\<lambda>m b. min (sat64 (sat64 (m * 10) + int (unat (b - byte CHR ''0'')))) bound) (min (int v) bound) ds =
    min (int (foldl (\<lambda>v d. v * 10 + d) v (map (\<lambda>b. unat (b - byte CHR ''0'')) ds))) bound"
proof (induction ds arbitrary: v)
  case (Cons b ds)
  have e: "min (sat64 (sat64 (min (int v) bound * 10) + int k)) bound = min (int (v * 10 + k)) bound" for k :: nat
    using assms by (auto simp: sat64_def min_def max_def)
  show ?case unfolding foldl.simps list.map e by (rule Cons.IH)
qed simp

lemma parse_signed_clamped:
  assumes "0 \<le> bound" "bound < 2 ^ 62"
  shows "parse_signed_i64_saturating bs bound =
    (if validate_signed_digits bs then Some (max (- bound) (min bound (signed_value bs))) else None)"
proof -
  have "foldl (\<lambda>m b. min (sat64 (sat64 (m * 10) + int (unat (b - byte CHR ''0'')))) bound) 0 ds =
      min (int (digits_value 10 (map (\<lambda>b. unat (b - byte CHR ''0'')) ds))) bound" for ds
    using clamped_digits [OF assms, of 0 ds] assms(1) by (simp add: digits_value_def)
  then show ?thesis using assms(1) by (simp add: parse_signed_i64_saturating_def signed_value_def Let_def split: prod.split) (auto simp: min_def max_def)
qed

section \<open>Exact values\<close>

text \<open>
  What a numeral denotes: digits of its radix with at most one point and at least one digit, an
  optional exponent, and the exact value as a ratio of naturals.
\<close>

definition numeral_syntax :: "(u8 \<Rightarrow> bool) \<Rightarrow> u8 list \<Rightarrow> u8 list option \<Rightarrow> bool" where
  "numeral_syntax valid m e \<longleftrightarrow>
     list_all (\<lambda>b. b = byte CHR ''.'' \<or> valid b) m \<and> length (filter (\<lambda>b. b = byte CHR ''.'') m) \<le> 1 \<and>
     filter (\<lambda>b. b \<noteq> byte CHR ''.'') m \<noteq> [] \<and> (case e of None \<Rightarrow> True | Some x \<Rightarrow> validate_signed_digits x)"

definition exponent_of :: "u8 list option \<Rightarrow> int" where
  "exponent_of e = (case e of None \<Rightarrow> 0 | Some x \<Rightarrow> signed_value x)"

definition hex_ratio :: "u8 list \<Rightarrow> u8 list option \<Rightarrow> nat \<times> nat" where
  "hex_ratio m e = power_ratio (hex_fold 0 m) 2 (exponent_of e - 4 * int (fraction_length m))"

definition is_hex :: "u8 list \<Rightarrow> bool" where
  "is_hex body \<longleftrightarrow> take 2 body = map byte ''0x'' \<or> take 2 body = map byte ''0X''"

definition numeral_value :: "u8 list \<Rightarrow> (bool \<times> nat \<times> nat) option" where
  "numeral_value input =
     (case strip_sign (trim_lua_whitespace input) of (negative, body) \<Rightarrow>
        if is_hex body
        then (case split_exponent (drop 2 body) (byte CHR ''p'') (byte CHR ''P'') of
                None \<Rightarrow> None
              | Some (m, e) \<Rightarrow> if numeral_syntax is_ascii_hexdigit m e then Some (negative, hex_ratio m e) else None)
        else (case split_exponent body (byte CHR ''e'') (byte CHR ''E'') of
                None \<Rightarrow> None
              | Some (m, e) \<Rightarrow> if numeral_syntax is_ascii_digit m e then Some (negative, decimal_ratio m e) else None))"

text \<open>The double nearest to it.\<close>

definition numeral_bits :: "u8 list \<Rightarrow> u64 option" where
  "numeral_bits input =
     map_option (\<lambda>(negative, q). if negative then f64_neg (of_nat (nearest_bits q)) else of_nat (nearest_bits q)) (numeral_value input)"

lemma validate_mantissa_iff:
  "validate_mantissa m valid =
     (if list_all (\<lambda>b. b = byte CHR ''.'' \<or> valid b) m \<and> length (filter (\<lambda>b. b = byte CHR ''.'') m) \<le> 1
      then Some (length (filter (\<lambda>b. b \<noteq> byte CHR ''.'') m)) else None)"
  unfolding validate_mantissa_def by (subst mantissa_loop_iff) simp_all

lemma parse_decimal_value:
  "parse_decimal body =
     (case split_exponent body (byte CHR ''e'') (byte CHR ''E'') of
        None \<Rightarrow> None
      | Some (m, e) \<Rightarrow> if numeral_syntax is_ascii_digit m e then Some (of_nat (nearest_bits (decimal_ratio m e))) else None)"
  unfolding parse_decimal_def validate_mantissa_iff numeral_syntax_def
  by (auto split: option.split nat.split)

lemma ratio_power: "ratio (power_ratio v 2 e) = real v * 2 powi e"
  by (simp add: ratio_def power_ratio_def power_int_def field_simps)

lemma power_ratio_pos: "0 < v \<Longrightarrow> 0 < fst (power_ratio v 2 e) \<and> 0 < snd (power_ratio v 2 e)"
  by (simp add: power_ratio_def)

text \<open>The scan's result in the terms of the rounding.\<close>

lemma scanned_parts:
  assumes h: "hex_scanned D n d R s" and n: "0 < n"
  shows "hex_parts (hx_prefix s) (hx_dropped_nonzero s) (real R / 16 ^ d)"
    "real D = (real (unat (hx_prefix s)) + real R / 16 ^ d) * 2 powi (4 * int d)"
proof -
  have R: "real R < real (16 ^ d)" using h by (simp add: hex_scanned_def)
  have p: "0 < unat (hx_prefix s)" using h n by (auto simp: hex_scanned_def intro: ccontr)
  have "2 ^ 60 \<le> unat (hx_prefix s)" if "R \<noteq> 0"
  proof -
    have "n = 16" using h that by (cases d) (auto simp: hex_scanned_def)
    then show ?thesis using h by (simp add: hex_scanned_def)
  qed
  then show "hex_parts (hx_prefix s) (hx_dropped_nonzero s) (real R / 16 ^ d)"
    using h p R by (auto simp: hex_parts_def hex_scanned_def)
  have "4 * int d = int (4 * d)" by simp
  then have "(2::real) powi (4 * int d) = 16 ^ d" by (simp only: two_powi_nat power_mult) simp
  moreover have "real D = real (unat (hx_prefix s)) * 16 ^ d + real R" using h by (simp add: hex_scanned_def)
  ultimately show "real D = (real (unat (hx_prefix s)) + real R / 16 ^ d) * 2 powi (4 * int d)" by (simp add: field_simps)
qed

text \<open>
  An exponent beyond four bits per byte of the mantissa and 2048 more is the limit: overflow and
  underflow stay what they are.
\<close>

lemma finish_hex_clamped:
  assumes h: "hex_parts p sticky \<phi>" and d: "d \<le> len" and f: "f \<le> len" and len: "len < 2 ^ 57"
    and bound: "bound = 4 * int len + 2048" and E': "E' = max (- bound) (min bound E)"
    and c: "c = E + 4 * (int d - int f)"
  shows "finish_hex p sticky (E' + 4 * (int d - int f)) =
    Some (of_nat (near ((real (unat p) + \<phi>) * 2 powi c) (c + int (significant_bits p) - 1)))"
proof -
  have b: "0 < significant_bits p" "significant_bits p \<le> 64" using significant_bits_bounds [OF h] by simp_all
  have "- bound \<le> E'" "E' \<le> bound" using bound by (simp_all add: E')
  then have s: "- (2 ^ 61) < E' + 4 * (int d - int f)" "E' + 4 * (int d - int f) < 2 ^ 61"
    using d f len bound by simp_all
  have lead: "leading ((real (unat p) + \<phi>) * 2 powi k) (k + int (significant_bits p) - 1)" for k
    using leading_scale [OF parts_leading [OF h], of k] by (simp add: algebra_simps)
  note fin = finish_hex_near [OF h s]
  consider "E' = E" | "E' < E" "E' = bound" | "E < E'" "E' = - bound" using bound E' by linarith
  then show ?thesis
  proof cases
    case 1
    then show ?thesis using fin by (simp add: c)
  next
    case 2
    then have "E' + 4 * (int d - int f) + int (significant_bits p) - 1 > 1023" "c + int (significant_bits p) - 1 > 1023"
      using b f bound c by simp_all
    then show ?thesis using fin by (simp add: near_def)
  next
    case 3
    then have "E' + 4 * (int d - int f) + int (significant_bits p) - 1 < - 1075" "c + int (significant_bits p) - 1 < - 1075"
      using b d bound c by simp_all
    then show ?thesis unfolding fin using near_tiny [OF lead] by metis
  qed
qed

lemma parse_hex_value:
  assumes len: "length bs < 2 ^ 57"
  shows "parse_hex bs =
     Some (case split_exponent bs (byte CHR ''p'') (byte CHR ''P'') of
        None \<Rightarrow> None
      | Some (m, e) \<Rightarrow> if numeral_syntax is_ascii_hexdigit m e then Some (of_nat (nearest_bits (hex_ratio m e))) else None)"
proof (cases "split_exponent bs (byte CHR ''p'') (byte CHR ''P'')")
  case (Some me)
  obtain m e where me: "me = (m, e)" by fastforce
  have lm: "length m < 2 ^ 57" using len Some me by (auto simp: split_exponent_def split: option.splits if_splits)
  define bound where "bound = 4 * int (length m) + 2048"
  have lim: "sat64 (sat64 (int (length m) * 4) + 2048) = bound" using lm by (simp add: sat64_id bound_def)
  have bb: "0 \<le> bound" "bound < 2 ^ 62" using lm by (simp_all add: bound_def)
  show ?thesis
  proof (cases "numeral_syntax is_ascii_hexdigit m e")
    case False
    then show ?thesis unfolding parse_hex_def Some me option.case prod.case Let_def lim validate_mantissa_iff numeral_syntax_def
      by (auto simp: parse_signed_clamped [OF bb] split: option.splits nat.split)
  next
    case True
    define E where "E = exponent_of e"
    define E' where "E' = max (- bound) (min bound E)"
    have ex: "(case e of Some x \<Rightarrow> parse_signed_i64_saturating x bound | None \<Rightarrow> Some 0) = Some E'"
      using True bb(1) by (auto simp: parse_signed_clamped [OF bb] numeral_syntax_def E'_def E_def exponent_of_def split: option.splits)
    have vm: "validate_mantissa m is_ascii_hexdigit = Some (Suc (length (filter (\<lambda>b. b \<noteq> byte CHR ''.'') m) - 1))"
      using True unfolding validate_mantissa_iff numeral_syntax_def by simp
    have "hex_scanned 0 0 0 0 hex_scan_new" by (simp add: hex_scanned_def hex_scan_new_def)
    then obtain s n d R where sc: "hex_scan_loop m hex_scan_new = Some s" "hex_scanned (hex_fold 0 m) n d R s" "d \<le> length m"
        "hx_fractional_digits s = int (fraction_length m)"
      using hex_scan_loop_scanned [of m hex_scan_new 0 0 0 0 0] True lm by (auto simp: numeral_syntax_def hex_scan_new_def)
    have sig: "hx_significant s = int n" "hx_dropped s = int d" using sc(2) by (simp_all add: hex_scanned_def)
    note fl = fraction_length_le [of m]
    have adj: "sat64 (sat64 (hx_dropped s - hx_fractional_digits s) * 4) = 4 * (int d - int (fraction_length m))"
      using sc(3) fl lm by (simp add: sig sc(4) sat64_id)
    have scale: "sat64 (E' + 4 * (int d - int (fraction_length m))) = E' + 4 * (int d - int (fraction_length m))"
      using sc(3) fl lm by (simp add: sat64_id E'_def bound_def)
    have ph: "parse_hex bs = (if n = 0 then Some (Some 0)
        else map_option Some (finish_hex (hx_prefix s) (hx_dropped_nonzero s) (E' + 4 * (int d - int (fraction_length m)))))"
      unfolding parse_hex_def Some me option.case prod.case Let_def lim vm nat.case ex sc(1) adj scale sig(1) by simp
    have "parse_hex bs = Some (Some (of_nat (nearest_bits (hex_ratio m e))))"
    proof (cases "n = 0")
      case True
      then have "hex_fold 0 m = 0" using sc(2) by (auto simp: hex_scanned_def)
      then show ?thesis using True by (simp add: ph hex_ratio_def nearest_bits_def power_ratio_def)
    next
      case False
      define c where "c = E + 4 * (int d - int (fraction_length m))"
      let ?y = "real (unat (hx_prefix s)) + real R / 16 ^ d"
      have parts: "hex_parts (hx_prefix s) (hx_dropped_nonzero s) (real R / 16 ^ d)" "real (hex_fold 0 m) = ?y * 2 powi (4 * int d)"
        using scanned_parts [OF sc(2)] False by simp_all
      have r: "ratio (hex_ratio m e) = ?y * 2 powi c"
        unfolding hex_ratio_def ratio_power parts(2) mult.assoc two_powi_add [symmetric] c_def E_def by (simp add: algebra_simps)
      have "leading (?y * 2 powi c) (c + int (significant_bits (hx_prefix s)) - 1)"
        using leading_scale [OF parts_leading [OF parts(1)], of c] by (simp add: algebra_simps)
      moreover have "0 < hex_fold 0 m" using parts sc(2) by (auto simp: hex_parts_def hex_scanned_def)
      ultimately have "nearest_bits (hex_ratio m e) = near (?y * 2 powi c) (c + int (significant_bits (hx_prefix s)) - 1)"
        using nearest_bits_near [of "hex_ratio m e"] power_ratio_pos [of "hex_fold 0 m"] r by (simp add: hex_ratio_def)
      then show ?thesis
        using finish_hex_clamped [OF parts(1) sc(3) fl lm bound_def E'_def c_def] False by (simp add: ph)
    qed
    then show ?thesis using True unfolding Some me by simp
  qed
qed (simp add: parse_hex_def)

lemma parse_lua_numeral_bits:
  assumes "length input < 2 ^ 57"
  shows "parse_lua_numeral input = Some (numeral_bits input)"
proof -
  obtain negative body where b: "strip_sign (trim_lua_whitespace input) = (negative, body)" by fastforce
  have "length (trim_lua_whitespace input) \<le> length input"
    unfolding trim_lua_whitespace_def length_rev by (metis le_trans length_dropWhile_le length_rev)
  moreover have "length (snd (strip_sign bs)) \<le> length bs" for bs by (simp add: strip_sign_def split: list.split)
  then have "length body \<le> length (trim_lua_whitespace input)" using b by (metis snd_conv)
  ultimately have len: "length (drop 2 body) < 2 ^ 57" using assms by simp
  show ?thesis
    unfolding parse_lua_numeral_def numeral_bits_def numeral_value_def b prod.case parse_hex_value [OF len] parse_decimal_value is_hex_def [symmetric]
    by (simp split: option.split)
qed

text \<open>
  C16 (numeral.rs, parse_lua_numeral): for every text the conversion ends without a failed assertion; it
  accepts exactly the numerals of the grammar, decimal or hexadecimal with an optional point and
  exponent, and its result is the double nearest to the exact value, ties to even: the sixteen
  hexadecimal digits kept, the sticky bit for the dropped ones, the clamped exponent and the
  assembly of the bits lose nothing, at overflow and for subnormal results as well.
\<close>

theorem parse_lua_numeral_nearest:
  assumes "length input < 2 ^ 57"
  shows "parse_lua_numeral input = Some (numeral_bits input)"
  by (rule parse_lua_numeral_bits [OF assms])

theorem parse_lua_numeral_nearest_witness:
  "parse_lua_numeral (map byte '' -0x1.8p-1 '') = Some (Some 0xBFE8000000000000)"
proof -
  have "numeral_value (map byte '' -0x1.8p-1 '') = Some (True, 24, 32)"
    by code_simp
  moreover have "floorlog 2 (24 :: nat) = 5" "floorlog 2 (32 :: nat) = 6" by (simp_all add: compute_floorlog)
  then have "top_exponent (24, 32) = - 1" by (simp add: top_exponent_def scaled_def)
  then have "nearest_bits (24, 32) = 0x3FE8000000000000" by (simp add: nearest_bits_def scaled_def round_half_even_def)
  ultimately show ?thesis
    using parse_lua_numeral_nearest [of "map byte '' -0x1.8p-1 ''"] by (simp add: numeral_bits_def f64_neg_def)
qed

end
