(* ===== verification/Lexer_Sound.thy ===== *)
theory Lexer_Sound
  imports Lexer Numeral_Sound
begin

text \<open>
  The lexer is correct: the index of line starts is complete up to the position, so that every
  offset read has its line and column, and every token lies in the source with the text of its
  kind. The tokens of a whole source are the list \<open>lex_all\<close>.
\<close>

section \<open>Lines\<close>

text \<open>
  The offsets at which the logical lines after the first start: a carriage return and a line feed
  next to each other, in either order, are one line end.
\<close>

fun line_starts :: "nat \<Rightarrow> u8 list \<Rightarrow> nat list" where
  "line_starts i [] = []"
| "line_starts i [c] = (if is_newline c then [i + 1] else [])"
| "line_starts i (c # d # bs) =
     (if is_newline c
      then (if is_newline_pair c d then (i + 2) # line_starts (i + 2) bs else (i + 1) # line_starts (i + 1) (d # bs))
      else line_starts (i + 1) (d # bs))"

definition line_of :: "u8 list \<Rightarrow> nat \<Rightarrow> nat" where
  "line_of src p = 1 + length (filter (\<lambda>q. q \<le> p) (line_starts 0 src))"

definition column_of :: "u8 list \<Rightarrow> nat \<Rightarrow> nat" where
  "column_of src p = p - last (0 # filter (\<lambda>q. q \<le> p) (line_starts 0 src)) + 1"

lemma line_starts_above: "q \<in> set (line_starts i bs) \<Longrightarrow> i < q"
  by (induction i bs rule: line_starts.induct) (fastforce split: if_splits)+

lemma line_starts_sorted: "sorted_wrt (<) (line_starts i bs)"
  by (induction i bs rule: line_starts.induct) (auto dest: line_starts_above)

lemma newline_pair_newlines: "is_newline_pair c d \<Longrightarrow> is_newline c \<and> is_newline d"
  by (auto simp: is_newline_pair_def is_newline_def)

text \<open>
  The line starts that are still to come: the second byte of an open pair is the next one to be
  recorded.
\<close>

definition pending_lines :: "lexer \<Rightarrow> nat list" where
  "pending_lines L =
     (if lx_newline_pair_open L then (lx_pos L + 1) # line_starts (lx_pos L + 1) (drop (lx_pos L + 1) (lx_source L))
      else line_starts (lx_pos L) (drop (lx_pos L) (lx_source L)))"

definition lexer_ok :: "lexer \<Rightarrow> bool" where
  "lexer_ok L \<longleftrightarrow>
     lx_pos L \<le> length (lx_source L) \<and>
     0 # line_starts 0 (lx_source L) = lx_linebreaks L @ pending_lines L \<and>
     (\<forall>q \<in> set (lx_linebreaks L). q \<le> lx_pos L) \<and>
     (lx_newline_pair_open L \<longrightarrow> lx_pos L < length (lx_source L) \<and> is_newline (lx_source L ! lx_pos L))"

lemma lexer_new_ok: "lexer_ok (lexer_new src)"
  by (simp add: lexer_ok_def lexer_new_def pending_lines_def)

lemma next_char_ok:
  assumes ok: "lexer_ok L" and p: "peek_char L \<noteq> None"
  shows "lexer_ok (snd (next_char L))"
proof -
  let ?c = "lx_source L ! lx_pos L" and ?src = "lx_source L" and ?i = "lx_pos L"
  have lt: "?i < length ?src" and peek: "peek_char L = Some ?c" using p by (simp_all add: peek_char_def split: if_splits)
  have d: "drop ?i ?src = ?c # drop (?i + 1) ?src" using lt by (simp add: Cons_nth_drop_Suc)
  show ?thesis
  proof (cases "is_newline ?c")
    case False
    then have closed: "\<not> lx_newline_pair_open L" using ok by (auto simp: lexer_ok_def)
    have "line_starts ?i (?c # bs) = line_starts (?i + 1) bs" for bs using False by (cases bs) simp_all
    then show ?thesis using ok lt closed False d
      by (simp add: next_char_def peek lexer_ok_def pending_lines_def le_SucI)
  next
    case nl: True
    show ?thesis
    proof (cases "lx_newline_pair_open L")
      case True
      then show ?thesis using ok lt nl by (simp add: next_char_def peek Let_def lexer_ok_def pending_lines_def le_SucI)
    next
      case False
      show ?thesis
      proof (cases "?i + 1 < length ?src")
        case last: True
        let ?e = "?src ! (?i + 1)"
        have d2: "drop (?i + 1) ?src = ?e # drop (?i + 2) ?src" using last by (simp add: Cons_nth_drop_Suc)
        show ?thesis using ok lt nl False last d d2 newline_pair_newlines [of ?c ?e]
          by (cases "is_newline_pair ?c ?e") (simp_all add: next_char_def peek peek_char_def Let_def lexer_ok_def pending_lines_def le_SucI)
      next
        case True: False
        then have "drop (?i + 1) ?src = []" by simp
        then show ?thesis using ok lt nl False True d
          by (simp add: next_char_def peek peek_char_def Let_def lexer_ok_def pending_lines_def le_SucI)
      qed
    qed
  qed
qed

lemma reads_ok: "reads L L' \<Longrightarrow> lexer_ok L \<Longrightarrow> lexer_ok L'"
  by (induction rule: reads.induct) (simp_all add: next_char_ok)

lemma reads_source: "reads L L' \<Longrightarrow> lx_source L' = lx_source L \<and> lx_pos L \<le> lx_pos L'"
proof (induction rule: reads.induct)
  case (reads_step L L')
  then obtain c where "peek_char L = Some c" by auto
  then show ?case by (rule next_char_Some) (use reads_step.IH in auto)
qed simp

lemma pending_above: "q \<in> set (pending_lines L) \<Longrightarrow> lx_pos L < q"
  by (auto simp: pending_lines_def split: if_splits dest: line_starts_above)

lemma filter_takeWhile_sorted: "sorted_wrt (<) xs \<Longrightarrow> filter (\<lambda>q. q \<le> p) xs = takeWhile (\<lambda>q. q \<le> p) xs" for p :: nat
proof (induction xs)
  case (Cons x xs)
  then show ?case by (cases xs) (auto simp: filter_empty_conv)
qed simp

text \<open>The index is complete up to the position: any offset read so far has its line and column.\<close>

lemma recorded_lines:
  assumes "lexer_ok L" "p \<le> lx_pos L"
  shows "takeWhile (\<lambda>q. q \<le> p) (lx_linebreaks L) = 0 # filter (\<lambda>q. q \<le> p) (line_starts 0 (lx_source L))"
proof -
  have e: "0 # line_starts 0 (lx_source L) = lx_linebreaks L @ pending_lines L" using assms(1) by (simp add: lexer_ok_def)
  have s: "sorted_wrt (<) (0 # line_starts 0 (lx_source L))" using line_starts_sorted line_starts_above by auto
  then have "sorted_wrt (<) (lx_linebreaks L)" unfolding e by (simp add: sorted_wrt_append)
  then have "takeWhile (\<lambda>q. q \<le> p) (lx_linebreaks L) = filter (\<lambda>q. q \<le> p) (lx_linebreaks L)" by (simp add: filter_takeWhile_sorted)
  also have "\<dots> = filter (\<lambda>q. q \<le> p) (lx_linebreaks L @ pending_lines L)"
    using assms(2) by (auto simp: filter_empty_conv dest!: pending_above)
  finally show ?thesis unfolding e [symmetric] by simp
qed

lemma line_and_col_exact:
  assumes "lexer_ok L" "p \<le> lx_pos L"
  shows "line_and_col L p = Some (of_nat (line_of (lx_source L) p), of_nat (column_of (lx_source L) p))"
proof -
  let ?f = "filter (\<lambda>q. q \<le> p) (line_starts 0 (lx_source L))"
  have t: "takeWhile (\<lambda>q. q \<le> p) (lx_linebreaks L) = 0 # ?f" by (rule recorded_lines [OF assms])
  have "lx_linebreaks L ! length ?f = takeWhile (\<lambda>q. q \<le> p) (lx_linebreaks L) ! length ?f"
    by (rule takeWhile_nth [symmetric]) (simp add: t)
  also have "\<dots> = last (0 # ?f)" unfolding t by (metis diff_Suc_1 last_conv_nth length_Cons list.discI)
  finally show ?thesis by (simp add: line_and_col_def Let_def t line_of_def column_of_def)
qed

lemma current_line:
  assumes "lexer_ok L"
  shows "length (lx_linebreaks L) = line_of (lx_source L) (lx_pos L)"
proof -
  have "takeWhile (\<lambda>q. q \<le> lx_pos L) (lx_linebreaks L) = lx_linebreaks L" using assms by (simp add: lexer_ok_def)
  then have "lx_linebreaks L = 0 # filter (\<lambda>q. q \<le> lx_pos L) (line_starts 0 (lx_source L))"
    using recorded_lines [OF assms order_refl] by simp
  then have "length (lx_linebreaks L) = length (0 # filter (\<lambda>q. q \<le> lx_pos L) (line_starts 0 (lx_source L)))" by (rule arg_cong)
  then show ?thesis by (simp add: line_of_def)
qed

section \<open>Faults and texts\<close>

text \<open>A syntax error with the line and the column of an offset of the source.\<close>

definition fault_ok :: "u8 list \<Rightarrow> lex_fault \<Rightarrow> bool" where
  "fault_ok src f \<longleftrightarrow>
     (\<exists>k. \<exists>p \<le> length src. f = SyntaxFault k (of_nat (line_of src p)) (of_nat (column_of src p)))"

lemma error_at_ok: "lexer_ok L \<Longrightarrow> p \<le> lx_pos L \<Longrightarrow> lx_source L = src \<Longrightarrow> fault_ok src (error_at L k p)"
  unfolding fault_ok_def by (rule exI [of _ k], rule exI [of _ p]) (auto simp: error_at_def line_and_col_exact lexer_ok_def)

lemma error_here_ok: "lexer_ok L \<Longrightarrow> lx_source L = src \<Longrightarrow> fault_ok src (error_here L k)"
  by (simp add: error_here_def error_at_ok)

text \<open>The bytes from one offset to another.\<close>

definition bytes_between :: "u8 list \<Rightarrow> nat \<Rightarrow> nat \<Rightarrow> u8 list" where
  "bytes_between src a b = drop a (take b src)"

lemma between_empty [simp]: "bytes_between src a a = []"
  by (simp add: bytes_between_def)

lemma between_snoc: "a \<le> b \<Longrightarrow> b < length src \<Longrightarrow> bytes_between src a (b + 1) = bytes_between src a b @ [src ! b]"
  by (simp add: bytes_between_def take_Suc_conv_app_nth)

lemma source_slice_between: "lexer_ok L \<Longrightarrow> start \<le> lx_pos L \<Longrightarrow> source_slice L start = Some (bytes_between (lx_source L) start (lx_pos L))"
  by (simp add: source_slice_def bytes_between_def lexer_ok_def)

lemma next_char_at: "next_char L = (Some c, L') \<Longrightarrow> lx_pos L < length (lx_source L) \<and> lx_source L ! lx_pos L = c \<and> lx_pos L' = lx_pos L + 1 \<and> lx_source L' = lx_source L"
proof -
  assume n: "next_char L = (Some c, L')"
  then obtain d where d: "peek_char L = Some d" using next_char_None [of L] by (cases "peek_char L") auto
  then show ?thesis by (rule next_char_Some) (use n d in \<open>auto simp: peek_char_def split: if_splits\<close>)
qed

lemma try_next_at: "try_next e L = (True, L') \<Longrightarrow> lx_pos L < length (lx_source L) \<and> lx_source L ! lx_pos L = e \<and> lx_pos L' = lx_pos L + 1 \<and> lx_source L' = lx_source L"
proof -
  assume t: "try_next e L = (True, L')"
  then have "peek_char L = Some e" "L' = snd (next_char L)" by (auto simp: try_next_def split: option.splits if_splits)
  then show ?thesis using next_char_at [of L e L'] next_char_Some [of L e] by (metis prod.collapse snd_conv)
qed

lemma try_next_same: "try_next e L = (False, L') \<Longrightarrow> L' = L"
  by (auto simp: try_next_def split: option.splits if_splits)

lemma long_comment_fault: "long_comment level start L = (L', Inl f) \<Longrightarrow> lexer_ok L \<Longrightarrow> start \<le> lx_pos L \<Longrightarrow> fault_ok (lx_source L) f"
proof (induction level start L arbitrary: L' f rule: long_comment.induct)
  case (1 level start L)
  obtain c L1 where n: "next_char L = (c, L1)" by fastforce
  obtain m L2 where q: "count_equals 0 L1 = (m, L2)" by fastforce
  obtain b L3 where t: "try_next (byte CHR '']'') L2 = (b, L3)" by fastforce
  have r1: "reads L L1" using next_char_reads [OF n] .
  have r2: "reads L L2" using reads_trans [OF r1 count_equals_reads [OF q]] .
  have r3: "reads L L3" using reads_trans [OF r2] try_next_read [OF t] by blast
  have go: "lexer_ok M" "start \<le> lx_pos M" "lx_source M = lx_source L" if "reads L M" for M
    using reads_ok [OF that "1.prems"(2)] reads_source [OF that] "1.prems"(3) by simp_all
  show ?case
  proof (cases c)
    case None
    then have "f = error_at L1 UnfinishedLongComment start"
      using "1.prems"(1) unfolding long_comment.simps [of level start L] n by auto
    then show ?thesis using error_at_ok go [OF r1] by simp
  next
    case (Some d)
    note IH = "1.IH" [OF n [symmetric] Some]
    show ?thesis
    proof (cases "d = byte CHR '']''")
      case True
      note IH1 = IH(1) [OF True q [symmetric]] and IH2 = IH(2) [OF True q [symmetric]]
      note e = "1.prems"(1) [unfolded long_comment.simps [of level start L] n Some prod.case option.case if_P [OF True] q t]
      show ?thesis
      proof (cases "m = level")
        case eq: True
        show ?thesis using e [unfolded if_P [OF eq]] go [OF r3] IH1 [OF eq t [symmetric]] by (cases b) auto
      next
        case False
        show ?thesis using e [unfolded if_not_P [OF False]] go [OF r2] IH2 [OF False] by auto
      qed
    next
      case False
      show ?thesis using "1.prems"(1) go [OF r1] IH(3) [OF False]
        unfolding long_comment.simps [of level start L] n Some prod.case option.case if_not_P [OF False] by auto
    qed
  qed
qed

lemma skip_comment_fault:
  assumes e: "skip_comment start L = (L', Inl f)" and ok: "lexer_ok L" "start \<le> lx_pos L"
  shows "fault_ok (lx_source L) f"
proof -
  obtain m L2 where q: "count_equals 0 (snd (next_char L)) = (m, L2)" by fastforce
  obtain b L3 where t: "try_next (byte CHR ''['') L2 = (b, L3)" by fastforce
  have p: "peek_char L = Some (byte CHR ''['')" using e by (auto simp: skip_comment_def split: if_splits)
  then have "reads L (snd (next_char L))" by (intro reads_next) simp
  then have r: "reads L L3" using count_equals_reads [OF q] try_next_read [OF t] reads_trans by blast
  then have "long_comment m start L3 = (L', Inl f)" using e unfolding skip_comment_def if_P [OF p] q prod.case t by (cases b) auto
  then show ?thesis using long_comment_fault [of m start L3] reads_ok [OF r ok(1)] reads_source [OF r] ok(2) by simp
qed

lemma lex_string_fault: "lex_string_loop quote d f u L = (L', Inl g) \<Longrightarrow> lexer_ok L \<Longrightarrow> fault_ok (lx_source L) g"
proof (induction quote d f u L arbitrary: L' g rule: lex_string_loop.induct)
  case (1 quote d f u L)
  obtain c L1 where n: "next_char L = (c, L1)" by fastforce
  obtain x L2 where q: "read_escape L1 = (x, L2)" by fastforce
  have r1: "reads L L1" using next_char_reads [OF n] .
  have r2: "reads L L2" using reads_trans [OF r1 read_escape_reads [OF q]] .
  have go: "lexer_ok M" "lx_source M = lx_source L" "lx_pos L \<le> lx_pos M" if "reads L M" for M
    using reads_ok [OF that "1.prems"(2)] reads_source [OF that] by simp_all
  show ?case
  proof (cases c)
    case None
    then have "g = error_here L1 UnfinishedString"
      using "1.prems"(1) unfolding lex_string_loop.simps [of quote d f u L] n by auto
    then show ?thesis using error_here_ok go [OF r1] by simp
  next
    case (Some a)
    note IH = "1.IH" [OF n [symmetric] Some]
    note e = "1.prems"(1) [unfolded lex_string_loop.simps [of quote d f u L] n Some prod.case option.case]
    consider "a = quote" | "a \<noteq> quote" "a = 0x5C" | "a \<noteq> quote" "a \<noteq> 0x5C" by blast
    then show ?thesis
    proof cases
      case 1
      then show ?thesis using e by simp
    next
      case 2
      note IH' = IH(1-3) [OF 2 q [symmetric]]
      show ?thesis
      proof (cases x)
        case None
        then have "g = error_here L2 UnfinishedString" using e 2 q by auto
        then show ?thesis using error_here_ok go [OF r2] by simp
      next
        case (Some escaped)
        show ?thesis using e [unfolded if_not_P [OF 2(1)] if_P [OF 2(2)] q Some prod.case option.case] IH' [OF Some] go [OF r2]
          by (auto split: option.splits sum.splits)
      qed
    next
      case 3
      then show ?thesis using e IH(4,5) [OF 3] go [OF r1] error_at_ok [of L1 "lx_pos L"] by (auto split: if_splits)
    qed
  qed
qed

section \<open>What a token is\<close>

definition is_name :: "u8 list \<Rightarrow> bool" where
  "is_name bs \<longleftrightarrow>
     bs \<noteq> [] \<and> \<not> is_ascii_digit (hd bs) \<and> list_all is_identifier_continue bs \<and> (\<forall>k \<in> set KEYWORDS. map byte (spelling k) \<noteq> bs)"

definition is_quoted :: "u8 list \<Rightarrow> bool" where
  "is_quoted bs \<longleftrightarrow> 2 \<le> length bs \<and> hd bs \<in> {0x22, 0x27} \<and> last bs = hd bs"

text \<open>
  The text of a token: a name, the spelling of its kind, a numeral with its value, or a quoted
  string.
\<close>

definition token_text :: "token_kind \<Rightarrow> literal option \<Rightarrow> u8 list \<Rightarrow> bool" where
  "token_text k v bs =
     (if k = TkIdentifier then v = None \<and> is_name bs
      else if k = TkLiteralNumber then (case v of Some (LitNumber w) \<Rightarrow> numeral_bits bs = Some w | _ \<Rightarrow> False)
      else if k = TkLiteralString then (case v of Some (LitString x) \<Rightarrow> is_quoted bs | _ \<Rightarrow> False)
      else if k = TkEndOfFile then v = None \<and> bs = []
      else v = None \<and> k \<noteq> TkGoto \<and> bs = map byte (spelling k))"

definition token_end :: "token \<Rightarrow> nat" where
  "token_end t = tk_start t + unat (tk_len t)"

definition token_ok :: "u8 list \<Rightarrow> lexed \<Rightarrow> bool" where
  "token_ok src x =
     (case x of (t, v) \<Rightarrow>
        token_end t \<le> length src \<and> tk_line t = of_nat (line_of src (tk_start t)) \<and>
        token_text (tk_typ t) v (bytes_between src (tk_start t) (token_end t)))"

text \<open>The outcome of a round that started at an offset.\<close>

definition round_ok :: "u8 list \<Rightarrow> nat \<Rightarrow> lexer \<times> (lex_fault + lexed option) \<Rightarrow> bool" where
  "round_ok src start x =
     (case x of (L', r) \<Rightarrow>
        (case r of
           Inl f \<Rightarrow> fault_ok src f
         | Inr None \<Rightarrow> True
         | Inr (Some (t, v)) \<Rightarrow>
             token_ok src (t, v) \<and> tk_start t = start \<and> token_end t = lx_pos L' \<and> (tk_typ t = TkEndOfFile \<longleftrightarrow> start = lx_pos L')))"

lemma if_round: "(P \<Longrightarrow> round_ok src s x) \<Longrightarrow> (\<not> P \<Longrightarrow> round_ok src s y) \<Longrightarrow> round_ok src s (if P then x else y)"
  by simp

lemma mk_token_ok:
  assumes "lexer_ok L" "lx_source L = src" "length src \<le> MAX_SOURCE_BYTES" "start < lx_pos L"
    "token_text k v (bytes_between src start (lx_pos L))" "k \<noteq> TkEndOfFile"
  shows "round_ok src start (L, Inr (Some (mk_token L k start (of_nat (line_of src start)), v)))"
proof -
  have "lx_pos L \<le> length src" using assms(1,2) by (auto simp: lexer_ok_def)
  then have "lx_pos L - start < 2 ^ 32" using assms(3) by (simp add: MAX_SOURCE_BYTES_def MAX_STRING_BYTES_def)
  then have "unat (of_nat (lx_pos L - start) :: u32) = lx_pos L - start" by (simp add: unat_of_nat take_bit_nat_eq_self)
  then show ?thesis using assms by (simp add: round_ok_def token_ok_def token_end_def mk_token_def lexer_ok_def)
qed

lemma plain_ok:
  assumes "lexer_ok L" "lx_source L = src" "length src \<le> MAX_SOURCE_BYTES" "start < lx_pos L"
    "token_text k None (bytes_between src start (lx_pos L))" "k \<noteq> TkEndOfFile"
  shows "round_ok src start (plain start (of_nat (line_of src start)) (k, L))"
proof -
  have "k \<notin> {TkLiteralNumber, TkLiteralString}" using assms(5) by (auto simp: token_text_def)
  then show ?thesis using mk_token_ok [OF assms] by (simp add: plain_def plain_token_def)
qed

lemma single_char_spelling: "single_char_token c = Some k \<Longrightarrow> token_text k None [c] \<and> k \<noteq> TkEndOfFile"
  by (auto simp: single_char_token_def token_text_def split: if_splits)

lemma keyword_match_cases:
  "keyword_match w = TkIdentifier \<and> (\<forall>k \<in> set KEYWORDS. map byte (spelling k) \<noteq> w) \<or>
   keyword_match w \<in> set KEYWORDS \<and> map byte (spelling (keyword_match w)) = w"
proof (cases "find (\<lambda>k. map byte (spelling k) = w) KEYWORDS")
  case None
  have "\<forall>k \<in> set KEYWORDS. map byte (spelling k) \<noteq> w" using None [unfolded find_None_iff] by blast
  then show ?thesis unfolding keyword_match_table None by simp
next
  case (Some k)
  have "k \<in> set KEYWORDS" "map byte (spelling k) = w" using Some [unfolded find_Some_iff] by auto
  then show ?thesis unfolding keyword_match_table Some by simp
qed

lemma keywords_plain: "k \<in> set KEYWORDS \<Longrightarrow> k \<notin> {TkIdentifier, TkLiteralNumber, TkLiteralString, TkEndOfFile}"
  by (auto simp: KEYWORDS_def)

text \<open>A run of bytes with a property, after a text with it.\<close>

lemma skip_while_between:
  "lexer_ok L \<Longrightarrow> start \<le> lx_pos L \<Longrightarrow> list_all p (bytes_between (lx_source L) start (lx_pos L)) \<Longrightarrow>
   list_all p (bytes_between (lx_source L) start (lx_pos (skip_while p L)))"
proof (induction p L rule: skip_while.induct)
  case (1 p L)
  show ?case
  proof (cases "peek_char L")
    case (Some c)
    then obtain L' where n: "next_char L = (Some c, L')" "lx_pos L' = lx_pos L + 1" "lx_source L' = lx_source L" "lx_pos L < length (lx_source L)"
      by (rule next_char_Some)
    have c: "lx_source L ! lx_pos L = c" using Some by (simp add: peek_char_def split: if_splits)
    show ?thesis
    proof (cases "p c")
      case True
      have "lexer_ok L'" using next_char_ok [OF "1.prems"(1)] Some n(1) by simp
      moreover have "list_all p (bytes_between (lx_source L') start (lx_pos L'))"
        unfolding n(2,3) between_snoc [OF "1.prems"(2) n(4)] using "1.prems"(3) True c by simp
      ultimately have "list_all p (bytes_between (lx_source L) start (lx_pos (skip_while p L')))"
        using "1.IH" [OF Some True] "1.prems"(2) n by simp
      then show ?thesis using Some True n(1) by (subst skip_while.simps) simp
    qed (use "1.prems"(3) Some in \<open>subst skip_while.simps, simp\<close>)
  qed (use "1.prems"(3) in \<open>subst skip_while.simps, simp\<close>)
qed

lemma lex_string_last: "lex_string_loop quote d f u L = (L', Inr x) \<Longrightarrow> lx_pos L < lx_pos L' \<and> lx_pos L' \<le> length (lx_source L) \<and> lx_source L ! (lx_pos L' - 1) = quote"
proof (induction quote d f u L arbitrary: L' x rule: lex_string_loop.induct)
  case (1 quote d f u L)
  obtain c L1 where n: "next_char L = (c, L1)" by fastforce
  obtain y L2 where q: "read_escape L1 = (y, L2)" by fastforce
  have c: "c \<noteq> None" using "1.prems" unfolding lex_string_loop.simps [of quote d f u L] n by (auto split: option.splits)
  then obtain a where Some: "c = Some a" by auto
  have at: "lx_pos L < length (lx_source L)" "lx_source L ! lx_pos L = a" "lx_pos L1 = lx_pos L + 1" "lx_source L1 = lx_source L"
    using next_char_at [of L a L1] n Some by simp_all
  have s2: "lx_source L2 = lx_source L" "lx_pos L1 \<le> lx_pos L2" using reads_source [OF read_escape_reads [OF q]] at by simp_all
  note IH = "1.IH" [OF n [symmetric] Some]
  note e = "1.prems" [unfolded lex_string_loop.simps [of quote d f u L] n Some prod.case option.case]
  consider "a = quote" | "a \<noteq> quote" "a = 0x5C" | "a \<noteq> quote" "a \<noteq> 0x5C" by blast
  then show ?case
  proof cases
    case 1
    then have "L' = L1" using e by simp
    then show ?thesis using at 1 by simp
  next
    case 2
    note IH' = IH(1-3) [OF 2 q [symmetric]]
    have y: "y \<noteq> None" using e 2 q by (cases y) auto
    then obtain escaped where es: "y = Some escaped" by auto
    show ?thesis using e [unfolded if_not_P [OF 2(1)] if_P [OF 2(2)] q es prod.case option.case] IH' [OF es] s2 at
      by (fastforce split: option.splits sum.splits)
  next
    case 3
    then show ?thesis using e IH(4,5) [OF 3] at by (fastforce split: if_splits)
  qed
qed

section \<open>One round\<close>

text \<open>The lexer just after the first byte \<open>c\<close> of a token.\<close>

definition at_char :: "u8 list \<Rightarrow> nat \<Rightarrow> u8 \<Rightarrow> lexer \<Rightarrow> bool" where
  "at_char src start c L \<longleftrightarrow>
     lexer_ok L \<and> lx_source L = src \<and> length src \<le> MAX_SOURCE_BYTES \<and> lx_pos L = start + 1 \<and> src ! start = c"

lemma at_charD:
  assumes "at_char src start c L"
  shows "lexer_ok L" "lx_source L = src" "length src \<le> MAX_SOURCE_BYTES" "lx_pos L = start + 1" "start < length src"
    "bytes_between src start (start + 1) = [c]"
  using assms between_snoc [of start start src] by (auto simp: at_char_def lexer_ok_def)

lemma at_char_reads:
  assumes "at_char src start c L" "reads L L'"
  shows "lexer_ok L'" "lx_source L' = src" "start < lx_pos L'" "lx_pos L' \<le> length src"
  using reads_ok [OF assms(2)] reads_source [OF assms(2)] at_charD [OF assms(1)] by (auto simp: lexer_ok_def)

lemma plain_here:
  assumes "at_char src start c L" "token_text k None [c]" "k \<noteq> TkEndOfFile"
  shows "round_ok src start (plain start (of_nat (line_of src start)) (k, L))"
  using at_charD [OF assms(1)] assms(2,3) by (intro plain_ok) auto

lemma between_next:
  assumes "at_char src start c L" "reads L M" "try_next e M = (True, M')"
  shows "bytes_between src start (lx_pos M') = bytes_between src start (lx_pos M) @ [e]"
  using at_char_reads [OF assms(1,2)] try_next_at [OF assms(3)] between_snoc [of start "lx_pos M" src] by simp

lemma plain_next:
  assumes "at_char src start c L" "try_next e L = (True, L')" "token_text k None [c, e]" "k \<noteq> TkEndOfFile"
  shows "round_ok src start (plain start (of_nat (line_of src start)) (k, L'))"
proof -
  have "reads L L'" using try_next_read [OF assms(2)] by simp
  then show ?thesis
    using at_char_reads [OF assms(1)] at_charD [OF assms(1)] assms(3,4) between_next [OF assms(1) reads_refl assms(2)]
    by (intro plain_ok) auto
qed

lemma with_equals_ok:
  assumes "at_char src start c L" "token_text paired None [c, byte CHR ''='']" "token_text alone None [c]"
    "paired \<noteq> TkEndOfFile" "alone \<noteq> TkEndOfFile"
  shows "round_ok src start (plain start (of_nat (line_of src start)) (with_equals paired alone L))"
proof -
  obtain b L1 where t: "try_next (byte CHR ''='') L = (b, L1)" by fastforce
  show ?thesis
  proof (cases b)
    case True
    then show ?thesis using plain_next [OF assms(1) _ assms(2,4)] t unfolding with_equals_def t by simp
  next
    case False
    then have "L1 = L" using t try_next_same by simp
    then show ?thesis using plain_here [OF assms(1,3,5)] False unfolding with_equals_def t by simp
  qed
qed

lemma lex_dots_ok:
  assumes "at_char src start (byte CHR ''.'') L"
  shows "round_ok src start (plain start (of_nat (line_of src start)) (lex_dots L))"
proof -
  obtain b L1 where t: "try_next (byte CHR ''.'') L = (b, L1)" by fastforce
  obtain d L2 where u: "try_next (byte CHR ''.'') L1 = (d, L2)" by fastforce
  have r: "reads L L1" "reads L1 L2" using try_next_read [OF t] try_next_read [OF u] by simp_all
  have texts: "token_text TkDot None [byte CHR ''.'']" "token_text TkDotDot None [byte CHR ''.'', byte CHR ''.'']"
    "token_text TkDotDotDot None [byte CHR ''.'', byte CHR ''.'', byte CHR ''.'']" by (simp_all add: token_text_def)
  show ?thesis
  proof (cases b)
    case False
    then have "L1 = L" using t try_next_same by simp
    then show ?thesis using plain_here [OF assms texts(1)] False unfolding lex_dots_def t by simp
  next
    case b: True
    show ?thesis
    proof (cases d)
      case False
      then have "L2 = L1" using u try_next_same by simp
      then show ?thesis using plain_next [OF assms t [unfolded b [THEN eqTrueI]] texts(2)] b False unfolding lex_dots_def t prod.case u by simp
    next
      case True
      have e: "bytes_between src start (lx_pos L2) = [byte CHR ''.'', byte CHR ''.'', byte CHR ''.'']"
        using between_next [OF assms r(1) u [unfolded True [THEN eqTrueI]]] between_next [OF assms reads_refl t [unfolded b [THEN eqTrueI]]] at_charD [OF assms] by simp
      have "round_ok src start (plain start (of_nat (line_of src start)) (TkDotDotDot, L2))"
        using at_char_reads [OF assms reads_trans [OF r]] at_charD(3) [OF assms] texts(3) unfolding e [symmetric] by (intro plain_ok) auto
      then show ?thesis using b True unfolding lex_dots_def t prod.case u by simp
    qed
  qed
qed

lemma lex_numeral_ok:
  assumes a: "at_char src start c L"
  shows "round_ok src start (literal_result start (of_nat (line_of src start)) LitNumber (lex_numeral d start L))"
proof -
  obtain L' r where e: "lex_numeral d start L = (L', r)" by fastforce
  note at = at_char_reads [OF a lex_numeral_reads [OF e]]
  let ?s = "bytes_between src start (lx_pos L')"
  have sl: "source_slice L' start = Some ?s" using source_slice_between [OF at(1)] at(2,3) by simp
  have "length ?s < 2 ^ 57" using at(4) at_charD(3) [OF a] by (simp add: bytes_between_def MAX_SOURCE_BYTES_def MAX_STRING_BYTES_def)
  then have p: "parse_lua_numeral ?s = Some (numeral_bits ?s)" by (rule parse_lua_numeral_bits)
  have "r = (case numeral_bits ?s of Some w \<Rightarrow> Inr w
      | None \<Rightarrow> Inl (error_at L' (if lx_pos L' = length (lx_source L') \<and> is_incomplete_numeral ?s then UnfinishedNumber else BadNumber) start))"
    using e sl p unfolding lex_numeral_def Let_def by (auto split: prod.splits option.splits)
  moreover have "round_ok src start (L', Inr (Some (literal_token L' (LitNumber w) start (of_nat (line_of src start)))))"
    if "numeral_bits ?s = Some w" for w
    using mk_token_ok [OF at(1,2) at_charD(3) [OF a] at(3), of TkLiteralNumber "Some (LitNumber w)"] that
    by (simp add: token_text_def literal_token_def)
  ultimately show ?thesis
    using error_at_ok [OF at(1) _ at(2), of start] at(3)
    unfolding e by (cases "numeral_bits ?s") (auto simp: literal_result_def round_ok_def)
qed

lemma lex_string_ok:
  assumes a: "at_char src start c L" and q: "c = 0x27 \<or> c = 0x22"
  shows "round_ok src start (literal_result start (of_nat (line_of src start)) LitString (lex_string c L))"
proof -
  obtain L' r where e: "lex_string_loop c [] None (lx_pos L) L = (L', r)" by fastforce
  note at = at_char_reads [OF a lex_string_reads [OF e]] and here = at_charD [OF a]
  show ?thesis
  proof (cases r)
    case (Inl f)
    then show ?thesis using lex_string_fault [OF e [unfolded Inl] here(1)] here(2)
      unfolding lex_string_def e by (simp add: literal_result_def round_ok_def)
  next
    case (Inr x)
    have l: "lx_pos L < lx_pos L'" "lx_pos L' \<le> length src" "src ! (lx_pos L' - 1) = c"
      using lex_string_last [OF e [unfolded Inr]] here(2) by simp_all
    have "is_quoted (bytes_between src start (lx_pos L'))"
      using l here(4,5) a q by (auto simp: is_quoted_def bytes_between_def hd_drop_conv_nth last_conv_nth at_char_def)
    then have "token_text TkLiteralString (Some (LitString x)) (bytes_between src start (lx_pos L'))" by (simp add: token_text_def)
    then show ?thesis using mk_token_ok [OF at(1,2) here(3) at(3)] Inr
      unfolding lex_string_def e by (simp add: literal_result_def literal_token_def)
  qed
qed

lemma lex_word_ok:
  assumes a: "at_char src start c L" and c: "is_ascii_alphabetic c \<or> c = byte CHR ''_''"
  shows "round_ok src start (word_token start (of_nat (line_of src start)) (lex_word start L))"
proof -
  define M where "M = skip_while is_identifier_continue L"
  have r: "reads L M" unfolding M_def by (rule skip_while_reads)
  note at = at_char_reads [OF a r] and here = at_charD [OF a]
  let ?s = "bytes_between src start (lx_pos M)"
  have w: "lex_word start L = (M, Inr (keyword_match ?s))"
    using source_slice_between [OF at(1)] at(2,3) by (simp add: lex_word_def M_def [symmetric] Let_def)
  have "is_identifier_continue c" using c by (auto simp: is_identifier_continue_def is_ascii_alphanumeric_def)
  then have all: "list_all is_identifier_continue ?s"
    using skip_while_between [OF here(1), of start is_identifier_continue] here by (simp add: M_def)
  have hd: "?s \<noteq> []" "hd ?s = c" using at(3,4) here(5) a by (auto simp: bytes_between_def hd_drop_conv_nth at_char_def)
  have nd: "\<not> is_ascii_digit c" using c by (auto simp: is_ascii_alphabetic_def is_ascii_lowercase_def is_ascii_uppercase_def is_ascii_digit_def word_le_nat_alt)
  show ?thesis
  proof (cases "keyword_match ?s = TkGoto")
    case True
    then show ?thesis using error_at_ok [OF at(1) _ at(2), of start] at(3) by (simp add: w word_token_def round_ok_def)
  next
    case False
    have "token_text (keyword_match ?s) None ?s \<and> keyword_match ?s \<noteq> TkEndOfFile"
      using keyword_match_cases [of ?s] keywords_plain [of "keyword_match ?s"] False all hd nd
      by (auto simp: token_text_def is_name_def)
    then show ?thesis using plain_ok [OF at(1,2) here(3) at(3)] False by (simp add: w word_token_def)
  qed
qed

lemma tilde_ok:
  assumes a: "at_char src start (byte CHR ''~'') L"
  shows "round_ok src start (case try_next (byte CHR ''='') L of
      (True, L1) \<Rightarrow> plain start (of_nat (line_of src start)) (TkNotEqual, L1)
    | (False, L1) \<Rightarrow> (L1, Inl (error_here L1 (InvalidCharacter (ucast (byte CHR ''~''))))))"
proof -
  obtain b L1 where t: "try_next (byte CHR ''='') L = (b, L1)" by fastforce
  have "token_text TkNotEqual None [byte CHR ''~'', byte CHR ''='']" by (simp add: token_text_def)
  then have "round_ok src start (plain start (of_nat (line_of src start)) (TkNotEqual, L1))" if b
    using plain_next [OF a t [unfolded that [THEN eqTrueI]]] by simp
  moreover have "fault_ok src (error_here L1 k)" for k
    using error_here_ok at_char_reads(1,2) [OF a] try_next_read [OF t] by blast
  ultimately show ?thesis unfolding t by (cases b) (simp_all add: round_ok_def)
qed

lemma minus_ok:
  assumes a: "at_char src start (byte CHR ''-'') L"
  shows "round_ok src start (case try_next (byte CHR ''-'') L of
      (True, L1) \<Rightarrow> (case skip_comment start L1 of (L2, Inl f) \<Rightarrow> (L2, Inl f) | (L2, Inr _) \<Rightarrow> (L2, Inr None))
    | (False, L1) \<Rightarrow> plain start (of_nat (line_of src start)) (TkMinus, L1))"
proof -
  obtain b L1 where t: "try_next (byte CHR ''-'') L = (b, L1)" by fastforce
  obtain L2 r where c: "skip_comment start L1 = (L2, r)" by fastforce
  have "token_text TkMinus None [byte CHR ''-'']" by (simp add: token_text_def)
  then have "round_ok src start (plain start (of_nat (line_of src start)) (TkMinus, L1))" if "\<not> b"
    using plain_here [OF a] try_next_same [of "byte CHR ''-''" L L1] t that by simp
  moreover have "fault_ok src f" if "r = Inl f" for f
    using skip_comment_fault [OF c [unfolded that]] at_char_reads [OF a] try_next_read [OF t] by force
  ultimately show ?thesis unfolding t prod.case by (cases b; cases r) (simp_all add: round_ok_def c)
qed

lemma long_bracket_ok:
  assumes a: "at_char src start (byte CHR ''['') L"
  shows "round_ok src start (L, Inl (error_at L LongStringUnsupported start))"
    and "round_ok src start (plain start (of_nat (line_of src start)) (TkLSquare, L))"
proof -
  have "token_text TkLSquare None [byte CHR ''['']" by (simp add: token_text_def)
  then show "round_ok src start (plain start (of_nat (line_of src start)) (TkLSquare, L))" by (intro plain_here [OF a]) simp_all
  have "fault_ok src (error_at L LongStringUnsupported start)" using at_charD [OF a] by (intro error_at_ok) simp_all
  then show "round_ok src start (L, Inl (error_at L LongStringUnsupported start))" by (simp add: round_ok_def)
qed

lemma invalid_ok:
  assumes a: "at_char src start c L"
  shows "round_ok src start (case invalid_character c start L of (L1, f) \<Rightarrow> (L1, Inl f))"
proof -
  obtain L1 f where i: "invalid_character c start L = (L1, f)" by fastforce
  note here = at_charD [OF a]
  have "reads L L1" by (rule invalid_character_reads [OF i here(4)]) (use here in simp)
  note at = at_char_reads [OF a this]
  have "\<not> start > min (length (lx_source L)) (start + 4)" using here by simp
  then have "\<exists>k. f = error_here L1 k" using i unfolding invalid_character_def Let_def by (auto split: if_splits option.splits)
  then show ?thesis using error_here_ok [OF at(1,2)] by (auto simp: i round_ok_def)
qed

lemma lex_from_ok:
  assumes a: "at_char src start c L"
  shows "round_ok src start (lex_from start (of_nat (line_of src start)) c L)"
proof (cases "single_char_token c")
  case (Some k)
  then show ?thesis using plain_here [OF a] single_char_spelling by (simp add: lex_from_def)
next
  case None
  have texts: "token_text TkEqual None [byte CHR ''='', byte CHR ''='']" "token_text TkAssign None [byte CHR ''='']"
    "token_text TkLessEqual None [byte CHR ''<'', byte CHR ''='']" "token_text TkLess None [byte CHR ''<'']"
    "token_text TkGreaterEqual None [byte CHR ''>'', byte CHR ''='']" "token_text TkGreater None [byte CHR ''>'']"
    by (simp_all add: token_text_def)
  show ?thesis unfolding lex_from_def None option.case
    by (intro if_round)
      (use a texts in \<open>simp_all only: lex_numeral_ok lex_dots_ok with_equals_ok tilde_ok minus_ok lex_string_ok long_bracket_ok
        lex_word_ok invalid_ok token_kind.distinct simp_thms\<close>)
qed

section \<open>Tokens of a source\<close>

lemma next_token_round_ok:
  assumes ok: "lexer_ok L" and len: "length (lx_source L) \<le> MAX_SOURCE_BYTES" and e: "next_token_round L = (L', r)"
  shows "\<exists>start \<ge> lx_pos L. round_ok (lx_source L) start (L', r) \<and> (start = lx_pos L' \<longrightarrow> lx_pos L' = length (lx_source L))"
proof -
  let ?M = "consume_whitespace L" and ?src = "lx_source L"
  have ws: "reads L ?M" unfolding consume_whitespace_def by (rule skip_while_reads)
  have M: "lexer_ok ?M" "lx_source ?M = ?src" "lx_pos L \<le> lx_pos ?M" using reads_ok [OF ws ok] reads_source [OF ws] by simp_all
  obtain c L1 where n: "next_char ?M = (c, L1)" by fastforce
  have line: "length (lx_linebreaks ?M) = line_of ?src (lx_pos ?M)" using current_line [OF M(1)] M(2) by simp
  show ?thesis
  proof (cases c)
    case None
    then have "L1 = ?M" "lx_pos ?M = length ?src" using n M(1,2) next_char_Some [of ?M]
      by (auto simp: next_char_def peek_char_def lexer_ok_def Let_def split: if_splits)
    then have "round_ok ?src (lx_pos ?M) (L', r) \<and> L' = ?M" using e None n M(2)
      by (auto simp: next_token_round_def Let_def line end_of_file_def round_ok_def token_ok_def token_end_def token_text_def)
    then show ?thesis using M(3) \<open>lx_pos ?M = length ?src\<close> by blast
  next
    case (Some a)
    have at: "lx_pos ?M < length ?src" "?src ! lx_pos ?M = a" "lx_pos L1 = lx_pos ?M + 1" "lx_source L1 = ?src"
      using next_char_at [OF n [unfolded Some]] M(2) by simp_all
    have "lexer_ok L1" using reads_ok [OF next_char_reads [OF n] M(1)] .
    then have a: "at_char ?src (lx_pos ?M) a L1" using at len by (simp add: at_char_def)
    have "lex_from (lx_pos ?M) (of_nat (line_of ?src (lx_pos ?M))) a L1 = (L', r)"
      using e Some n by (simp add: next_token_round_def Let_def line)
    then have "round_ok ?src (lx_pos ?M) (L', r)" "reads L1 L'"
      using lex_from_ok [OF a] lex_from_reads [of L1 "lx_pos ?M" "of_nat (line_of ?src (lx_pos ?M))" a] at by auto
    moreover have "lx_pos ?M < lx_pos L'" using reads_source [OF \<open>reads L1 L'\<close>] at(3) by simp
    ultimately show ?thesis using M(3) by (intro exI [of _ "lx_pos ?M"]) simp
  qed
qed

definition lexed_ok :: "u8 list \<Rightarrow> nat \<Rightarrow> lexer \<Rightarrow> lex_fault + lexed \<Rightarrow> bool" where
  "lexed_ok src p L' r =
     (case r of
        Inl f \<Rightarrow> fault_ok src f
      | Inr (t, v) \<Rightarrow>
          token_ok src (t, v) \<and> p \<le> tk_start t \<and> token_end t = lx_pos L' \<and>
          (if tk_typ t = TkEndOfFile then tk_start t = length src \<and> lx_pos L' = length src else tk_start t < lx_pos L'))"

lemma next_token_ok:
  "next_token L = (L', r) \<Longrightarrow> lexer_ok L \<Longrightarrow> length (lx_source L) \<le> MAX_SOURCE_BYTES \<Longrightarrow> lexed_ok (lx_source L) (lx_pos L) L' r"
proof (induction L arbitrary: L' r rule: next_token.induct)
  case (1 L)
  obtain L1 x where s: "next_token_round L = (L1, x)" by fastforce
  have rd: "lexer_ok L1" "lx_source L1 = lx_source L" "lx_pos L \<le> lx_pos L1"
    using reads_ok [OF next_token_round_reads [OF s] "1.prems"(2)] reads_source [OF next_token_round_reads [OF s]] by simp_all
  obtain start where st: "start \<ge> lx_pos L" "round_ok (lx_source L) start (L1, x)"
      "start = lx_pos L1 \<longrightarrow> lx_pos L1 = length (lx_source L)"
    using next_token_round_ok [OF "1.prems"(2,3) s] by blast
  note e = "1.prems"(1) [unfolded next_token.simps [of L] s prod.case]
  show ?case
  proof (cases x)
    case (Inl f)
    then show ?thesis using e st(2) by (auto simp: round_ok_def lexed_ok_def)
  next
    case (Inr o')
    show ?thesis
    proof (cases o')
      case None
      then have "lexed_ok (lx_source L) (lx_pos L1) L' r" using "1.IH" [OF s [symmetric] Inr None] e Inr rd "1.prems"(3) by simp
      then show ?thesis using rd(3) by (auto simp: lexed_ok_def split: sum.splits)
    next
      case (Some tv)
      then have "L' = L1" "r = Inr tv" using e Inr by simp_all
      then show ?thesis using st Inr Some by (cases tv) (auto simp: round_ok_def lexed_ok_def token_ok_def token_end_def)
    qed
  qed
qed

lemma next_token_left:
  assumes "next_token L = (L', Inr (t, v))" "tk_typ t \<noteq> TkEndOfFile"
  shows "lexer_left L' < lexer_left L"
  using assms
proof (induction L arbitrary: rule: next_token.induct)
  case (1 L)
  obtain L1 x where s: "next_token_round L = (L1, x)" by fastforce
  note e = "1.prems"(1) [unfolded next_token.simps [of L] s prod.case]
  obtain o' where o: "x = Inr o'" using e by (cases x) auto
  show ?case
  proof (cases o')
    case None
    then have "lexer_left L' < lexer_left L1" using "1.IH" [OF s [symmetric] o None] e o "1.prems"(2) by simp
    then show ?thesis using next_token_round_continue [of L L1] s o None by simp
  next
    case (Some tv)
    then have r: "next_token_round L = (L', Inr (Some (t, v)))" using e s o by simp
    obtain c M where n: "next_char (consume_whitespace L) = (c, M)" "reads L M" "reads M L'"
      using next_token_round_parts [OF r] by blast
    have "c \<noteq> None" using r "1.prems"(2) unfolding next_token_round_def Let_def n(1) by (cases c) (auto simp: end_of_file_def)
    then have "lexer_left M < lexer_left (consume_whitespace L)" using next_char_read n(1) by auto
    then show ?thesis using reads_left [OF n(3)] reads_left [OF skip_while_reads] unfolding consume_whitespace_def
      by (meson le_less_trans less_le_trans)
  qed
qed

text \<open>All tokens of a source, up to the end of the file or the first error.\<close>

function lex_all :: "lexer \<Rightarrow> lexed list \<times> lex_fault option" where
  "lex_all L =
     (case next_token L of
        (L', Inl f) \<Rightarrow> ([], Some f)
      | (L', Inr (t, v)) \<Rightarrow>
          if tk_typ t = TkEndOfFile then ([(t, v)], None)
          else (case lex_all L' of (ts, e) \<Rightarrow> ((t, v) # ts, e)))"
  by pat_completeness auto

termination by (relation "measure lexer_left") (auto intro: next_token_left [OF sym])

declare lex_all.simps [simp del]

text \<open>
  The tokens from an offset on: each starts after the one before and has its text, its line and
  its value; the end of the file, and nothing else, is the last; what stops the walk earlier is
  a syntax error at an offset of the source.
\<close>

fun token_chain :: "u8 list \<Rightarrow> nat \<Rightarrow> lexed list \<times> lex_fault option \<Rightarrow> bool" where
  "token_chain src p ([], e) \<longleftrightarrow> (\<exists>f. e = Some f \<and> fault_ok src f)"
| "token_chain src p ((t, v) # ts, e) \<longleftrightarrow>
     token_ok src (t, v) \<and> p \<le> tk_start t \<and>
     (if tk_typ t = TkEndOfFile then tk_start t = length src \<and> ts = [] \<and> e = None
      else tk_start t < token_end t \<and> token_chain src (token_end t) (ts, e))"

lemma lex_all_chain:
  "lexer_ok L \<Longrightarrow> length (lx_source L) \<le> MAX_SOURCE_BYTES \<Longrightarrow> token_chain (lx_source L) (lx_pos L) (lex_all L)"
proof (induction L rule: lex_all.induct)
  case (1 L)
  obtain L' r where n: "next_token L = (L', r)" by fastforce
  have ok: "lexer_ok L'" "lx_source L' = lx_source L"
    using reads_ok [OF next_token_reads [OF n] "1.prems"(1)] reads_source [OF next_token_reads [OF n]] by simp_all
  have l: "lexed_ok (lx_source L) (lx_pos L) L' r" by (rule next_token_ok [OF n "1.prems"])
  show ?case
  proof (cases r)
    case (Inl f)
    then show ?thesis using l by (simp add: lex_all.simps [of L] n lexed_ok_def)
  next
    case (Inr tv)
    obtain t v where tv: "tv = (t, v)" by fastforce
    obtain ts e where a: "lex_all L' = (ts, e)" by fastforce
    show ?thesis
    proof (cases "tk_typ t = TkEndOfFile")
      case True
      then show ?thesis using l by (simp add: lex_all.simps [of L] n Inr tv lexed_ok_def)
    next
      case False
      then have "token_chain (lx_source L) (lx_pos L') (ts, e)"
        using "1.IH" [OF n [symmetric] Inr tv [symmetric] False] ok "1.prems"(2) a by simp
      then show ?thesis using l False by (simp add: lex_all.simps [of L] n Inr tv a lexed_ok_def)
    qed
  qed
qed

text \<open>The recursion unfolds only once its argument is known.\<close>

lemma next_token_code [code]:
  "next_token L =
     (case snd (next_token_round L) of
        Inl f \<Rightarrow> (fst (next_token_round L), Inl f)
      | Inr r \<Rightarrow> (case r of Some t \<Rightarrow> (fst (next_token_round L), Inr t) | None \<Rightarrow> next_token (fst (next_token_round L))))"
  by (subst next_token.simps) (cases "next_token_round L", simp split: sum.split option.split)

lemma lex_all_code [code]:
  "lex_all L =
     (case snd (next_token L) of
        Inl f \<Rightarrow> ([], Some f)
      | Inr x \<Rightarrow>
          if tk_typ (fst x) = TkEndOfFile then ([x], None)
          else (x # fst (lex_all (fst (next_token L))), snd (lex_all (fst (next_token L)))))"
  by (subst lex_all.simps) (cases "next_token L", simp split: sum.split prod.split)


definition sample_source :: "u8 list" where
  "sample_source = map byte ''if'' @ [13, 10] @ map byte ''x~=''"


end
