(* ===== verification/Lexer_Strings.thy ===== *)
theory Lexer_Strings
  imports Lexer_Sound
begin

text \<open>
  Short strings: the ways a byte can be written between quotes, and that the lexer reads every
  such spelling back.
\<close>

section \<open>Spelling a string\<close>

text \<open>
  The ways to write a piece of a short string: a byte as it is, a named escape, a decimal escape of
  three digits, a hexadecimal escape, and a backslash before a line end, which is a newline.
\<close>

datatype piece = Verbatim u8 | Named u8 | Decimal u8 | Hexadecimal u8 | Continued

definition decimal_char :: "nat \<Rightarrow> u8" where
  "decimal_char k = of_nat (48 + k)"

definition hex_char :: "nat \<Rightarrow> u8" where
  "hex_char k = of_nat (if k < 10 then 48 + k else 87 + k)"

fun spell :: "piece \<Rightarrow> u8 list" where
  "spell (Verbatim b) = [b]"
| "spell (Named e) = [0x5C, e]"
| "spell (Decimal b) = [0x5C, decimal_char (unat b div 100), decimal_char (unat b div 10 mod 10), decimal_char (unat b mod 10)]"
| "spell (Hexadecimal b) = [0x5C, byte CHR ''x'', hex_char (unat b div 16), hex_char (unat b mod 16)]"
| "spell Continued = [0x5C, 0x0D, 0x0A]"

fun denote :: "piece \<Rightarrow> u8" where
  "denote (Verbatim b) = b"
| "denote (Named e) = (case named_escape e of Some b \<Rightarrow> b | None \<Rightarrow> e)"
| "denote (Decimal b) = b"
| "denote (Hexadecimal b) = b"
| "denote Continued = 0x0A"

fun piece_ok :: "u8 \<Rightarrow> piece \<Rightarrow> bool" where
  "piece_ok q (Verbatim b) \<longleftrightarrow> b \<notin> {q, 0x5C, 0x0D, 0x0A}"
| "piece_ok q (Named e) \<longleftrightarrow> named_escape e \<noteq> None \<and> \<not> is_newline e"
| "piece_ok q (Decimal b) \<longleftrightarrow> True"
| "piece_ok q (Hexadecimal b) \<longleftrightarrow> True"
| "piece_ok q Continued \<longleftrightarrow> True"

definition rest :: "lexer \<Rightarrow> u8 list" where
  "rest L = drop (lx_pos L) (lx_source L)"

lemma rest_Cons:
  assumes "rest L = b # r"
  shows "lx_pos L < length (lx_source L)" "lx_source L ! lx_pos L = b" "drop (lx_pos L + 1) (lx_source L) = r" "peek_char L = Some b"
proof -
  show lt: "lx_pos L < length (lx_source L)" using assms by (metis drop_all leI list.distinct(1) rest_def)
  show "lx_source L ! lx_pos L = b" "drop (lx_pos L + 1) (lx_source L) = r"
    using assms lt by (simp_all add: rest_def Cons_nth_drop_Suc [symmetric])
  then show "peek_char L = Some b" using lt by (simp add: peek_char_def)
qed

lemma next_char_rest:
  assumes "rest L = b # r"
  obtains L' where "next_char L = (Some b, L')" "rest L' = r" "lx_pos L' = lx_pos L + 1" "lx_source L' = lx_source L"
  using next_char_Some [OF rest_Cons(4) [OF assms]] rest_Cons(3) [OF assms] that by (metis rest_def)

lemma rest_nth: "rest L = xs \<Longrightarrow> i < length xs \<Longrightarrow> lx_source L ! (lx_pos L + i) = xs ! i \<and> lx_pos L + i < length (lx_source L)"
  by (auto simp: rest_def)

section \<open>Digits\<close>

lemma unat_small_u8: "n < 256 \<Longrightarrow> unat (of_nat n :: u8) = n"
  by (simp add: unat_of_nat take_bit_nat_eq_self)

lemma unat_decimal_char: "k < 10 \<Longrightarrow> unat (decimal_char k) = 48 + k"
  unfolding decimal_char_def by (rule unat_small_u8) simp

lemma decimal_char_digit:
  assumes "k < 10"
  shows "is_ascii_digit (decimal_char k)" "decimal_char k - byte CHR ''0'' = of_nat k"
proof -
  have "unat (decimal_char k) = 48 + k" using assms by (rule unat_decimal_char)
  then show "is_ascii_digit (decimal_char k)" using assms by (simp add: is_ascii_digit_def word_le_nat_alt)
  show "decimal_char k - byte CHR ''0'' = of_nat k" by (simp add: decimal_char_def)
qed

lemma ucast_digit: "k < 10 \<Longrightarrow> (ucast (of_nat k :: u8) :: u16) = of_nat k"
proof -
  assume "k < 10"
  then have "unat (ucast (of_nat k :: u8) :: u16) = unat (of_nat k :: u16)"
    by (simp add: unsigned_ucast_eq unat_of_nat take_bit_nat_eq_self)
  then show ?thesis by (simp only: word_unat_eq_iff)
qed

lemma hex_char_value:
  assumes "k < 16"
  shows "hex_value (hex_char k) = Some (of_nat k)" "hex_char k \<noteq> 0x22" "hex_char k \<noteq> 0x27" "hex_char k \<noteq> 0x5C" "\<not> is_newline (hex_char k)"
proof -
  have u: "unat (hex_char k) = (if k < 10 then 48 + k else 87 + k)" unfolding hex_char_def using assms by (intro unat_small_u8) simp
  have "hex_char k = (if k < 10 then 48 + of_nat k else 87 + of_nat k)" by (simp add: hex_char_def)
  then show "hex_value (hex_char k) = Some (of_nat k)"
    using u assms by (auto simp: hex_value_def is_ascii_digit_def word_le_nat_alt split: if_splits)
  show "hex_char k \<noteq> 0x22" "hex_char k \<noteq> 0x27" "hex_char k \<noteq> 0x5C" "\<not> is_newline (hex_char k)"
    using u assms by (auto simp: word_unat_eq_iff is_newline_def split: if_splits)
qed

lemma decimal_char_plain:
  assumes "k < 10"
  shows "decimal_char k \<noteq> 0x22" "decimal_char k \<noteq> 0x27" "decimal_char k \<noteq> 0x5C" "\<not> is_newline (decimal_char k)" "decimal_char k \<noteq> byte CHR ''z''"
proof -
  have "unat (decimal_char k) = 48 + k" using assms by (rule unat_decimal_char)
  then show "decimal_char k \<noteq> 0x22" "decimal_char k \<noteq> 0x27" "decimal_char k \<noteq> 0x5C" "\<not> is_newline (decimal_char k)" "decimal_char k \<noteq> byte CHR ''z''"
    using assms by (auto simp: word_unat_eq_iff is_newline_def)
qed

lemma byte_digits:
  fixes b :: u8
  shows "unat b div 100 < 10" "unat b div 10 mod 10 < 10" "unat b mod 10 < 10" "unat b div 16 < 16" "unat b mod 16 < 16"
    "unat b = (unat b div 100 * 10 + unat b div 10 mod 10) * 10 + unat b mod 10"
proof -
  have "unat b < 256" using unsigned_less [of b] by simp
  then show "unat b div 100 < 10" "unat b div 10 mod 10 < 10" "unat b mod 10 < 10" "unat b div 16 < 16" "unat b mod 16 < 16" by simp_all
  have "unat b div 100 = unat b div 10 div 10" by (simp add: div_mult2_eq [symmetric])
  then show "unat b = (unat b div 100 * 10 + unat b div 10 mod 10) * 10 + unat b mod 10" by (simp only: div_mult_mod_eq)
qed

lemma decode_decimal:
  assumes "rest L = 0x5C # c2 # c1 # c0 # r" "c2 = decimal_char (unat b div 100)" "c1 = decimal_char (unat b div 10 mod 10)"
    "c0 = decimal_char (unat b mod 10)"
  shows "decode_string_escape (lx_source L) (lx_pos L) c2 q fin d = Inr (lx_pos L + 4, d @ [b])"
proof -
  note bd = byte_digits [of b]
  have at: "lx_source L ! (lx_pos L + 2) = c1" "lx_pos L + 2 < length (lx_source L)" "lx_source L ! (lx_pos L + 3) = c0" "lx_pos L + 3 < length (lx_source L)"
    using rest_nth [OF assms(1), of 2] rest_nth [OF assms(1), of 3] by simp_all
  define v :: u16 where "v = (of_nat (unat b div 100) * 10 + of_nat (unat b div 10 mod 10)) * 10 + of_nat (unat b mod 10)"
  have dec: "decimal_escape 2 (lx_source L) (lx_pos L + 2) (ucast (c2 - byte CHR ''0'')) = (v, lx_pos L + 4)"
    using at bd assms(2-4) decimal_char_digit ucast_digit
    by (simp add: numeral_2_eq_2 numeral_3_eq_3 v_def)
  have "v = of_nat (unat b)" unfolding v_def by (subst (4) bd(6)) (simp only: of_nat_add of_nat_mult of_nat_numeral)
  moreover have small: "unat b < 256" using unsigned_less [of b] by simp
  ultimately have "unat v = unat b" by (simp only: unat_of_nat) (simp add: take_bit_nat_eq_self)
  then have "\<not> v > 255" "ucast v = b" using small by (simp_all add: word_less_nat_alt word_unat_eq_iff unsigned_ucast_eq take_bit_nat_eq_self)
  then show ?thesis using decimal_char_digit(1) [OF bd(1)] assms(2) dec by (simp add: decode_string_escape_def Let_def)
qed

section \<open>Reading the pieces\<close>

lemma string_step:
  assumes "rest L = c # r" "c \<noteq> q" "c \<noteq> 0x5C" "\<not> is_newline c"
  obtains L' where "rest L' = r" "lx_pos L' = lx_pos L + 1" "lx_source L' = lx_source L"
    "lex_string_loop q d None u L = lex_string_loop q (if u \<le> lx_pos L then d @ [c] else d) None u L'"
proof -
  obtain L' where n: "next_char L = (Some c, L')" "rest L' = r" "lx_pos L' = lx_pos L + 1" "lx_source L' = lx_source L"
    using assms(1) by (rule next_char_rest)
  then show ?thesis using that assms(2-4) by (simp add: lex_string_loop.simps [of q d None u L])
qed

lemma escape_step:
  assumes "rest L = 0x5C # e # r" "q \<noteq> 0x5C" "e \<noteq> byte CHR ''z''" "\<not> is_newline e"
    "decode_string_escape (lx_source L) (lx_pos L) e q (lx_pos L + 2) d = Inr (skip, d')"
  obtains L' where "rest L' = r" "lx_pos L' = lx_pos L + 2" "lx_source L' = lx_source L"
    "lex_string_loop q d None u L = lex_string_loop q d' None skip L'"
proof -
  obtain L1 where n: "next_char L = (Some 0x5C, L1)" "rest L1 = e # r" "lx_pos L1 = lx_pos L + 1" "lx_source L1 = lx_source L"
    using assms(1) by (rule next_char_rest)
  obtain L2 where m: "next_char L1 = (Some e, L2)" "rest L2 = r" "lx_pos L2 = lx_pos L1 + 1" "lx_source L2 = lx_source L1"
    using n(2) by (rule next_char_rest)
  have "read_escape L1 = (Some e, L2)" using assms(3,4) by (simp add: read_escape_def m(1))
  then show ?thesis using that [of L2] n m assms(2,5) by (simp add: lex_string_loop.simps [of q d None u L])
qed

text \<open>The two digits after the first byte of a numeric escape were decoded already.\<close>

lemma skip_two:
  assumes "rest L = x # y # r" "x \<notin> {q, 0x5C}" "y \<notin> {q, 0x5C}" "\<not> is_newline x" "\<not> is_newline y" "u = lx_pos L + 2"
  obtains L' where "rest L' = r" "lx_pos L' = lx_pos L + 2" "lx_source L' = lx_source L"
    "lex_string_loop q d None u L = lex_string_loop q d None u L'"
proof -
  obtain L1 where a: "rest L1 = y # r" "lx_pos L1 = lx_pos L + 1" "lx_source L1 = lx_source L"
      "lex_string_loop q d None u L = lex_string_loop q (if u \<le> lx_pos L then d @ [x] else d) None u L1"
    using assms(1-4) string_step [of L x "y # r" q d u] by (metis insert_iff)
  obtain L2 where b: "rest L2 = r" "lx_pos L2 = lx_pos L1 + 1" "lx_source L2 = lx_source L1"
      "lex_string_loop q d None u L1 = lex_string_loop q (if u \<le> lx_pos L1 then d @ [y] else d) None u L2"
    using a(1) assms(3,5) string_step [of L1 y r q d u] by (metis insert_iff)
  show ?thesis using that [of L2] a b assms(6) by simp
qed

lemma numeric_escape:
  assumes "rest L = 0x5C # e # x # y # r" "q \<noteq> 0x5C" "e \<noteq> byte CHR ''z''" "\<not> is_newline e"
    "decode_string_escape (lx_source L) (lx_pos L) e q (lx_pos L + 2) d = Inr (lx_pos L + 4, d @ [b])"
    "x \<notin> {q, 0x5C}" "y \<notin> {q, 0x5C}" "\<not> is_newline x" "\<not> is_newline y"
  obtains L' where "rest L' = r" "lx_pos L' = lx_pos L + 4" "lx_source L' = lx_source L"
    "lex_string_loop q d None u L = lex_string_loop q (d @ [b]) None (lx_pos L + 4) L'"
proof -
  obtain L1 where a: "rest L1 = x # y # r" "lx_pos L1 = lx_pos L + 2" "lx_source L1 = lx_source L"
      "lex_string_loop q d None u L = lex_string_loop q (d @ [b]) None (lx_pos L + 4) L1"
    using escape_step [OF assms(1-5)] by metis
  obtain L2 where "rest L2 = r" "lx_pos L2 = lx_pos L1 + 2" "lx_source L2 = lx_source L1"
      "lex_string_loop q (d @ [b]) None (lx_pos L + 4) L1 = lex_string_loop q (d @ [b]) None (lx_pos L + 4) L2"
    using skip_two [OF a(1) assms(6-9), of "lx_pos L + 4" "d @ [b]"] a(2) by auto
  then show ?thesis using that [of L2] a by simp
qed

lemma decode_hexadecimal:
  assumes "rest L = 0x5C # byte CHR ''x'' # c1 # c0 # r" "c1 = hex_char (unat b div 16)" "c0 = hex_char (unat b mod 16)" "q \<in> {0x22, 0x27}"
  shows "decode_string_escape (lx_source L) (lx_pos L) (byte CHR ''x'') q fin d = Inr (lx_pos L + 4, d @ [b])"
proof -
  note bd = byte_digits [of b]
  have at: "lx_source L ! (lx_pos L + 2) = c1" "lx_pos L + 2 < length (lx_source L)" "lx_source L ! (lx_pos L + 3) = c0" "lx_pos L + 3 < length (lx_source L)"
    using rest_nth [OF assms(1), of 2] rest_nth [OF assms(1), of 3] by simp_all
  have "escape_hex (lx_source L) q (lx_pos L + 2) = Some (of_nat (unat b div 16))"
    "escape_hex (lx_source L) q (lx_pos L + 3) = Some (of_nat (unat b mod 16))"
    using at assms(2-4) hex_char_value [OF bd(4)] hex_char_value [OF bd(5)] by (auto simp: escape_hex_def)
  moreover have "(of_nat (unat b div 16) * 16 + of_nat (unat b mod 16) :: u8) = b"
  proof -
    have "(of_nat (unat b div 16) * 16 + of_nat (unat b mod 16) :: u8) = of_nat (unat b div 16 * 16 + unat b mod 16)"
      by (simp only: of_nat_add of_nat_mult of_nat_numeral)
    then show ?thesis by (simp only: div_mult_mod_eq) simp
  qed
  moreover have "\<not> is_ascii_digit (byte CHR ''x'')" by (simp add: is_ascii_digit_def)
  ultimately show ?thesis unfolding decode_string_escape_def Let_def by simp
qed

lemma named_escape_plain:
  assumes "named_escape e = Some b" "\<not> is_newline e"
  shows "decode_string_escape src p e q fin d = Inr (fin, d @ [b])" "e \<noteq> byte CHR ''z''"
  using assms by (auto simp: named_escape_def decode_string_escape_def is_newline_def is_ascii_digit_def split: if_splits)

lemma continued_step:
  assumes "rest L = 0x5C # 0x0D # 0x0A # r" "q \<in> {0x22, 0x27}"
  obtains L' where "rest L' = r" "lx_pos L' = lx_pos L + 3" "lx_source L' = lx_source L"
    "lex_string_loop q d None u L = lex_string_loop q (d @ [0x0A]) None (lx_pos L + 3) L'"
proof -
  obtain L1 where a: "next_char L = (Some 0x5C, L1)" "rest L1 = 0x0D # 0x0A # r" "lx_pos L1 = lx_pos L + 1" "lx_source L1 = lx_source L"
    using assms(1) by (rule next_char_rest)
  obtain L2 where b: "next_char L1 = (Some 0x0D, L2)" "rest L2 = 0x0A # r" "lx_pos L2 = lx_pos L1 + 1" "lx_source L2 = lx_source L1"
    using a(2) by (rule next_char_rest)
  obtain L3 where c: "next_char L2 = (Some 0x0A, L3)" "rest L3 = r" "lx_pos L3 = lx_pos L2 + 1" "lx_source L3 = lx_source L2"
    using b(2) by (rule next_char_rest)
  have "read_escape L1 = (Some 0x0D, L3)"
    using rest_Cons(4) [OF b(2)] by (simp add: read_escape_def b(1) c(1) is_newline_def is_newline_pair_def)
  moreover have "decode_string_escape src p 0x0D q fin d = Inr (fin, d @ [0x0A])" for src p fin
    by (simp add: decode_string_escape_def named_escape_def is_ascii_digit_def)
  ultimately show ?thesis using that [of L3] a b c assms(2) by (auto simp: lex_string_loop.simps [of q d None u L] numeral_3_eq_3)
qed

lemma piece_step:
  assumes p: "piece_ok q p" and q: "q \<in> {0x22, 0x27}" and u: "u \<le> lx_pos L" and r: "rest L = spell p @ r"
  shows "\<exists>L' u'. lex_string_loop q d None u L = lex_string_loop q (d @ [denote p]) None u' L' \<and> rest L' = r \<and> u' \<le> lx_pos L' \<and>
    lx_pos L' = lx_pos L + length (spell p) \<and> lx_source L' = lx_source L"
proof (cases p)
  case (Verbatim b)
  then obtain L' where "rest L' = r" "lx_pos L' = lx_pos L + 1" "lx_source L' = lx_source L"
      "lex_string_loop q d None u L = lex_string_loop q (if u \<le> lx_pos L then d @ [b] else d) None u L'"
    using r p string_step [of L b r q d u] by (auto simp: is_newline_def)
  then show ?thesis using u Verbatim by (intro exI [of _ L'] exI [of _ u]) simp
next
  case (Named e)
  then obtain b where b: "named_escape e = Some b" "\<not> is_newline e" using p by auto
  note d = named_escape_plain [OF b]
  have "rest L = 0x5C # e # r" "q \<noteq> 0x5C" using r q Named by auto
  then obtain L' where "rest L' = r" "lx_pos L' = lx_pos L + 2" "lx_source L' = lx_source L"
      "lex_string_loop q d None u L = lex_string_loop q (d @ [b]) None (lx_pos L + 2) L'"
    using escape_step [OF _ _ d(2) b(2) d(1)] by metis
  then show ?thesis using Named b(1) by (intro exI [of _ L'] exI [of _ "lx_pos L + 2"]) simp
next
  case (Decimal b)
  note bd = byte_digits [of b]
  let ?c = "decimal_char (unat b div 100)" and ?x = "decimal_char (unat b div 10 mod 10)" and ?y = "decimal_char (unat b mod 10)"
  have e: "rest L = 0x5C # ?c # ?x # ?y # r" using r Decimal by simp
  have "?x \<notin> {q, 0x5C}" "?y \<notin> {q, 0x5C}" "q \<noteq> 0x5C" using q decimal_char_plain [OF bd(2)] decimal_char_plain [OF bd(3)] by auto
  then obtain L' where "rest L' = r" "lx_pos L' = lx_pos L + 4" "lx_source L' = lx_source L"
      "lex_string_loop q d None u L = lex_string_loop q (d @ [b]) None (lx_pos L + 4) L'"
    using numeric_escape [OF e _ decimal_char_plain(5,4) [OF bd(1)] decode_decimal [OF e refl refl refl] _ _
        decimal_char_plain(4) [OF bd(2)] decimal_char_plain(4) [OF bd(3)]] by metis
  then show ?thesis using Decimal by (intro exI [of _ L'] exI [of _ "lx_pos L + 4"]) simp
next
  case (Hexadecimal b)
  note bd = byte_digits [of b]
  let ?x = "hex_char (unat b div 16)" and ?y = "hex_char (unat b mod 16)"
  have e: "rest L = 0x5C # byte CHR ''x'' # ?x # ?y # r" using r Hexadecimal by simp
  have "?x \<notin> {q, 0x5C}" "?y \<notin> {q, 0x5C}" "q \<noteq> 0x5C" using q hex_char_value [OF bd(4)] hex_char_value [OF bd(5)] by auto
  moreover have "byte CHR ''x'' \<noteq> byte CHR ''z''" "\<not> is_newline (byte CHR ''x'')" by (simp_all add: is_newline_def)
  ultimately obtain L' where "rest L' = r" "lx_pos L' = lx_pos L + 4" "lx_source L' = lx_source L"
      "lex_string_loop q d None u L = lex_string_loop q (d @ [b]) None (lx_pos L + 4) L'"
    using numeric_escape [OF e _ _ _ decode_hexadecimal [OF e refl refl q] _ _ hex_char_value(5) [OF bd(4)] hex_char_value(5) [OF bd(5)]] by metis
  then show ?thesis using Hexadecimal by (intro exI [of _ L'] exI [of _ "lx_pos L + 4"]) simp
next
  case Continued
  then have "rest L = 0x5C # 0x0D # 0x0A # r" using r by simp
  then obtain L' where "rest L' = r" "lx_pos L' = lx_pos L + 3" "lx_source L' = lx_source L"
      "lex_string_loop q d None u L = lex_string_loop q (d @ [0x0A]) None (lx_pos L + 3) L'"
    using continued_step [OF _ q] by metis
  then show ?thesis using Continued by (intro exI [of _ L'] exI [of _ "lx_pos L + 3"]) simp
qed

lemma pieces_read:
  assumes "list_all (piece_ok q) ps" "q \<in> {0x22, 0x27}" "u \<le> lx_pos L" "rest L = concat (map spell ps) @ q # r"
  shows "\<exists>L'. lex_string_loop q d None u L = (L', Inr (Inr (d @ map denote ps))) \<and> rest L' = r \<and>
    lx_pos L' = lx_pos L + length (concat (map spell ps)) + 1 \<and> lx_source L' = lx_source L"
  using assms
proof (induction ps arbitrary: L u d)
  case Nil
  then have "rest L = q # r" by simp
  then obtain L' where "next_char L = (Some q, L')" "rest L' = r" "lx_pos L' = lx_pos L + 1" "lx_source L' = lx_source L"
    by (rule next_char_rest)
  then show ?case by (simp add: lex_string_loop.simps [of q d None u L])
next
  case (Cons p ps)
  then have "rest L = spell p @ (concat (map spell ps) @ q # r)" by simp
  then obtain L1 u' where a: "lex_string_loop q d None u L = lex_string_loop q (d @ [denote p]) None u' L1"
      "rest L1 = concat (map spell ps) @ q # r" "u' \<le> lx_pos L1" "lx_pos L1 = lx_pos L + length (spell p)" "lx_source L1 = lx_source L"
    using piece_step [of q p u L _ d] Cons.prems by fastforce
  then show ?case using Cons.IH [OF _ Cons.prems(2) a(3,2), of "d @ [denote p]"] Cons.prems(1) by auto
qed


definition sample_pieces :: "piece list" where
  "sample_pieces = [Verbatim 97, Decimal 255, Named (byte CHR ''n''), Hexadecimal 0x41, Continued]"


end
