(* ===== verification/Token_Stream.thy ===== *)
theory Token_Stream
  imports Lexer_Sound
begin

text \<open>
  The stream of tokens with two tokens of lookahead that the parser reads (\<open>TokenStream\<close> of
  \<open>compiler/lexer.rs\<close>). Popping and peeking are stated as an interface, a locale, with the sequence of
  results that is still to come as the abstract state.

  Shown here: for every sequence of pops and peeks the popped tokens are the lexer's tokens in
  their order, and the cursor is that of the last popped one.
\<close>

section \<open>The stream\<close>

record token_stream =
  ts_lexer :: lexer
  ts_lookahead :: "lexed option"
  ts_lookahead2 :: "lexed option"
  ts_last_line :: u32
  ts_last_pos :: nat

definition stream_new :: "u8 list \<Rightarrow> token_stream" where
  "stream_new src = \<lparr> ts_lexer = lexer_new src, ts_lookahead = None, ts_lookahead2 = None, ts_last_line = 1, ts_last_pos = 0 \<rparr>"

definition set_cursor :: "lexed \<Rightarrow> token_stream \<Rightarrow> token_stream" where
  "set_cursor x S = S\<lparr> ts_last_line := tk_line (fst x), ts_last_pos := snd (token_range (fst x)) \<rparr>"

definition next_with_literal :: "token_stream \<Rightarrow> token_stream \<times> (lex_fault + lexed)" where
  "next_with_literal S =
     (case ts_lookahead S of
        Some x \<Rightarrow> (set_cursor x (S\<lparr> ts_lookahead := ts_lookahead2 S, ts_lookahead2 := None \<rparr>), Inr x)
      | None \<Rightarrow>
          (case next_token (ts_lexer S) of
             (L, Inl f) \<Rightarrow> (S\<lparr> ts_lexer := L \<rparr>, Inl f)
           | (L, Inr x) \<Rightarrow> (set_cursor x (S\<lparr> ts_lexer := L \<rparr>), Inr x)))"

definition stream_next :: "token_stream \<Rightarrow> token_stream \<times> (lex_fault + token)" where
  "stream_next S = (case next_with_literal S of (S1, Inl f) \<Rightarrow> (S1, Inl f) | (S1, Inr x) \<Rightarrow> (S1, Inr (fst x)))"

definition stream_peek :: "token_stream \<Rightarrow> token_stream \<times> (lex_fault + token)" where
  "stream_peek S =
     (case ts_lookahead S of
        Some x \<Rightarrow> (S, Inr (fst x))
      | None \<Rightarrow>
          (case next_token (ts_lexer S) of
             (L, Inl f) \<Rightarrow> (S\<lparr> ts_lexer := L \<rparr>, Inl f)
           | (L, Inr x) \<Rightarrow> (S\<lparr> ts_lexer := L, ts_lookahead := Some x \<rparr>, Inr (fst x))))"

definition stream_peek2 :: "token_stream \<Rightarrow> token_stream \<times> (lex_fault + token)" where
  "stream_peek2 S =
     (case stream_peek S of
        (S1, Inl f) \<Rightarrow> (S1, Inl f)
      | (S1, Inr _) \<Rightarrow>
          (case ts_lookahead2 S1 of
             Some y \<Rightarrow> (S1, Inr (fst y))
           | None \<Rightarrow>
               (case next_token (ts_lexer S1) of
                  (L, Inl f) \<Rightarrow> (S1\<lparr> ts_lexer := L \<rparr>, Inl f)
                | (L, Inr y) \<Rightarrow> (S1\<lparr> ts_lexer := L, ts_lookahead2 := Some y \<rparr>, Inr (fst y)))))"

definition peek_type :: "token_stream \<Rightarrow> token_stream \<times> (lex_fault + token_kind)" where
  "peek_type S = (case stream_peek S of (S1, Inl f) \<Rightarrow> (S1, Inl f) | (S1, Inr t) \<Rightarrow> (S1, Inr (tk_typ t)))"

definition peek2_type :: "token_stream \<Rightarrow> token_stream \<times> (lex_fault + token_kind)" where
  "peek2_type S = (case stream_peek2 S of (S1, Inl f) \<Rightarrow> (S1, Inl f) | (S1, Inr t) \<Rightarrow> (S1, Inr (tk_typ t)))"

definition check_type :: "token_kind \<Rightarrow> token_stream \<Rightarrow> token_stream \<times> (lex_fault + bool)" where
  "check_type expected S = (case peek_type S of (S1, Inl f) \<Rightarrow> (S1, Inl f) | (S1, Inr k) \<Rightarrow> (S1, Inr (k = expected)))"

definition try_pop :: "token_kind \<Rightarrow> token_stream \<Rightarrow> token_stream \<times> (lex_fault + token option)" where
  "try_pop expected S =
     (case check_type expected S of
        (S1, Inl f) \<Rightarrow> (S1, Inl f)
      | (S1, Inr b) \<Rightarrow>
          if b then (case stream_next S1 of (S2, Inl f) \<Rightarrow> (S2, Inl f) | (S2, Inr t) \<Rightarrow> (S2, Inr (Some t)))
          else (S1, Inr None))"

definition stream_line_and_column :: "token_stream \<Rightarrow> nat \<Rightarrow> (u32 \<times> u32) option" where
  "stream_line_and_column S pos = line_and_col (ts_lexer S) pos"

text \<open>A range of the source; out of bounds is a panic.\<close>

definition stream_source_bytes :: "token_stream \<Rightarrow> nat \<times> nat \<Rightarrow> u8 list option" where
  "stream_source_bytes S r =
     (if fst r \<le> snd r \<and> snd r \<le> length (lx_source (ts_lexer S)) then Some (drop (fst r) (take (snd r) (lx_source (ts_lexer S)))) else None)"

section \<open>The interface\<close>

text \<open>
  What a stream with lookahead promises: a pop returns the first of the results to come and moves
  on by one, a peek returns the first or the second and changes nothing that is to come.
\<close>

locale lookahead =
  fixes inv :: "'s \<Rightarrow> bool" and upcoming :: "'s \<Rightarrow> nat \<Rightarrow> 'e + 'a" and shown :: "'a \<Rightarrow> 't"
    and pop :: "'s \<Rightarrow> 's \<times> ('e + 'a)" and peek :: "'s \<Rightarrow> 's \<times> ('e + 't)" and peek2 :: "'s \<Rightarrow> 's \<times> ('e + 't)"
  assumes pop_result: "inv s \<Longrightarrow> snd (pop s) = upcoming s 0"
    and pop_next: "inv s \<Longrightarrow> snd (pop s) = Inr x \<Longrightarrow> inv (fst (pop s)) \<and> (\<forall>k. upcoming (fst (pop s)) k = upcoming s (Suc k))"
    and peek_result: "inv s \<Longrightarrow> snd (peek s) = map_sum id shown (upcoming s 0)"
    and peek_keeps: "inv s \<Longrightarrow> snd (peek s) = Inr t \<Longrightarrow> inv (fst (peek s)) \<and> (\<forall>k. upcoming (fst (peek s)) k = upcoming s k)"
    and peek2_result: "inv s \<Longrightarrow> snd (peek2 s) = (case upcoming s 0 of Inl e \<Rightarrow> Inl e | Inr _ \<Rightarrow> map_sum id shown (upcoming s 1))"
    and peek2_keeps: "inv s \<Longrightarrow> snd (peek2 s) = Inr t \<Longrightarrow> inv (fst (peek2 s)) \<and> (\<forall>k. upcoming (fst (peek2 s)) k = upcoming s k)"

datatype stream_op = Pop | Peek | Peek2

text \<open>A run of operations, with the popped results; it stops at the first error.\<close>

fun run_ops ::
  "('s \<Rightarrow> 's \<times> ('e + 'a)) \<Rightarrow> ('s \<Rightarrow> 's \<times> ('e + 't)) \<Rightarrow> ('s \<Rightarrow> 's \<times> ('e + 't)) \<Rightarrow> stream_op list \<Rightarrow> 's \<Rightarrow> 's \<times> 'a list \<times> 'e option" where
  "run_ops pop peek peek2 [] s = (s, [], None)"
| "run_ops pop peek peek2 (Pop # os) s =
     (case pop s of
        (s1, Inl e) \<Rightarrow> (s1, [], Some e)
      | (s1, Inr x) \<Rightarrow> (case run_ops pop peek peek2 os s1 of (s2, xs, e) \<Rightarrow> (s2, x # xs, e)))"
| "run_ops pop peek peek2 (Peek # os) s =
     (case peek s of (s1, Inl e) \<Rightarrow> (s1, [], Some e) | (s1, Inr _) \<Rightarrow> run_ops pop peek peek2 os s1)"
| "run_ops pop peek peek2 (Peek2 # os) s =
     (case peek2 s of (s1, Inl e) \<Rightarrow> (s1, [], Some e) | (s1, Inr _) \<Rightarrow> run_ops pop peek peek2 os s1)"

context lookahead
begin

lemma run_in_order:
  assumes "inv s" "run_ops pop peek peek2 os s = (s', xs, e)"
  shows "(\<forall>i < length xs. upcoming s i = Inr (xs ! i)) \<and>
    (case e of None \<Rightarrow> length xs = length (filter (\<lambda>x. x = Pop) os)
     | Some f \<Rightarrow> upcoming s (length xs) = Inl f \<or> upcoming s (Suc (length xs)) = Inl f)"
  using assms
proof (induction os arbitrary: s xs)
  case (Cons op os)
  have peeked: "?case" if "snd x = map_sum id shown (upcoming s 0) \<or> snd x = (case upcoming s 0 of Inl e \<Rightarrow> Inl e | Inr _ \<Rightarrow> map_sum id shown (upcoming s 1))"
      "\<And>t. snd x = Inr t \<Longrightarrow> inv (fst x) \<and> (\<forall>k. upcoming (fst x) k = upcoming s k)" "op \<noteq> Pop"
      "(case x of (s1, Inl e) \<Rightarrow> (s1, [], Some e) | (s1, Inr _) \<Rightarrow> run_ops pop peek peek2 os s1) = (s', xs, e)" for x
  proof (cases "snd x")
    case (Inl f)
    then have "xs = []" "e = Some f" using that(4) by (cases x, auto)+
    then show ?thesis using that(1) Inl by (cases "upcoming s 0"; cases "upcoming s 1") auto
  next
    case (Inr t)
    then have "run_ops pop peek peek2 os (fst x) = (s', xs, e)" using that(4) by (cases x) auto
    then show ?thesis using Cons.IH [of "fst x" xs] that(2) [OF Inr] that(3) by (cases e) auto
  qed
  show ?case
  proof (cases op)
    case Pop
    show ?thesis
    proof (cases "snd (pop s)")
      case (Inl f)
      then have "xs = []" "e = Some f" using Cons.prems(2) Pop by (cases "pop s", auto)+
      then show ?thesis using pop_result [OF Cons.prems(1)] Inl by simp
    next
      case (Inr x)
      obtain ys where ys: "run_ops pop peek peek2 os (fst (pop s)) = (s', ys, e)" "xs = x # ys"
        using Cons.prems(2) Pop Inr by (cases "pop s") (auto split: prod.splits)
      note nx = pop_next [OF Cons.prems(1) Inr]
      have "upcoming s 0 = Inr x" using pop_result [OF Cons.prems(1)] Inr by simp
      then show ?thesis using Cons.IH [OF conjunct1 [OF nx] ys(1)] nx Pop
        by (auto simp: ys(2) nth_Cons' less_Suc_eq_0_disj split: option.splits)
    qed
  next
    case Peek
    show ?thesis by (rule peeked [of "peek s"]) (use peek_result peek_keeps Cons.prems Peek in auto)
  next
    case Peek2
    show ?thesis by (rule peeked [of "peek2 s"]) (use peek2_result peek2_keeps Cons.prems Peek2 in auto)
  qed
qed simp

end

section \<open>The stream keeps the promise\<close>

text \<open>The results of calling the lexer again and again; an error stays.\<close>

fun nth_token :: "lexer \<Rightarrow> nat \<Rightarrow> lex_fault + lexed" where
  "nth_token L 0 = snd (next_token L)"
| "nth_token L (Suc k) = (case next_token L of (L', Inl f) \<Rightarrow> Inl f | (L', Inr _) \<Rightarrow> nth_token L' k)"

definition stream_ok :: "token_stream \<Rightarrow> bool" where
  "stream_ok S \<longleftrightarrow> (ts_lookahead S = None \<longrightarrow> ts_lookahead2 S = None)"

definition buffered :: "token_stream \<Rightarrow> lexed list" where
  "buffered S = (case ts_lookahead S of None \<Rightarrow> [] | Some x \<Rightarrow> x # (case ts_lookahead2 S of None \<Rightarrow> [] | Some y \<Rightarrow> [y]))"

definition stream_upcoming :: "token_stream \<Rightarrow> nat \<Rightarrow> lex_fault + lexed" where
  "stream_upcoming S k =
     (if k < length (buffered S) then Inr (buffered S ! k) else nth_token (ts_lexer S) (k - length (buffered S)))"

lemma nth_token_Suc: "next_token L = (L', Inr x) \<Longrightarrow> nth_token L (Suc k) = nth_token L' k"
  by simp

text \<open>A token moved from the lexer into the buffer is still the same one of those to come.\<close>

lemma upcoming_append:
  assumes "next_token (ts_lexer S) = (L, Inr x)" "buffered S' = buffered S @ [x]" "ts_lexer S' = L"
  shows "stream_upcoming S' k = stream_upcoming S k"
proof (cases "k < length (buffered S)")
  case False
  then have "k = length (buffered S) \<or> (\<exists>j. k = length (buffered S) + Suc j)" by (metis less_iff_Suc_add linorder_neqE_nat add_Suc_right)
  then show ?thesis using assms by (auto simp: stream_upcoming_def nth_append)
qed (use assms(2) in \<open>simp add: stream_upcoming_def nth_append\<close>)

lemma upcoming_pop:
  assumes "buffered S = x # buffered S'" "ts_lexer S' = ts_lexer S"
  shows "stream_upcoming S' k = stream_upcoming S (Suc k)"
  using assms by (simp add: stream_upcoming_def)

lemma set_cursor_keeps [simp]:
  "ts_lexer (set_cursor x S) = ts_lexer S" "ts_lookahead (set_cursor x S) = ts_lookahead S" "ts_lookahead2 (set_cursor x S) = ts_lookahead2 S"
  "buffered (set_cursor x S) = buffered S" "stream_ok (set_cursor x S) = stream_ok S"
  by (simp_all add: set_cursor_def buffered_def stream_ok_def split: option.split)

lemma peek_step:
  assumes "stream_ok S"
  shows "snd (stream_peek S) = map_sum id fst (stream_upcoming S 0)"
    and "snd (stream_peek S) = Inr t \<Longrightarrow> stream_ok (fst (stream_peek S)) \<and> ts_lookahead (fst (stream_peek S)) \<noteq> None \<and>
      (\<forall>k. stream_upcoming (fst (stream_peek S)) k = stream_upcoming S k)"
proof -
  obtain L r where n: "next_token (ts_lexer S) = (L, r)" by fastforce
  show "snd (stream_peek S) = map_sum id fst (stream_upcoming S 0)"
    by (cases "ts_lookahead S"; cases r) (simp_all add: stream_peek_def n stream_upcoming_def buffered_def)
  assume t: "snd (stream_peek S) = Inr t"
  show "stream_ok (fst (stream_peek S)) \<and> ts_lookahead (fst (stream_peek S)) \<noteq> None \<and>
      (\<forall>k. stream_upcoming (fst (stream_peek S)) k = stream_upcoming S k)"
  proof (cases "ts_lookahead S")
    case None
    then obtain x where x: "r = Inr x" using t n by (cases r) (auto simp: stream_peek_def)
    have "stream_upcoming (S\<lparr> ts_lexer := L, ts_lookahead := Some x \<rparr>) k = stream_upcoming S k" for k
      using n x None assms by (intro upcoming_append) (auto simp: buffered_def stream_ok_def)
    then show ?thesis using None n x by (simp add: stream_peek_def stream_ok_def)
  qed (use assms in \<open>simp add: stream_peek_def\<close>)
qed

lemma peek2_step:
  assumes "stream_ok S"
  shows "snd (stream_peek2 S) = (case stream_upcoming S 0 of Inl e \<Rightarrow> Inl e | Inr _ \<Rightarrow> map_sum id fst (stream_upcoming S 1))"
    and "snd (stream_peek2 S) = Inr t \<Longrightarrow> stream_ok (fst (stream_peek2 S)) \<and>
      (\<forall>k. stream_upcoming (fst (stream_peek2 S)) k = stream_upcoming S k)"
proof -
  obtain S1 r where p: "stream_peek S = (S1, r)" by fastforce
  note first = peek_step(1) [OF assms, unfolded p snd_conv] and keeps = peek_step(2) [OF assms, unfolded p snd_conv fst_conv]
  obtain L y where n: "next_token (ts_lexer S1) = (L, y)" by fastforce
  have both: "snd (stream_peek2 S) = (case stream_upcoming S 0 of Inl e \<Rightarrow> Inl e | Inr _ \<Rightarrow> map_sum id fst (stream_upcoming S 1)) \<and>
    (\<forall>t. snd (stream_peek2 S) = Inr t \<longrightarrow> stream_ok (fst (stream_peek2 S)) \<and>
      (\<forall>k. stream_upcoming (fst (stream_peek2 S)) k = stream_upcoming S k))"
  proof (cases r)
    case (Inl f)
    then show ?thesis using first by (cases "stream_upcoming S 0") (simp_all add: stream_peek2_def p)
  next
    case (Inr t')
    note k = keeps [OF Inr]
    obtain x where x: "ts_lookahead S1 = Some x" using k by auto
    have u: "stream_upcoming S 0 = Inr x" "stream_upcoming S 1 = stream_upcoming S1 1"
      using k x by (metis (no_types, lifting) buffered_def length_Cons nth_Cons_0 option.simps(5) stream_upcoming_def zero_less_Suc, simp)
    show ?thesis
    proof (cases "ts_lookahead2 S1")
      case (Some z)
      have "stream_upcoming S1 1 = Inr z" using x Some by (simp add: stream_upcoming_def buffered_def)
      then show ?thesis using k x u Some by (simp add: stream_peek2_def p Inr)
    next
      case None
      have "stream_upcoming S1 1 = y" using x None n by (simp add: stream_upcoming_def buffered_def)
      moreover have "stream_upcoming (S1\<lparr> ts_lexer := L, ts_lookahead2 := Some z \<rparr>) j = stream_upcoming S1 j" if "y = Inr z" for z j
        using n that x None by (intro upcoming_append) (auto simp: buffered_def)
      ultimately show ?thesis using k x u None n by (cases y) (simp_all add: stream_peek2_def p Inr stream_ok_def)
    qed
  qed
  show "snd (stream_peek2 S) = (case stream_upcoming S 0 of Inl e \<Rightarrow> Inl e | Inr _ \<Rightarrow> map_sum id fst (stream_upcoming S 1))" using both by blast
  show "snd (stream_peek2 S) = Inr t \<Longrightarrow> stream_ok (fst (stream_peek2 S)) \<and>
      (\<forall>k. stream_upcoming (fst (stream_peek2 S)) k = stream_upcoming S k)" using both by blast
qed

lemma pop_step:
  assumes "stream_ok S"
  shows "snd (next_with_literal S) = stream_upcoming S 0"
    and "snd (next_with_literal S) = Inr x \<Longrightarrow> stream_ok (fst (next_with_literal S)) \<and>
      (\<forall>k. stream_upcoming (fst (next_with_literal S)) k = stream_upcoming S (Suc k))"
proof -
  obtain L r where n: "next_token (ts_lexer S) = (L, r)" by fastforce
  show "snd (next_with_literal S) = stream_upcoming S 0"
    by (cases "ts_lookahead S"; cases r) (simp_all add: next_with_literal_def n stream_upcoming_def buffered_def)
  assume x: "snd (next_with_literal S) = Inr x"
  show "stream_ok (fst (next_with_literal S)) \<and> (\<forall>k. stream_upcoming (fst (next_with_literal S)) k = stream_upcoming S (Suc k))"
  proof (cases "ts_lookahead S")
    case None
    then have r: "r = Inr x" using x n by (cases r) (auto simp: next_with_literal_def)
    then show ?thesis using None n assms by (simp add: next_with_literal_def stream_upcoming_def buffered_def stream_ok_def)
  next
    case (Some y)
    then show ?thesis using assms
      by (auto simp: next_with_literal_def stream_ok_def buffered_def intro!: upcoming_pop split: option.split)
  qed
qed

interpretation ts: lookahead stream_ok stream_upcoming fst next_with_literal stream_peek stream_peek2
proof (unfold_locales, goal_cases)
  case (1 S)
  then show ?case by (rule pop_step(1))
next
  case (2 S x)
  then show ?case by (rule pop_step(2))
next
  case (3 S)
  then show ?case by (rule peek_step(1))
next
  case (4 S t)
  then show ?case using peek_step(2) [of S t] by simp
next
  case (5 S)
  then show ?case by (rule peek2_step(1))
next
  case (6 S t)
  then show ?case by (rule peek2_step(2))
qed

section \<open>The parser's view\<close>

abbreviation run_stream :: "stream_op list \<Rightarrow> token_stream \<Rightarrow> token_stream \<times> lexed list \<times> lex_fault option" where
  "run_stream \<equiv> run_ops next_with_literal stream_peek stream_peek2"

text \<open>The cursor follows the pops.\<close>

definition cursor :: "token_stream \<Rightarrow> u32 \<times> nat" where
  "cursor S = (ts_last_line S, ts_last_pos S)"

lemma cursor_peek: "cursor (fst (stream_peek S)) = cursor S" "cursor (fst (stream_peek2 S)) = cursor S"
proof -
  show c: "cursor (fst (stream_peek S)) = cursor S" for S by (auto simp: stream_peek_def cursor_def split: option.split prod.split sum.split)
  obtain S1 r where p: "stream_peek S = (S1, r)" by fastforce
  show "cursor (fst (stream_peek2 S)) = cursor S" using c [of S]
    by (auto simp: p stream_peek2_def cursor_def split: option.split prod.split sum.split)
qed

lemma cursor_pop:
  "snd (next_with_literal S) = Inr x \<Longrightarrow> cursor (fst (next_with_literal S)) = (tk_line (fst x), snd (token_range (fst x)))"
  "snd (next_with_literal S) = Inl f \<Longrightarrow> cursor (fst (next_with_literal S)) = cursor S"
  by (auto simp: next_with_literal_def cursor_def set_cursor_def split: option.splits prod.splits sum.splits)

lemma run_cursor:
  "run_stream os S = (S', xs, e) \<Longrightarrow>
   cursor S' = (if xs = [] then cursor S else (tk_line (fst (last xs)), snd (token_range (fst (last xs)))))"
proof (induction os arbitrary: S xs)
  case (Cons op os)
  show ?case
  proof (cases op)
    case Pop
    show ?thesis
    proof (cases "snd (next_with_literal S)")
      case (Inl f)
      then show ?thesis using Cons.prems Pop cursor_pop(2) [OF Inl] by (cases "next_with_literal S") auto
    next
      case (Inr x)
      obtain ys where "run_stream os (fst (next_with_literal S)) = (S', ys, e)" "xs = x # ys"
        using Cons.prems Pop Inr by (cases "next_with_literal S") (auto split: prod.splits)
      then show ?thesis using Cons.IH cursor_pop(1) [OF Inr] by auto
    qed
  next
    case Peek
    then show ?thesis using Cons.prems Cons.IH cursor_peek(1) [of S] by (cases "stream_peek S"; cases "snd (stream_peek S)") auto
  next
    case Peek2
    then show ?thesis using Cons.prems Cons.IH cursor_peek(2) [of S] by (cases "stream_peek2 S"; cases "snd (stream_peek2 S)") auto
  qed
qed simp

text \<open>
  C18 (compiler/lexer.rs, TokenStream): lookahead is invisible. For every sequence of pops and peeks on
  a new stream, however they are interleaved, the popped tokens are the lexer's tokens from the
  first on, in order and with their literal values; the sequence is performed in full unless the
  lexer fails at the next token or the one after it, and then with that error; and the line and
  position of the parser's cursor are those of the last popped token, whatever was peeked at.
\<close>

theorem lookahead_invisible:
  assumes e: "run_stream os (stream_new src) = (S', xs, e)"
  shows "(\<forall>i. i < length xs \<longrightarrow> nth_token (lexer_new src) i = Inr (xs ! i)) \<and>
    (case e of
       None \<Rightarrow> length xs = length (filter (\<lambda>x. x = Pop) os)
     | Some f \<Rightarrow> nth_token (lexer_new src) (length xs) = Inl f \<or> nth_token (lexer_new src) (Suc (length xs)) = Inl f) \<and>
    cursor S' = (if xs = [] then (1, 0) else (tk_line (fst (last xs)), snd (token_range (fst (last xs)))))"
proof -
  have up: "stream_upcoming (stream_new src) = nth_token (lexer_new src)" by (rule ext) (simp add: stream_upcoming_def buffered_def stream_new_def)
  have "stream_ok (stream_new src)" "cursor (stream_new src) = (1, 0)" by (simp_all add: stream_ok_def stream_new_def cursor_def)
  then show ?thesis using ts.run_in_order [OF _ e] run_cursor [OF e] unfolding up by simp
qed

definition sample_run :: "token_stream \<times> lexed list \<times> lex_fault option" where
  "sample_run = run_stream [Peek2, Pop, Peek, Pop] (stream_new (map byte ''{ }''))"

theorem lookahead_invisible_witness:
  "map (tk_typ \<circ> fst) (fst (snd sample_run)) = [TkLCurly, TkRCurly] \<and>
   nth_token (lexer_new (map byte ''{ }'')) 1 = Inr (fst (snd sample_run) ! 1) \<and> ts_last_pos (fst sample_run) = 3"
proof -
  have k: "map (tk_typ \<circ> fst) (fst (snd sample_run)) = [TkLCurly, TkRCurly]" by code_simp
  then have l: "length (fst (snd sample_run)) = 2" by (metis length_Cons length_map list.size(3) numeral_2_eq_2)
  have p: "snd (token_range (fst (last (fst (snd sample_run))))) = 3" by code_simp
  obtain S' xs e where r: "sample_run = (S', xs, e)" by (cases sample_run) auto
  note t = lookahead_invisible [OF r [unfolded sample_run_def]]
  have x: "length xs = 2" "xs \<noteq> []" using l unfolding r by auto
  then have "nth_token (lexer_new (map byte ''{ }'')) 1 = Inr (xs ! 1)" using conjunct1 [OF t] by (metis one_less_numeral_iff semiring_norm(76))
  moreover have "ts_last_pos S' = 3" using conjunct2 [OF conjunct2 [OF t]] x(2) p unfolding r by (simp add: cursor_def)
  ultimately show ?thesis using k unfolding r by simp
qed

end
