(* ===== verification/Spec2Isabelle.thy ===== *)
theory Spec2Isabelle
  imports Rng Dispatch_Cost Cost_Analysis Finalize Vm_Safety Patterns Lexer_Strings Token_Stream
begin

text \<open>
  Verification of dellingr, a deterministic, metered Lua virtual machine written in Rust.

  \<^bold>\<open>The program.\<close> Source text is lexed, parsed and compiled to a tree of register-machine functions
  (\<open>src/compiler*\<close>), each an array of 64-bit instructions (\<open>src/instr.rs\<close>). A compiled or restored tree
  is finalized: inline-cache slots are assigned and every function is verified
  (\<open>src/compiler.rs\<close>, \<open>src/compiler/verify.rs\<close>). The VM (\<open>src/vm*\<close>) runs verified functions in a
  dispatch loop over frames on one value stack, without checking operands again; it meters work
  against a budget (\<open>src/cost_*.rs\<close>), polls an interrupt at safepoints, calls host functions and
  draws random numbers from a seeded generator (\<open>src/vm/rng.rs\<close>).

  \<^bold>\<open>The theories\<close>, in the order of their imports:

  \<^item> \<open>Prelude\<close>: machine integers and their saturating operations, results with early return,
    fallible loops and their invariants; the simplification collections.
  \<^item> \<open>Rng\<close> (\<open>vm/rng.rs\<close>): the SplitMix64 state, its period, and ranged draws by rejection, shown to end,
    to stay in range and to be exactly uniform. The rejection loop is a partial function; a
    theorem shows that it returns.
  \<^item> \<open>Cost_Model\<close>, \<open>Cost_Meter\<close> (\<open>cost_model.rs\<close>, \<open>cost_meter.rs\<close>, the charging methods of \<open>vm.rs\<close>): charges,
    weights, budgets and meters. Admission is consistent, exhausted budgets refuse everything,
    charging \<open>n\<close> units at once is charging them one by one, snapshots restore. The charging
    interface is the locale \<open>charge_gate\<close>.
  \<^item> \<open>Dispatch_Cost\<close> (\<open>vm/frame.rs\<close>): the batching of opcode charges is unobservable.
  \<^item> \<open>Vm_Limits\<close> (\<open>limits.rs\<close>): the fixed limits and the string size checks.
  \<^item> \<open>Instr\<close>, \<open>Instr_Laws\<close> (\<open>instr.rs\<close>): the packed words, their fields, the opcode table and the
    constructors; fields and operands read back as written.
  \<^item> \<open>Bytecode\<close> (\<open>compiler.rs\<close>): the compiled function and the cache-slot pass.
  \<^item> \<open>Cost_Analysis\<close> (\<open>cost_analysis.rs\<close>): the static estimate and its report.
  \<^item> \<open>Verify\<close>, \<open>Verify_Sound\<close> (\<open>compiler/verify.rs\<close>): the verifier check by check, and what acceptance
    establishes.
  \<^item> \<open>Finalize\<close> (\<open>compiler.rs\<close>): finalization of a tree and the compile entry, with the parser as an
    argument.
  \<^item> \<open>Vm_State\<close> (\<open>vm.rs\<close>, \<open>vm/inventory.rs\<close>, \<open>vm/lua_val.rs\<close>, \<open>vm/stack.rs\<close>): values, frames, activation
    records and the host's stack operations, which are isolated to the current frame.
  \<^item> \<open>Upvalues\<close> (\<open>vm/object.rs\<close>, \<open>vm/eval.rs\<close>, \<open>vm/registers.rs\<close>): captured variables. The interface of
    closures to captured variables is the locale \<open>cell_store\<close> and its extension by an operation that
    moves cells, interpreted by the upvalue pool.
  \<^item> \<open>Floats\<close>: comparison of doubles and values, and the condition of numeric loops.
  \<^item> \<open>Calls\<close> (\<open>vm/eval.rs\<close>): admission, callable objects, callbacks, tail calls, returns, unwinding.
  \<^item> \<open>Dispatch\<close> (\<open>vm/frame.rs\<close>, \<open>vm/registers.rs\<close>, \<open>vm/eval_control.rs\<close>): the arms of the dispatch loop and the
    driver of an invocation.
  \<^item> \<open>Vm_Logic\<close>, \<open>Vm_Arms\<close>, \<open>Vm_Calls\<close>, \<open>Vm_Returns\<close>, \<open>Vm_Safety\<close>: the safety of the machine. A weakest-precondition
    logic, the invariant of a running invocation, and for every arm, call, return, tail call and
    unwinding that the invariant is kept. The theorems say that running verified functions never
    panics, that a callee leaves its caller's state alone, and that an interrupt ends a run. They
    use the verifier's theorem: the operand bounds come from \<open>Verify_Sound\<close> and \<open>Finalize\<close>.
  \<^item> \<open>Byte_Class\<close>, \<open>Pattern_Compile\<close>, \<open>Pattern_Match\<close> (\<open>patterns/*\<close>): Lua patterns, their compiler and
    the backtracking matcher. \<open>Pattern_Spec\<close> states what a pattern means as the list of all matches in
    the order of preference, \<open>Pattern_Refine\<close> shows that the matcher finds the first, and \<open>Patterns\<close>
    has the interface of the string library with the theorems about searches.
  \<^item> \<open>Numeral\<close>, \<open>Rounding\<close>, \<open>Numeral_Sound\<close> (\<open>numeral.rs\<close>): the recognition of numerals and their conversion to
    doubles. \<open>nearest_bits\<close> is the specification, rounding of an exact ratio to nearest with ties to
    even; the hexadecimal conversion, which keeps sixteen digits and a sticky bit and clamps the
    exponent, meets it. The decimal conversion of the standard library is modelled by it.
  \<^item> \<open>Token\<close> (\<open>compiler/token.rs\<close>, \<open>error.rs\<close>): token kinds, literals, syntax errors and the keyword search.
  \<^item> \<open>Lexer\<close>, \<open>Lexer_Sound\<close>, \<open>Lexer_Strings\<close> (\<open>compiler/lexer.rs\<close>): the lexer, whose loops end because every move
    reads a byte (\<open>reads\<close>); the index of line starts is exact, tokens follow each other with the text
    of their kind, errors are located, and strings are read back as written.
  \<^item> \<open>Token_Stream\<close> (\<open>compiler/lexer.rs\<close>): the lookahead of the parser, stated as the locale \<open>lookahead\<close>
    and interpreted by the stream.

  \<^bold>\<open>Conventions.\<close> A Rust \<open>Result\<close> is a sum with the error on the left; a panic is \<^const>\<open>None\<close> of an option,
  the outcome \<open>Panicked\<close> of a VM operation, or the fault \<open>LexPanic\<close> of the lexer. Lengths and indices are natural numbers where the
  limits exclude overflow and words where the code wraps, saturates or casts. Doubles are their
  bit patterns. Vectors used as stacks from their end are lists whose head is that end where a
  theory says so.

  \<^bold>\<open>Fuel.\<close> Only the dispatch loop has fuel: a Lua program need not end. Running out of it is the
  separate outcome \<open>Timeout\<close>, so no theorem can hold because of it unnoticed. For an interrupted run
  the instructions its frames have left are enough fuel (\<open>interrupted_run_ends\<close>).

  \<^bold>\<open>Not modelled.\<close> The parser and the code generator; tables, strings, the collector's
  tracing and the inline caches (arguments of the dispatch loop); metamethod resolution; the
  standard library; snapshots of whole states; the correctly rounded
  mathematical kernels and arithmetic on doubles; locating, rendering and reporting errors; the
  public interface and the command line.
\<close>

end
